(* ===== verification/Prelude.thy ===== *)
theory Prelude
  imports Main "HOL-Library.Word" "HOL-Library.Signed_Division" "HOL-Library.Multiset"
begin

unbundle bit_operations_syntax

text \<open>
  Shared vocabulary of the development: the machine types of the C program, the faults a C
  statement can run into, bounds-checked C arrays, and singly linked chains whose last pointer
  is either NULL or indeterminate. Everything here is generic; no definition of this theory
  models a particular line of the source.

  Platform conventions (gcc on x86-64 Linux, the \<open>Makefile\<close> builds without optimisation):
  \<open>int\<close> has 32 bits, \<open>unsigned long\<close> 64, \<open>char\<close> (the source's \<open>BYTE\<close>) is signed. Unsigned
  values are words. A C \<open>int\<close> is a mathematical integer that is brought back into range by
  \<open>i32\<close> wherever an operation or a conversion can leave it.
\<close>

section \<open>Machine types and conversions\<close>

type_synonym u32 = "32 word"
type_synonym u64 = "64 word"
type_synonym BYTE = "8 word"
type_synonym addr_t = u32

named_theorems carr_simps "laws of bounds-checked arrays"
named_theorems chain_simps "laws of linked chains"
named_theorems conv_simps "conversions between machine integers"

text \<open>\<open>i32\<close>: two's complement reduction to the range of a 32-bit \<open>int\<close>.\<close>

definition i32 :: "int \<Rightarrow> int" where
  "i32 x = signed_take_bit 31 x"

definition int_of_u32 :: "u32 \<Rightarrow> int" where
  "int_of_u32 w = i32 (uint w)"

definition int_of_u64 :: "u64 \<Rightarrow> int" where
  "int_of_u64 w = i32 (uint w)"

definition u32_of_int :: "int \<Rightarrow> u32" where
  "u32_of_int x = word_of_int x"

definition u64_of_int :: "int \<Rightarrow> u64" where
  "u64_of_int x = word_of_int x"

definition u32_of_u64 :: "u64 \<Rightarrow> u32" where
  "u32_of_u64 w = ucast w"

definition u64_of_u32 :: "u32 \<Rightarrow> u64" where
  "u64_of_u32 w = ucast w"

text \<open>\<open>BYTE\<close> is a signed \<open>char\<close>: it is sign-extended when it becomes an integer.\<close>

definition int_of_byte :: "BYTE \<Rightarrow> int" where
  "int_of_byte b = sint b"

definition u32_of_byte :: "BYTE \<Rightarrow> u32" where
  "u32_of_byte b = scast b"

definition byte_of_u32 :: "u32 \<Rightarrow> BYTE" where
  "byte_of_u32 w = ucast w"

lemma i32_id [conv_simps]: "- (2 ^ 31) \<le> x \<Longrightarrow> x < 2 ^ 31 \<Longrightarrow> i32 x = x"
  unfolding i32_def by (rule signed_take_bit_int_eq_self) simp_all

lemma i32_small [conv_simps]: "0 \<le> x \<Longrightarrow> x < 2147483648 \<Longrightarrow> i32 x = x"
  by (rule i32_id) simp_all

lemma i32_range: "- (2 ^ 31) \<le> i32 x \<and> i32 x < 2 ^ 31"
  unfolding i32_def
  using signed_take_bit_int_greater_eq_minus_exp [of 31 x] signed_take_bit_int_less_exp [of 31 x]
  by simp

lemma int_of_u32_small [conv_simps]: "uint w < 2147483648 \<Longrightarrow> int_of_u32 w = uint w"
  by (simp add: int_of_u32_def i32_small)

lemma int_of_u64_small [conv_simps]: "uint w < 2147483648 \<Longrightarrow> int_of_u64 w = uint w"
  by (simp add: int_of_u64_def i32_small)

lemma uint_u32_of_int [conv_simps]:
  "0 \<le> x \<Longrightarrow> x < 4294967296 \<Longrightarrow> uint (u32_of_int x) = x"
  by (simp add: u32_of_int_def uint_word_of_int)

lemma uint_u64_of_int [conv_simps]:
  "0 \<le> x \<Longrightarrow> x < 2 ^ 64 \<Longrightarrow> uint (u64_of_int x) = x"
  by (simp add: u64_of_int_def uint_word_of_int)

lemma uint_u64_of_u32 [conv_simps]: "uint (u64_of_u32 w) = uint w"
proof -
  have "uint w < 18446744073709551616" using uint_lt2p [of w] by simp
  then show ?thesis by (simp add: u64_of_u32_def unsigned_ucast_eq take_bit_int_eq_self)
qed

lemma byte_of_u32_of_byte [simp]: "byte_of_u32 (u32_of_byte b) = b"
  by (rule bit_word_eqI) (simp add: byte_of_u32_def u32_of_byte_def bit_simps)

section \<open>Faults and results\<close>

text \<open>
  What C leaves undefined ends the run with a fault; an error code the source returns is an
  ordinary result. \<open>NoReturn\<close> is a loop that never ends, \<open>ProcExit\<close> a call of \<open>exit\<close>.
\<close>

datatype fault =
    NullDeref
  | WildDeref
  | OutOfBounds
  | UninitRead
  | UseAfterFree
  | DivByZero
  | NoReturn
  | ProcExit int

type_synonym 'a res = "fault + 'a"

definition bindr :: "'a res \<Rightarrow> ('a \<Rightarrow> 'b res) \<Rightarrow> 'b res" where
  "bindr m f = (case m of Inl e \<Rightarrow> Inl e | Inr x \<Rightarrow> f x)"

lemma bindr_simps [simp]:
  "bindr (Inl e) f = Inl e"
  "bindr (Inr x) f = f x"
  by (simp_all add: bindr_def)

lemma bindr_eq_Inr_iff:
  "bindr m f = Inr y \<longleftrightarrow> (\<exists>x. m = Inr x \<and> f x = Inr y)"
  by (cases m) auto

lemma bindr_eq_Inl_iff:
  "bindr m f = Inl e \<longleftrightarrow> m = Inl e \<or> (\<exists>x. m = Inr x \<and> f x = Inl e)"
  by (cases m) auto

lemma bindr_InrE:
  assumes "bindr m f = Inr y"
  obtains x where "m = Inr x" "f x = Inr y"
  using assms by (auto simp: bindr_eq_Inr_iff)

lemma bindr_assoc: "bindr (bindr m f) g = bindr m (\<lambda>x. bindr (f x) g)"
  by (cases m) auto

lemma bindr_cong [fundef_cong]:
  assumes "m = m'" and "\<And>x. m' = Inr x \<Longrightarrow> f x = f' x"
  shows "bindr m f = bindr m' f'"
  using assms by (cases m') auto

definition ok :: "'a res \<Rightarrow> bool" where
  "ok m = (case m of Inl _ \<Rightarrow> False | Inr _ \<Rightarrow> True)"

lemma ok_simps [simp]: "ok (Inl e) = False" "ok (Inr x) = True"
  by (simp_all add: ok_def)

lemma ok_iff: "ok m \<longleftrightarrow> (\<exists>x. m = Inr x)"
  by (cases m) auto

section \<open>C arrays\<close>

text \<open>
  An array is its length and its cells. An access with an index outside \<open>[0, length)\<close> is
  the fault \<open>OutOfBounds\<close>.
\<close>

datatype 'a carray = CArray (alen: nat) (acell: "nat \<Rightarrow> 'a")

definition in_bounds :: "'a carray \<Rightarrow> int \<Rightarrow> bool" where
  "in_bounds a i \<longleftrightarrow> 0 \<le> i \<and> i < int (alen a)"

definition aget :: "'a carray \<Rightarrow> int \<Rightarrow> 'a res" where
  "aget a i = (if in_bounds a i then Inr (acell a (nat i)) else Inl OutOfBounds)"

definition aset :: "'a carray \<Rightarrow> int \<Rightarrow> 'a \<Rightarrow> 'a carray res" where
  "aset a i v = (if in_bounds a i then Inr (CArray (alen a) ((acell a)(nat i := v)))
                 else Inl OutOfBounds)"

definition array_of :: "'a list \<Rightarrow> 'a carray" where
  "array_of xs = CArray (length xs) (\<lambda>n. xs ! n)"

lemma aget_in [carr_simps]: "in_bounds a i \<Longrightarrow> aget a i = Inr (acell a (nat i))"
  by (simp add: aget_def)

lemma aget_out [carr_simps]: "\<not> in_bounds a i \<Longrightarrow> aget a i = Inl OutOfBounds"
  by (simp add: aget_def)

lemma aset_in [carr_simps]:
  "in_bounds a i \<Longrightarrow> aset a i v = Inr (CArray (alen a) ((acell a)(nat i := v)))"
  by (simp add: aset_def)

lemma aset_out [carr_simps]: "\<not> in_bounds a i \<Longrightarrow> aset a i v = Inl OutOfBounds"
  by (simp add: aset_def)

lemma alen_aset: "aset a i v = Inr a' \<Longrightarrow> alen a' = alen a"
  by (auto simp: aset_def split: if_splits)

lemma aget_aset:
  assumes "aset a i v = Inr a'"
  shows "aget a' j = (if j = i then Inr v else aget a j)"
  using assms by (auto simp: aset_def aget_def in_bounds_def nat_eq_iff split: if_splits)

lemma acell_aset:
  assumes "aset a i v = Inr a'"
  shows "acell a' n = (if n = nat i then v else acell a n)"
  using assms by (auto simp: aset_def split: if_splits)

lemma aset_Inr_iff: "(\<exists>a'. aset a i v = Inr a') \<longleftrightarrow> in_bounds a i"
  by (auto simp: aset_def)

section \<open>Linked chains\<close>

text \<open>
  A singly linked list as the C code builds it: nodes, and at the end the pointer the code
  stored there, \<open>NULL\<close>, or \<open>Wild\<close> where the node came from \<open>malloc\<close> and its link was
  never written. Following a wild pointer is a fault.
\<close>

datatype 'a chain = Null | Wild | Node 'a "'a chain"

primrec nodes :: "'a chain \<Rightarrow> 'a list" where
  "nodes Null = []"
| "nodes Wild = []"
| "nodes (Node x c) = x # nodes c"

primrec chain_ok :: "'a chain \<Rightarrow> bool" where
  "chain_ok Null = True"
| "chain_ok Wild = False"
| "chain_ok (Node x c) = chain_ok c"

primrec chain_of :: "'a list \<Rightarrow> 'a chain" where
  "chain_of [] = Null"
| "chain_of (x # xs) = Node x (chain_of xs)"

lemma nodes_chain_of [simp, chain_simps]: "nodes (chain_of xs) = xs"
  by (induction xs) simp_all

lemma chain_ok_chain_of [simp, chain_simps]: "chain_ok (chain_of xs)"
  by (induction xs) simp_all

lemma chain_of_nodes [chain_simps]: "chain_ok c \<Longrightarrow> chain_of (nodes c) = c"
  by (induction c) simp_all

lemma chain_okE:
  assumes "chain_ok c"
  obtains xs where "c = chain_of xs" "nodes c = xs"
  using assms by (metis chain_of_nodes)

lemma chain_of_eq_iff [simp]: "chain_of xs = chain_of ys \<longleftrightarrow> xs = ys"
  by (metis nodes_chain_of)

text \<open>
  A pointer to a node is its position. \<open>chain_ref c n\<close> says what following \<open>n\<close> links from
  the head reaches: a fault, NULL (\<open>None\<close>), or the node at position \<open>n\<close>.
\<close>

fun chain_at :: "'a chain \<Rightarrow> nat \<Rightarrow> 'a res" where
  "chain_at Null n = Inl NullDeref"
| "chain_at Wild n = Inl WildDeref"
| "chain_at (Node x c) 0 = Inr x"
| "chain_at (Node x c) (Suc n) = chain_at c n"

fun chain_upd :: "'a chain \<Rightarrow> nat \<Rightarrow> ('a \<Rightarrow> 'a) \<Rightarrow> 'a chain res" where
  "chain_upd Null n f = Inl NullDeref"
| "chain_upd Wild n f = Inl WildDeref"
| "chain_upd (Node x c) 0 f = Inr (Node (f x) c)"
| "chain_upd (Node x c) (Suc n) f = bindr (chain_upd c n f) (\<lambda>c'. Inr (Node x c'))"

lemma chain_at_chain_of: "n < length xs \<Longrightarrow> chain_at (chain_of xs) n = Inr (xs ! n)"
  by (induction xs arbitrary: n) (auto simp: less_Suc_eq_0_disj)

lemma chain_upd_chain_of:
  "n < length xs \<Longrightarrow> chain_upd (chain_of xs) n f = Inr (chain_of (xs[n := f (xs ! n)]))"
  by (induction xs arbitrary: n) (auto simp: less_Suc_eq_0_disj)

section \<open>Counting loops\<close>

text \<open>
  \<open>for (i = lo; i < hi; i++) body\<close> over an explicit state, for loops whose bound does not
  change and that leave only through a fault.
\<close>

function for_loop :: "int \<Rightarrow> int \<Rightarrow> (int \<Rightarrow> 's \<Rightarrow> 's res) \<Rightarrow> 's \<Rightarrow> 's res" where
  "for_loop lo hi body s =
    (if lo < hi then bindr (body lo s) (\<lambda>s'. for_loop (lo + 1) hi body s') else Inr s)"
  by pat_completeness auto
termination
  by (relation "measure (\<lambda>(lo, hi, body, s). nat (hi - lo))") auto

declare for_loop.simps [simp del]

lemma for_loop_done [simp]: "hi \<le> lo \<Longrightarrow> for_loop lo hi body s = Inr s"
  by (simp add: for_loop.simps)

lemma for_loop_step:
  "lo < hi \<Longrightarrow> for_loop lo hi body s = bindr (body lo s) (\<lambda>s'. for_loop (lo + 1) hi body s')"
  by (subst for_loop.simps) simp

text \<open>Total correctness: the body never faults and keeps an invariant indexed by the counter.\<close>

lemma for_loop_rule:
  assumes "P lo s" and "lo \<le> hi"
    and "\<And>i s. lo \<le> i \<Longrightarrow> i < hi \<Longrightarrow> P i s \<Longrightarrow> \<exists>s'. body i s = Inr s' \<and> P (i + 1) s'"
  shows "\<exists>s'. for_loop lo hi body s = Inr s' \<and> P hi s'"
  using assms
proof (induction lo hi body s rule: for_loop.induct)
  case (1 lo hi body s)
  show ?case
  proof (cases "lo < hi")
    case True
    with "1.prems" obtain s' where s': "body lo s = Inr s'" "P (lo + 1) s'"
      by (metis order_refl)
    have "\<exists>s''. for_loop (lo + 1) hi body s' = Inr s'' \<and> P hi s''"
      using True s' "1.prems"(3) by (intro "1.IH" [OF True s'(1)]) simp_all
    with True s'(1) show ?thesis by (simp add: for_loop_step)
  next
    case False
    with "1.prems" show ?thesis by simp
  qed
qed

text \<open>Partial correctness, where the body may fault.\<close>

lemma for_loop_partial:
  assumes "for_loop lo hi body s = Inr s'" and "P lo s" and "lo \<le> hi"
    and "\<And>i s s'. lo \<le> i \<Longrightarrow> i < hi \<Longrightarrow> P i s \<Longrightarrow> body i s = Inr s' \<Longrightarrow> P (i + 1) s'"
  shows "P hi s'"
  using assms
proof (induction lo hi body s rule: for_loop.induct)
  case (1 lo hi body s)
  show ?case
  proof (cases "lo < hi")
    case True
    with "1.prems"(1) obtain t where t: "body lo s = Inr t" "for_loop (lo + 1) hi body t = Inr s'"
      by (auto simp: for_loop_step bindr_eq_Inr_iff)
    moreover have "P (lo + 1) t" using "1.prems"(2,4) True t(1) by simp
    ultimately show ?thesis using "1.IH" [OF True t(1) t(2)] "1.prems"(4) True by simp
  next
    case False
    with "1.prems" show ?thesis by simp
  qed
qed

lemma for_loop_cong:
  assumes "\<And>i s. lo \<le> i \<Longrightarrow> i < hi \<Longrightarrow> body i s = body' i s"
  shows "for_loop lo hi body s = for_loop lo hi body' s"
  using assms
proof (induction lo hi body s rule: for_loop.induct)
  case (1 lo hi body s)
  show ?case
  proof (cases "lo < hi")
    case True
    then have eq: "body' lo s = body lo s" using "1.prems" by simp
    have "for_loop (lo + 1) hi body t = for_loop (lo + 1) hi body' t" if "body lo s = Inr t" for t
      using "1.prems" by (intro "1.IH" [OF True that]) simp
    then show ?thesis
      unfolding for_loop_step [OF True] eq by (intro bindr_cong) simp_all
  qed simp
qed

text \<open>A component the body only reads can be taken out of the loop's state.\<close>

lemma for_loop_frame:
  assumes "\<And>i t. lo \<le> i \<Longrightarrow> i < hi \<Longrightarrow> body i (g, t) = bindr (inner i t) (\<lambda>t. Inr (g, t))"
  shows "for_loop lo hi body (g, t) = bindr (for_loop lo hi inner t) (\<lambda>t. Inr (g, t))"
  using assms
proof (induction lo hi inner t rule: for_loop.induct)
  case (1 lo hi inner t)
  show ?case
  proof (cases "lo < hi")
    case True
    have "for_loop (lo + 1) hi body (g, u) = bindr (for_loop (lo + 1) hi inner u) (\<lambda>t. Inr (g, t))"
      if "inner lo t = Inr u" for u
      using "1.prems" by (intro "1.IH" [OF True that]) simp
    then show ?thesis
      using True "1.prems" [of lo t]
      by (cases "inner lo t") (simp_all add: for_loop_step)
  qed simp
qed

section \<open>Map updates over an interval\<close>

lemma nat_eq_iff_int: "0 \<le> i \<Longrightarrow> nat i = n \<longleftrightarrow> i = int n"
  by auto

lemma upto_snoc: "i \<le> j \<Longrightarrow> [i..j] = [i..j - 1] @ [j]"
  by (rule upto_rec2)

lemma upto_append: "i \<le> j \<Longrightarrow> j \<le> k + 1 \<Longrightarrow> [i..k] = [i..j - 1] @ [j..k]"
  by (cases "j = k + 1") (auto intro: upto_split1)

lemma uint_int_unat: "uint (w :: 'a::len word) = int (unat w)"
  by simp

section \<open>Lists with one element removed\<close>

text \<open>All elements of a list but the one at position \<open>n\<close>.\<close>

definition without :: "nat \<Rightarrow> 'a list \<Rightarrow> 'a list" where
  "without n xs = take n xs @ drop (Suc n) xs"

lemma mset_without: "n < length xs \<Longrightarrow> mset xs = mset (xs ! n # without n xs)"
  by (subst id_take_nth_drop [of n xs]) (simp_all add: without_def)

lemma nth_in_without:
  assumes "j < length xs" "j \<noteq> i"
  shows "xs ! j \<in> set (without i xs)"
proof (cases "j < i")
  case True
  then have "take i xs ! j \<in> set (take i xs)" using assms(1) by (intro nth_mem) simp
  then show ?thesis using True by (simp add: without_def)
next
  case False
  then have "drop (Suc i) xs ! (j - Suc i) \<in> set (drop (Suc i) xs)"
    using assms by (intro nth_mem) simp
  then show ?thesis using False assms by (simp add: without_def)
qed

lemma mset_update_without: "n < length xs \<Longrightarrow> mset (xs[n := y]) = mset (y # without n xs)"
  by (simp add: upd_conv_take_nth_drop without_def)

lemma without_0 [simp]: "without 0 (x # xs) = xs"
  by (simp add: without_def)

lemma length_without: "n < length xs \<Longrightarrow> length (without n xs) = length xs - 1"
  by (simp add: without_def)

lemma nth_without: "i < length xs - 1 \<Longrightarrow> n < length xs \<Longrightarrow>
    without n xs ! i = (if i < n then xs ! i else xs ! Suc i)"
  by (auto simp: without_def nth_append)

section \<open>Searching loops\<close>

text \<open>\<open>for (i = lo; i < hi; i++) if (test i) break\<close>: where it stops.\<close>

function find_loop :: "int \<Rightarrow> int \<Rightarrow> (int \<Rightarrow> bool res) \<Rightarrow> int option res" where
  "find_loop lo hi test =
    (if lo < hi then bindr (test lo) (\<lambda>b. if b then Inr (Some lo) else find_loop (lo + 1) hi test)
     else Inr None)"
  by pat_completeness auto
termination
  by (relation "measure (\<lambda>(lo, hi, test). nat (hi - lo))") auto

declare find_loop.simps [simp del]

lemma find_loop_pure:
  assumes "\<And>i. lo \<le> i \<Longrightarrow> i < hi \<Longrightarrow> test i = Inr (P i)"
  shows "find_loop lo hi test = Inr None \<and> (\<forall>i. lo \<le> i \<and> i < hi \<longrightarrow> \<not> P i) \<or>
    (\<exists>k. find_loop lo hi test = Inr (Some k) \<and> lo \<le> k \<and> k < hi \<and> P k \<and>
       (\<forall>i. lo \<le> i \<and> i < k \<longrightarrow> \<not> P i))"
  using assms
proof (induction lo hi test rule: find_loop.induct)
  case (1 lo hi test)
  show ?case
  proof (cases "lo < hi")
    case True
    have at: "find_loop lo hi test = (if P lo then Inr (Some lo) else find_loop (lo + 1) hi test)"
      using True "1.prems" by (subst find_loop.simps) simp
    show ?thesis
    proof (cases "P lo")
      case True
      with at \<open>lo < hi\<close> show ?thesis by (intro disjI2 exI [of _ lo]) auto
    next
      case False
      have up: "i = lo \<or> lo + 1 \<le> i" if "lo \<le> i" for i using that by auto
      have "find_loop (lo + 1) hi test = Inr None \<and> (\<forall>i. lo + 1 \<le> i \<and> i < hi \<longrightarrow> \<not> P i) \<or>
        (\<exists>k. find_loop (lo + 1) hi test = Inr (Some k) \<and> lo + 1 \<le> k \<and> k < hi \<and> P k \<and>
          (\<forall>i. lo + 1 \<le> i \<and> i < k \<longrightarrow> \<not> P i))"
        using "1.prems" False True by (intro "1.IH" [OF True, of False]) simp_all
      then show ?thesis
      proof (elim disjE exE conjE)
        assume "find_loop (lo + 1) hi test = Inr None" "\<forall>i. lo + 1 \<le> i \<and> i < hi \<longrightarrow> \<not> P i"
        then show ?thesis using at False up by auto
      next
        fix k
        assume "find_loop (lo + 1) hi test = Inr (Some k)" "lo + 1 \<le> k" "k < hi" "P k"
          "\<forall>i. lo + 1 \<le> i \<and> i < k \<longrightarrow> \<not> P i"
        then show ?thesis using at False up by (intro disjI2 exI [of _ k]) auto
      qed
    qed
  next
    case False
    then have "find_loop lo hi test = Inr None" by (subst find_loop.simps) simp
    then show ?thesis using False by auto
  qed
qed

end
