(* ===== verification/Console.thy ===== *)
theory Console
  imports Prelude
begin

text \<open>
  Standard output. Everything the simulator lets its user observe goes through \<open>printf\<close>; the
  model appends each call to a log as the call's format string and arguments. \<open>fmt\<close> names the
  format strings of the modelled files and \<open>fmt_text\<close> gives their literals, so a log entry can be
  compared with the source line by line while terms stay small. The literals leave out the tab at
  the start and the newline at the end that most of the source's strings have.
\<close>

datatype fmt =
    F_rule | F_newline
  | F_alloc_head | F_alloc_rg | F_alloc_mem | F_alloc_region
  | F_heap_info | F_heap_start | F_heap_end | F_heap_sbrk | F_free_list | F_free_rg
  | F_dealloc_head | F_dealloc_mem | F_dealloc_region
  | F_read | F_dump_start | F_dump_end | F_write | F_write_head | F_dump_before
  | F_write_value | F_write_rule
  | F_memcell
  | F_pgtbl_head | F_pgtbl_pte | F_pgtbl_fpn
  | F_memop | F_sysname | F_xxx
  | F_kill_name | F_kill_remaining | F_kill_ready | F_kill_running
  | F_opcode | F_no_proc_file | F_no_config
  | F_cpu_finished | F_cpu_put | F_cpu_stopped | F_cpu_dispatched
  | F_ld_start | F_ld_loaded
  | F_time_slot
  | F_list_fp | F_list_rg | F_list_vma | F_list_pgn | F_null_list
  | F_fp_item | F_rg_item | F_va_item | F_pgn_item | F_letter_n
  | F_page_index | F_page_stat | F_page_byte

fun fmt_text :: "fmt \<Rightarrow> string" where
  "fmt_text F_rule = ''================================================================''"
| "fmt_text F_newline = ''''"
| "fmt_text F_alloc_head = ''Proc %d in allocation process, size: %d of region: %d''"
| "fmt_text F_alloc_rg = ''Rg start: %ld - Rg end:  %ld''"
| "fmt_text F_alloc_mem = ''===== PHYSICAL MEMORY AFTER ALLOCATION =====''"
| "fmt_text F_alloc_region = ''Pid: %d - Region: %d Address: %08x Size: %d BYTE''"
| "fmt_text F_heap_info = ''======= HEAP SEGMENT INFO =======''"
| "fmt_text F_heap_start = ''Heap Start : %ld''"
| "fmt_text F_heap_end = ''Heap End   : %ld''"
| "fmt_text F_heap_sbrk = ''Heap sbrk  : %ld''"
| "fmt_text F_free_list = ''======= FREE REGION LIST =======''"
| "fmt_text F_free_rg = ''Free: %ld -> %ld''"
| "fmt_text F_dealloc_head = ''Proc %d in deallocation process -  region: %d''"
| "fmt_text F_dealloc_mem = ''===== PHYSICAL MEMORY AFTER DEALLOCATION =====''"
| "fmt_text F_dealloc_region = ''Pid: %d - Region: %d''"
| "fmt_text F_read = ''Read region=%d offset=%d value=%d''"
| "fmt_text F_dump_start = ''===== PHYSICAL MEMORY DUMP ===== ''"
| "fmt_text F_dump_end = ''===== PHYSICAL MEMORY END-DUMP ===== ''"
| "fmt_text F_write = ''Write region=%d offset=%d value=%d''"
| "fmt_text F_write_head = ''=====  WRITE ===== ''"
| "fmt_text F_dump_before = ''===== PHYSICAL MEMORY DUMP BEFORE WRITING ===== ''"
| "fmt_text F_write_value = ''>>> Value %d will be written to physical address %08x''"
| "fmt_text F_write_rule = ''================== ''"
| "fmt_text F_memcell = ''%08x: %d ''"
| "fmt_text F_pgtbl_head = ''print_pgtbl: %d - %d''"
| "fmt_text F_pgtbl_pte = ''%08ld: %08x''"
| "fmt_text F_pgtbl_fpn = ''Page Number: %d -> Frame Number: %d''"
| "fmt_text F_memop = ''Memop code: %d''"
| "fmt_text F_sysname = ''%s''"
| "fmt_text F_xxx = ''The first system call parameter %d''"
| "fmt_text F_kill_name = ''The procname retrieved from memregionid %d is \"%s\"''"
| "fmt_text F_kill_remaining = ''the remaining process : %d''"
| "fmt_text F_kill_ready = ''[Killall] Terminating ready PID=%d (%s)''"
| "fmt_text F_kill_running = ''[Killall] Terminating running PID=%d (%s)''"
| "fmt_text F_opcode = ''get_opcode return Opcode: %s''"
| "fmt_text F_no_proc_file = ''Cannot find process description at %s''"
| "fmt_text F_no_config = ''Cannot find configure file at %s''"
| "fmt_text F_cpu_finished = ''CPU %d: Processed %2d has finished''"
| "fmt_text F_cpu_put = ''CPU %d: Put process %2d to run queue''"
| "fmt_text F_cpu_stopped = ''CPU %d stopped''"
| "fmt_text F_cpu_dispatched = ''CPU %d: Dispatched process %2d''"
| "fmt_text F_ld_start = ''ld_routine''"
| "fmt_text F_ld_loaded = ''Loaded a process at %s, PID: %d PRIO: %ld''"
| "fmt_text F_time_slot = ''Time slot %3lu''"
| "fmt_text F_list_fp = ''print_list_fp: ''"
| "fmt_text F_list_rg = ''print_list_rg: ''"
| "fmt_text F_list_vma = ''print_list_vma: ''"
| "fmt_text F_list_pgn = ''print_list_pgn: ''"
| "fmt_text F_null_list = ''NULL list''"
| "fmt_text F_fp_item = ''fp[%d]''"
| "fmt_text F_rg_item = ''rg[%ld->%ld]''"
| "fmt_text F_va_item = ''va[%ld->%ld]''"
| "fmt_text F_pgn_item = ''va[%d]-''"
| "fmt_text F_letter_n = ''n''"
| "fmt_text F_page_index = ''%03d: ''"
| "fmt_text F_page_stat = ''%05x-%05x - PID: %02d (idx %03d, nxt: %03d)''"
| "fmt_text F_page_byte = ''%05x: %02x''"

text \<open>An argument as it is passed: an \<open>int\<close>, a 32-bit or 64-bit word, or a string.\<close>

datatype arg = AI int | AU u32 | AL u64 | AS string

datatype line = Line fmt "arg list"

type_synonym log = "line list"

end
