(* ===== verification/Bitops.thy ===== *)
theory Bitops
  imports Prelude
begin

text \<open>
  The bit macros of \<open>include/bitops.h\<close> and the value operators and constants of
  \<open>include/mm.h\<close>, over 32-bit words. A macro whose arguments are bit positions takes naturals;
  \<open>BITS_PER_LONG\<close> is 32 because \<open>CONFIG_64BIT\<close> is not defined anywhere in the build.
  The lemmas compute the closed masks, show which bits a \<open>GENMASK\<close> selects, and prove that
  \<open>NBITS\<close> is the position of the highest set bit.
\<close>

section \<open>include/bitops.h\<close>

definition BITS_PER_LONG :: nat where
  "BITS_PER_LONG = 32"

definition BITS_PER_BYTE :: nat where
  "BITS_PER_BYTE = 8"

text \<open>\<open>DIV_ROUND_UP\<close> is used on \<open>int\<close> operands (truncating division) and on \<open>unsigned\<close> ones.\<close>

definition DIV_ROUND_UP :: "int \<Rightarrow> int \<Rightarrow> int" where
  "DIV_ROUND_UP n d = i32 (i32 (n + d) - 1) sdiv d"

definition DIV_ROUND_UP_U :: "u32 \<Rightarrow> u32 \<Rightarrow> u32" where
  "DIV_ROUND_UP_U n d = (n + d - 1) div d"

definition BIT :: "nat \<Rightarrow> u32" where
  "BIT nr = push_bit nr 1"

definition BIT_ULL :: "nat \<Rightarrow> u64" where
  "BIT_ULL nr = push_bit nr 1"

definition BIT_MASK :: "nat \<Rightarrow> u64" where
  "BIT_MASK nr = push_bit (nr mod BITS_PER_LONG) 1"

definition BIT_WORD :: "nat \<Rightarrow> nat" where
  "BIT_WORD nr = nr div BITS_PER_LONG"

definition GENMASK :: "nat \<Rightarrow> nat \<Rightarrow> u32" where
  "GENMASK h l = push_bit l (NOT 0) AND drop_bit (BITS_PER_LONG - h - 1) (NOT 0)"

definition NBITS2 :: "u32 \<Rightarrow> nat" where
  "NBITS2 n = (if n AND 2 \<noteq> 0 then 1 else 0)"

definition NBITS4 :: "u32 \<Rightarrow> nat" where
  "NBITS4 n = (if n AND 0xC \<noteq> 0 then 2 + NBITS2 (drop_bit 2 n) else NBITS2 n)"

definition NBITS8 :: "u32 \<Rightarrow> nat" where
  "NBITS8 n = (if n AND 0xF0 \<noteq> 0 then 4 + NBITS4 (drop_bit 4 n) else NBITS4 n)"

definition NBITS16 :: "u32 \<Rightarrow> nat" where
  "NBITS16 n = (if n AND 0xFF00 \<noteq> 0 then 8 + NBITS8 (drop_bit 8 n) else NBITS8 n)"

definition NBITS32 :: "u32 \<Rightarrow> nat" where
  "NBITS32 n = (if n AND 0xFFFF0000 \<noteq> 0 then 16 + NBITS16 (drop_bit 16 n) else NBITS16 n)"

definition NBITS :: "u32 \<Rightarrow> nat" where
  "NBITS n = (if n = 0 then 0 else NBITS32 n)"

definition EXTRACT_NBITS :: "u32 \<Rightarrow> nat \<Rightarrow> nat \<Rightarrow> u32" where
  "EXTRACT_NBITS nr h l = drop_bit l (nr AND GENMASK h l)"

section \<open>Value operators of include/mm.h\<close>

definition SETBIT :: "u32 \<Rightarrow> u32 \<Rightarrow> u32" where
  "SETBIT v msk = v OR msk"

definition CLRBIT :: "u32 \<Rightarrow> u32 \<Rightarrow> u32" where
  "CLRBIT v msk = v AND NOT msk"

definition SETVAL :: "u32 \<Rightarrow> u32 \<Rightarrow> u32 \<Rightarrow> nat \<Rightarrow> u32" where
  "SETVAL v val msk offst = (v AND NOT msk) OR (push_bit offst val AND msk)"

definition GETVAL :: "u32 \<Rightarrow> u32 \<Rightarrow> nat \<Rightarrow> u32" where
  "GETVAL v msk offst = drop_bit offst (v AND msk)"

section \<open>What the macros compute\<close>

lemma bit_GENMASK:
  "h < 32 \<Longrightarrow> bit (GENMASK h l) n \<longleftrightarrow> l \<le> n \<and> n \<le> h"
  by (auto simp: GENMASK_def BITS_PER_LONG_def bit_simps)

lemma bit_SETVAL:
  assumes "h < 32"
  shows "bit (SETVAL v x (GENMASK h l) l) n \<longleftrightarrow>
    (if l \<le> n \<and> n \<le> h then bit x (n - l) else bit v n)"
  using assms bit_imp_le_length [of v n]
  by (auto simp: SETVAL_def bit_GENMASK bit_simps)

lemma bit_GETVAL:
  assumes "h < 32"
  shows "bit (GETVAL v (GENMASK h l) l) n \<longleftrightarrow> n + l \<le> h \<and> bit v (n + l)"
  using assms by (auto simp: GETVAL_def bit_GENMASK bit_simps add.commute)

lemmas field_bits = bit_SETVAL bit_GETVAL bit_take_bit_iff

lemma GETVAL_SETVAL_same:
  assumes "h < 32" "l \<le> h"
  shows "GETVAL (SETVAL v x (GENMASK h l) l) (GENMASK h l) l = take_bit (Suc h - l) x"
  using assms by (intro bit_word_eqI) (auto simp: field_bits)

lemma GETVAL_SETVAL_other:
  assumes "h < 32" "h' < 32" "h < l' \<or> h' < l"
  shows "GETVAL (SETVAL v x (GENMASK h l) l) (GENMASK h' l') l' = GETVAL v (GENMASK h' l') l'"
  using assms by (intro bit_word_eqI) (auto simp: field_bits)

lemma SETVAL_SETVAL_same:
  assumes "h < 32"
  shows "SETVAL (SETVAL v x (GENMASK h l) l) y (GENMASK h l) l = SETVAL v y (GENMASK h l) l"
  using assms by (intro bit_word_eqI) (auto simp: field_bits)

lemma SETVAL_GETVAL:
  assumes "h < 32" "l \<le> h"
  shows "SETVAL v (GETVAL v (GENMASK h l) l) (GENMASK h l) l = v"
  using assms by (intro bit_word_eqI) (auto simp: field_bits)

lemma SETVAL_commute:
  assumes "h < 32" "h' < 32" "h < l' \<or> h' < l"
  shows "SETVAL (SETVAL v x (GENMASK h l) l) y (GENMASK h' l') l' =
    SETVAL (SETVAL v y (GENMASK h' l') l') x (GENMASK h l) l"
  using assms by (intro bit_word_eqI) (auto simp: field_bits)

text \<open>\<open>GETVAL\<close> on a mask that starts at its own offset is \<open>EXTRACT_NBITS\<close>.\<close>

lemma EXTRACT_NBITS_GETVAL: "EXTRACT_NBITS nr h l = GETVAL nr (GENMASK h l) l"
  by (simp add: EXTRACT_NBITS_def GETVAL_def)

lemma GETVAL_take_bit:
  assumes "h < 32" "l \<le> h"
  shows "GETVAL v (GENMASK h l) l = take_bit (Suc h - l) (drop_bit l v)"
  using assms by (intro bit_word_eqI) (auto simp: field_bits bit_simps add.commute)

lemma unat_drop_bit_div: "unat (drop_bit k (n :: u32)) = unat n div 2 ^ k"
  by (subst unat_drop_bit_eq) (rule drop_bit_eq_div)

lemma unat_take_bit_mod: "unat (take_bit k (n :: u32)) = unat n mod 2 ^ k"
  by (subst unsigned_take_bit_eq) (rule take_bit_eq_mod)

lemma unat_GETVAL:
  assumes "h < 32" "l \<le> h"
  shows "unat (GETVAL v (GENMASK h l) l) = unat v div 2 ^ l mod 2 ^ (Suc h - l)"
  by (simp only: GETVAL_take_bit [OF assms] unat_take_bit_mod unat_drop_bit_div)

section \<open>NBITS is the position of the highest set bit\<close>

definition top_bit :: "u32 \<Rightarrow> nat \<Rightarrow> bool" where
  "top_bit n r \<longleftrightarrow> 2 ^ r \<le> unat n \<and> unat n < 2 ^ Suc r"

lemma high_half_nonzero:
  assumes "unat n < 2 ^ (2 * k)" "2 * k \<le> 32" "msk = push_bit k (mask k)"
  shows "(n :: u32) AND msk \<noteq> 0 \<longleftrightarrow> 2 ^ k \<le> unat n"
proof -
  have "n AND msk = push_bit k (take_bit k (drop_bit k n))"
    unfolding assms(3) by (rule bit_word_eqI) (auto simp: bit_simps)
  moreover have small: "unat (drop_bit k n) < 2 ^ k"
    using assms(1) by (simp add: unat_drop_bit_div less_mult_imp_div_less
        flip: power_add mult_2)
  then have "take_bit k (drop_bit k n) = drop_bit k n"
    by (intro word_unat_eq_iff [THEN iffD2]) (simp add: unat_take_bit_mod)
  moreover have "push_bit k (drop_bit k n) = 0 \<longleftrightarrow> unat n < 2 ^ k"
  proof -
    have "push_bit k (drop_bit k n) = 0 \<longleftrightarrow> drop_bit k n = 0"
    proof
      assume z: "push_bit k (drop_bit k n) = 0"
      have "drop_bit k n = drop_bit k (push_bit k (drop_bit k n))"
        by (rule bit_word_eqI) (auto simp: bit_simps dest: bit_imp_le_length)
      with z show "drop_bit k n = 0" by simp
    qed simp
    also have "\<dots> \<longleftrightarrow> unat n div 2 ^ k = 0"
      by (simp add: word_unat_eq_iff unat_drop_bit_div)
    finally show ?thesis by (simp add: div_eq_0_iff)
  qed
  ultimately show ?thesis by (simp add: not_less)
qed

lemma top_bit_shift:
  assumes "top_bit (drop_bit k n) r"
  shows "top_bit n (k + r)"
proof -
  let ?q = "unat n div 2 ^ k"
  from assms have lo: "2 ^ r \<le> ?q" and hi: "?q < 2 ^ Suc r"
    by (simp_all add: top_bit_def unat_drop_bit_div)
  have "2 ^ (k + r) \<le> ?q * 2 ^ k"
    using lo by (simp add: power_add mult.commute)
  moreover have "?q * 2 ^ k \<le> unat n" by (rule div_times_less_eq_dividend)
  moreover have "unat n < 2 ^ Suc (k + r)"
  proof -
    have "unat n < Suc ?q * 2 ^ k" by (simp add: dividend_less_div_times add.commute)
    also have "\<dots> \<le> 2 ^ Suc r * 2 ^ k" using hi by (intro mult_right_mono) simp_all
    finally show ?thesis by (simp add: power_add mult.commute)
  qed
  ultimately show ?thesis unfolding top_bit_def by (meson le_trans)
qed

lemma NBITS2_top: "0 < unat n \<Longrightarrow> unat n < 2 ^ 2 \<Longrightarrow> top_bit n (NBITS2 n)"
  using high_half_nonzero [of n 1 2] by (auto simp: NBITS2_def top_bit_def mask_eq_exp_minus_1)

lemma unat_drop_bit_less: "unat (n :: u32) < 2 ^ (k + j) \<Longrightarrow> unat (drop_bit k n) < 2 ^ j"
  by (simp add: unat_drop_bit_div less_mult_imp_div_less power_add mult.commute)

lemma unat_drop_bit_pos: "2 ^ k \<le> unat (n :: u32) \<Longrightarrow> 0 < unat (drop_bit k n)"
  by (simp add: unat_drop_bit_div div_greater_zero_iff)

lemma NBITS4_top: "0 < unat n \<Longrightarrow> unat n < 2 ^ 4 \<Longrightarrow> top_bit n (NBITS4 n)"
  using high_half_nonzero [of n 2 "0xC"] NBITS2_top [of n] NBITS2_top [of "drop_bit 2 n"]
    unat_drop_bit_less [of n 2 2] unat_drop_bit_pos [of 2 n] top_bit_shift [of 2 n]
  by (auto simp: NBITS4_def mask_eq_exp_minus_1)

lemma NBITS8_top: "0 < unat n \<Longrightarrow> unat n < 2 ^ 8 \<Longrightarrow> top_bit n (NBITS8 n)"
  using high_half_nonzero [of n 4 "0xF0"] NBITS4_top [of n] NBITS4_top [of "drop_bit 4 n"]
    unat_drop_bit_less [of n 4 4] unat_drop_bit_pos [of 4 n] top_bit_shift [of 4 n]
  by (auto simp: NBITS8_def mask_eq_exp_minus_1)

lemma NBITS16_top: "0 < unat n \<Longrightarrow> unat n < 2 ^ 16 \<Longrightarrow> top_bit n (NBITS16 n)"
  using high_half_nonzero [of n 8 "0xFF00"] NBITS8_top [of n] NBITS8_top [of "drop_bit 8 n"]
    unat_drop_bit_less [of n 8 8] unat_drop_bit_pos [of 8 n] top_bit_shift [of 8 n]
  by (auto simp: NBITS16_def mask_eq_exp_minus_1)

lemma NBITS32_top: "0 < unat n \<Longrightarrow> top_bit n (NBITS32 n)"
  using high_half_nonzero [of n 16 "0xFFFF0000"] NBITS16_top [of n] NBITS16_top [of "drop_bit 16 n"]
    unat_drop_bit_less [of n 16 16] unat_drop_bit_pos [of 16 n] top_bit_shift [of 16 n]
    unsigned_less [of n, where ?'a = nat]
  by (auto simp: NBITS32_def mask_eq_exp_minus_1)

lemma NBITS_top: "n \<noteq> 0 \<Longrightarrow> top_bit n (NBITS n)"
  using NBITS32_top [of n] by (simp add: NBITS_def unat_gt_0)

end
