(* ===== verification/Pte.thy ===== *)
theory Pte
  imports Bitops
begin

text \<open>
  Page-table entries and address splitting: the paging constants, masks and extraction macros
  of \<open>include/mm.h\<close>, and \<open>init_pte\<close>, \<open>pte_set_swap\<close>, \<open>pte_set_fpn\<close> of \<open>src/mm.c\<close>. A function
  that updates \<open>*pte\<close> returns its code together with the new entry. The locale \<open>bitfield\<close>
  states the laws of a bit field inside an entry; the frame number, the swap type and the swap
  offset are its interpretations, and what the setters do is read off its facts.
\<close>

section \<open>Constants and masks\<close>

definition PAGING_CPU_BUS_WIDTH :: nat where
  "PAGING_CPU_BUS_WIDTH = 22"

definition PAGING_PAGESZ :: int where
  "PAGING_PAGESZ = 256"

definition PAGING_MEMRAMSZ :: u32 where
  "PAGING_MEMRAMSZ = BIT 21"

definition PAGING_PAGE_ALIGNSZ :: "int \<Rightarrow> int" where
  "PAGING_PAGE_ALIGNSZ sz = i32 (DIV_ROUND_UP sz PAGING_PAGESZ * PAGING_PAGESZ)"

definition PAGING_MEMSWPSZ :: u32 where
  "PAGING_MEMSWPSZ = BIT 29"

definition PAGING_SWPFPN_OFFSET :: nat where
  "PAGING_SWPFPN_OFFSET = 5"

definition PAGING_MAX_PGN :: u32 where
  "PAGING_MAX_PGN = DIV_ROUND_UP_U (BIT PAGING_CPU_BUS_WIDTH) (u32_of_int PAGING_PAGESZ)"

definition PAGING_PTE_PRESENT_MASK :: u32 where
  "PAGING_PTE_PRESENT_MASK = BIT 31"

definition PAGING_PTE_SWAPPED_MASK :: u32 where
  "PAGING_PTE_SWAPPED_MASK = BIT 30"

definition PAGING_PTE_RESERVE_MASK :: u32 where
  "PAGING_PTE_RESERVE_MASK = BIT 29"

definition PAGING_PTE_DIRTY_MASK :: u32 where
  "PAGING_PTE_DIRTY_MASK = BIT 28"

definition PAGING_PTE_SET_PRESENT :: "u32 \<Rightarrow> u32" where
  "PAGING_PTE_SET_PRESENT pte = pte OR PAGING_PTE_PRESENT_MASK"

definition PAGING_PAGE_PRESENT :: "u32 \<Rightarrow> u32" where
  "PAGING_PAGE_PRESENT pte = pte AND PAGING_PTE_PRESENT_MASK"

definition PAGING_PTE_USRNUM_MASK :: u32 where
  "PAGING_PTE_USRNUM_MASK = GENMASK 27 15"

definition PAGING_PTE_FPN_MASK :: u32 where
  "PAGING_PTE_FPN_MASK = GENMASK 12 0"

definition PAGING_PTE_SWPTYP_MASK :: u32 where
  "PAGING_PTE_SWPTYP_MASK = GENMASK 4 0"

definition PAGING_PTE_SWPOFF_MASK :: u32 where
  "PAGING_PTE_SWPOFF_MASK = GENMASK 25 5"

definition PAGING_ADDR_OFFST_HIBIT :: nat where
  "PAGING_ADDR_OFFST_HIBIT = NBITS (u32_of_int PAGING_PAGESZ) - 1"

definition PAGING_ADDR_PGN_LOBIT :: nat where
  "PAGING_ADDR_PGN_LOBIT = NBITS (u32_of_int PAGING_PAGESZ)"

definition PAGING_ADDR_PGN_HIBIT :: nat where
  "PAGING_ADDR_PGN_HIBIT = PAGING_CPU_BUS_WIDTH - 1"

definition PAGING_ADDR_FPN_LOBIT :: nat where
  "PAGING_ADDR_FPN_LOBIT = NBITS (u32_of_int PAGING_PAGESZ)"

definition PAGING_ADDR_FPN_HIBIT :: nat where
  "PAGING_ADDR_FPN_HIBIT = NBITS PAGING_MEMRAMSZ - 1"

definition PAGING_SWP_LOBIT :: nat where
  "PAGING_SWP_LOBIT = NBITS (u32_of_int PAGING_PAGESZ)"

definition PAGING_SWP_HIBIT :: nat where
  "PAGING_SWP_HIBIT = NBITS PAGING_MEMSWPSZ - 1"

definition PAGING_OFFST_MASK :: u32 where
  "PAGING_OFFST_MASK = GENMASK PAGING_ADDR_OFFST_HIBIT 0"

definition PAGING_PGN_MASK :: u32 where
  "PAGING_PGN_MASK = GENMASK PAGING_ADDR_PGN_HIBIT PAGING_ADDR_PGN_LOBIT"

definition PAGING_FPN_MASK :: u32 where
  "PAGING_FPN_MASK = GENMASK PAGING_ADDR_FPN_HIBIT PAGING_ADDR_FPN_LOBIT"

definition PAGING_SWP_MASK :: u32 where
  "PAGING_SWP_MASK = GENMASK PAGING_SWP_HIBIT PAGING_SWP_LOBIT"

section \<open>Extraction\<close>

definition PAGING_PTE_FPN :: "u32 \<Rightarrow> u32" where
  "PAGING_PTE_FPN pte = GETVAL pte PAGING_PTE_FPN_MASK 0"

definition PAGING_PTE_SWP :: "u32 \<Rightarrow> u32" where
  "PAGING_PTE_SWP pte = GETVAL pte PAGING_PTE_SWPOFF_MASK PAGING_SWPFPN_OFFSET"

definition PAGING_PTE_OFFST :: "u32 \<Rightarrow> u32" where
  "PAGING_PTE_OFFST pte = GETVAL pte PAGING_OFFST_MASK 0"

definition PAGING_PTE_PGN :: "u32 \<Rightarrow> u32" where
  "PAGING_PTE_PGN pte = GETVAL pte PAGING_PGN_MASK PAGING_ADDR_PGN_LOBIT"

definition PAGING_SWP :: "u32 \<Rightarrow> u32" where
  "PAGING_SWP pte = drop_bit PAGING_SWPFPN_OFFSET (pte AND PAGING_PTE_SWPOFF_MASK)"

definition PAGING_OFFST :: "u32 \<Rightarrow> u32" where
  "PAGING_OFFST x = GETVAL x PAGING_OFFST_MASK 0"

definition PAGING_PGN :: "u32 \<Rightarrow> u32" where
  "PAGING_PGN x = GETVAL x PAGING_PGN_MASK PAGING_ADDR_PGN_LOBIT"

definition PAGING_FPN :: "u32 \<Rightarrow> u32" where
  "PAGING_FPN x = GETVAL x PAGING_PTE_FPN_MASK 0"

definition PAGING_SWPFPN :: "u32 \<Rightarrow> u32" where
  "PAGING_SWPFPN x = GETVAL x PAGING_PTE_SWPOFF_MASK PAGING_SWPFPN_OFFSET"

definition PAGING_SWPTYP :: "u32 \<Rightarrow> u32" where
  "PAGING_SWPTYP x = GETVAL x PAGING_PTE_SWPTYP_MASK 0"

definition PAGING_PHYADDR :: "u32 \<Rightarrow> u32 \<Rightarrow> u32" where
  "PAGING_PHYADDR fpn offst = push_bit PAGING_ADDR_FPN_LOBIT fpn + offst"

section \<open>Setting entries (src/mm.c)\<close>

definition init_pte :: "u32 \<Rightarrow> int \<Rightarrow> int \<Rightarrow> int \<Rightarrow> int \<Rightarrow> int \<Rightarrow> int \<Rightarrow> int \<times> u32" where
  "init_pte pte pre fpn drt swp swptyp swpoff =
    (if pre \<noteq> 0 then
       if swp = 0 then
         if fpn = 0 then (-1, pte)
         else
           (let p = SETBIT pte PAGING_PTE_PRESENT_MASK;
                p = CLRBIT p PAGING_PTE_SWAPPED_MASK;
                p = CLRBIT p PAGING_PTE_DIRTY_MASK
            in (0, SETVAL p (u32_of_int fpn) PAGING_PTE_FPN_MASK 0))
       else
         (let p = SETBIT pte PAGING_PTE_PRESENT_MASK;
              p = SETBIT p PAGING_PTE_SWAPPED_MASK;
              p = CLRBIT p PAGING_PTE_DIRTY_MASK;
              p = SETVAL p (u32_of_int swptyp) PAGING_PTE_SWPTYP_MASK 0
          in (0, SETVAL p (u32_of_int swpoff) PAGING_PTE_SWPOFF_MASK 5))
     else (0, pte))"

definition pte_set_swap :: "u32 \<Rightarrow> int \<Rightarrow> int \<Rightarrow> int \<times> u32" where
  "pte_set_swap pte swptyp swpoff =
    (let p = SETBIT pte PAGING_PTE_PRESENT_MASK;
         p = SETBIT p PAGING_PTE_SWAPPED_MASK;
         p = SETVAL p (u32_of_int swptyp) PAGING_PTE_SWPTYP_MASK 0
     in (0, SETVAL p (u32_of_int swpoff) PAGING_PTE_SWPOFF_MASK 5))"

definition pte_set_fpn :: "u32 \<Rightarrow> int \<Rightarrow> int \<times> u32" where
  "pte_set_fpn pte fpn =
    (let p = SETBIT pte PAGING_PTE_PRESENT_MASK;
         p = CLRBIT p PAGING_PTE_SWAPPED_MASK
     in (0, SETVAL p (u32_of_int fpn) PAGING_PTE_FPN_MASK 0))"

section \<open>The closed constants\<close>

named_theorems paging_consts

lemma NBITS_PAGESZ: "NBITS 256 = 8"
  by (simp add: NBITS_def NBITS32_def NBITS16_def NBITS8_def NBITS4_def NBITS2_def)

lemma paging_lobits [paging_consts]:
  "PAGING_ADDR_PGN_LOBIT = 8" "PAGING_ADDR_FPN_LOBIT = 8" "PAGING_SWP_LOBIT = 8"
  "PAGING_ADDR_OFFST_HIBIT = 7" "PAGING_ADDR_PGN_HIBIT = 21" "PAGING_SWPFPN_OFFSET = 5"
  by (simp_all add: PAGING_ADDR_PGN_LOBIT_def PAGING_ADDR_FPN_LOBIT_def PAGING_SWP_LOBIT_def
      PAGING_ADDR_OFFST_HIBIT_def PAGING_ADDR_PGN_HIBIT_def PAGING_CPU_BUS_WIDTH_def
      PAGING_PAGESZ_def u32_of_int_def NBITS_PAGESZ PAGING_SWPFPN_OFFSET_def)

lemma PAGING_MAX_PGN_eq [paging_consts]: "PAGING_MAX_PGN = 16384"
  by (simp add: PAGING_MAX_PGN_def DIV_ROUND_UP_U_def BIT_def PAGING_CPU_BUS_WIDTH_def
      PAGING_PAGESZ_def u32_of_int_def)

lemma paging_masks [paging_consts]:
  "PAGING_OFFST_MASK = GENMASK 7 0" "PAGING_PGN_MASK = GENMASK 21 8"
  "PAGING_PTE_FPN_MASK = GENMASK 12 0" "PAGING_PTE_SWPTYP_MASK = GENMASK 4 0"
  "PAGING_PTE_SWPOFF_MASK = GENMASK 25 5" "PAGING_PTE_USRNUM_MASK = GENMASK 27 15"
  by (simp_all add: PAGING_OFFST_MASK_def PAGING_PGN_MASK_def paging_lobits
      PAGING_PTE_FPN_MASK_def PAGING_PTE_SWPTYP_MASK_def PAGING_PTE_SWPOFF_MASK_def
      PAGING_PTE_USRNUM_MASK_def)

lemma bit_BIT: "k < 32 \<Longrightarrow> bit (BIT k) n \<longleftrightarrow> n = k"
  by (auto simp: BIT_def bit_simps)

section \<open>Bit fields inside an entry\<close>

text \<open>
  The contract of a field of \<open>width\<close> bits: writing then reading gives the value cut to the
  width, a later write wins, and writing back what was read changes nothing.
\<close>

locale bitfield =
  fixes width :: nat
    and put :: "u32 \<Rightarrow> u32 \<Rightarrow> u32"
    and get :: "u32 \<Rightarrow> u32"
  assumes get_put: "get (put v x) = take_bit width x"
    and put_put: "put (put v x) y = put v y"
    and put_get: "put v (get v) = v"
begin

lemma put_take_bit: "put v (take_bit width x) = put v x"
  by (metis get_put put_get put_put)

lemma put_eq_iff: "put v x = put v y \<longleftrightarrow> take_bit width x = take_bit width y"
  by (metis get_put put_take_bit)

lemma get_put_small:
  assumes "unat x < 2 ^ width"
  shows "get (put v x) = x"
  using assms by (simp add: get_put word_unat_eq_iff unat_take_bit_mod)

lemma unat_get_put: "unat (get (put v x)) = unat x mod 2 ^ width"
  by (simp add: get_put unat_take_bit_mod)

lemma unat_get_less: "unat (get v) < 2 ^ width"
  by (metis put_get unat_get_put mod_less_divisor zero_less_numeral zero_less_power)

end

text \<open>Two fields that do not share a bit: each survives a write of the other.\<close>

locale disjoint_fields =
  f: bitfield w1 put1 get1 + g: bitfield w2 put2 get2
  for w1 put1 get1 w2 put2 get2 +
  assumes get1_put2: "get1 (put2 v x) = get1 v"
    and get2_put1: "get2 (put1 v x) = get2 v"
begin

lemma both_read_back:
  "get1 (put2 (put1 v x) y) = take_bit w1 x \<and> get2 (put2 (put1 v x) y) = take_bit w2 y"
  by (simp add: get1_put2 f.get_put g.get_put)

end

definition put_fpn :: "u32 \<Rightarrow> u32 \<Rightarrow> u32" where
  "put_fpn v x = SETVAL v x PAGING_PTE_FPN_MASK 0"

definition put_swptyp :: "u32 \<Rightarrow> u32 \<Rightarrow> u32" where
  "put_swptyp v x = SETVAL v x PAGING_PTE_SWPTYP_MASK 0"

definition put_swpoff :: "u32 \<Rightarrow> u32 \<Rightarrow> u32" where
  "put_swpoff v x = SETVAL v x PAGING_PTE_SWPOFF_MASK 5"

definition get_usrnum :: "u32 \<Rightarrow> u32" where
  "get_usrnum v = GETVAL v PAGING_PTE_USRNUM_MASK 15"

lemmas field_defs = put_fpn_def put_swptyp_def put_swpoff_def PAGING_FPN_def PAGING_SWPTYP_def
  PAGING_SWPFPN_def get_usrnum_def paging_consts

interpretation fpn_field: bitfield 13 put_fpn PAGING_FPN
  by unfold_locales
    (simp_all add: field_defs GETVAL_SETVAL_same SETVAL_SETVAL_same SETVAL_GETVAL)

interpretation swp_fields: disjoint_fields 5 put_swptyp PAGING_SWPTYP 21 put_swpoff PAGING_SWPFPN
  by unfold_locales
    (simp_all add: field_defs GETVAL_SETVAL_same SETVAL_SETVAL_same SETVAL_GETVAL
      GETVAL_SETVAL_other)

text \<open>The same reader under its other names in the header.\<close>

lemma pte_reader_names: "PAGING_PTE_FPN = PAGING_FPN" "PAGING_PTE_SWP = PAGING_SWPFPN"
  "PAGING_SWP = PAGING_SWPFPN"
  by (auto simp: fun_eq_iff PAGING_PTE_FPN_def PAGING_FPN_def PAGING_PTE_SWP_def
      PAGING_SWPFPN_def PAGING_SWP_def GETVAL_def)

section \<open>The flags\<close>

definition pte_present :: "u32 \<Rightarrow> bool" where
  "pte_present pte \<longleftrightarrow> PAGING_PAGE_PRESENT pte \<noteq> 0"

definition pte_swapped :: "u32 \<Rightarrow> bool" where
  "pte_swapped pte \<longleftrightarrow> pte AND PAGING_PTE_SWAPPED_MASK \<noteq> 0"

definition pte_dirty :: "u32 \<Rightarrow> bool" where
  "pte_dirty pte \<longleftrightarrow> pte AND PAGING_PTE_DIRTY_MASK \<noteq> 0"

lemma and_BIT_nonzero: "k < 32 \<Longrightarrow> (v AND BIT k \<noteq> 0) = bit v k"
  by (simp add: BIT_def and_exp_eq_0_iff_not_bit push_bit_eq_mult)

lemma flag_bits:
  "pte_present v = bit v 31" "pte_swapped v = bit v 30" "pte_dirty v = bit v 28"
  by (simp_all add: pte_present_def PAGING_PAGE_PRESENT_def pte_swapped_def pte_dirty_def
      PAGING_PTE_PRESENT_MASK_def PAGING_PTE_SWAPPED_MASK_def PAGING_PTE_DIRTY_MASK_def
      and_BIT_nonzero)

lemmas pte_bits = flag_bits SETBIT_def CLRBIT_def PAGING_PTE_PRESENT_MASK_def
  PAGING_PTE_SWAPPED_MASK_def PAGING_PTE_DIRTY_MASK_def bit_BIT bit_SETVAL paging_consts

lemma flags_put [simp]:
  "pte_present (put_fpn v x) = pte_present v" "pte_swapped (put_fpn v x) = pte_swapped v"
  "pte_dirty (put_fpn v x) = pte_dirty v"
  "pte_present (put_swptyp v x) = pte_present v" "pte_swapped (put_swptyp v x) = pte_swapped v"
  "pte_dirty (put_swptyp v x) = pte_dirty v"
  "pte_present (put_swpoff v x) = pte_present v" "pte_swapped (put_swpoff v x) = pte_swapped v"
  "pte_dirty (put_swpoff v x) = pte_dirty v"
  by (simp_all add: put_fpn_def put_swptyp_def put_swpoff_def pte_bits)

definition online_flags :: "u32 \<Rightarrow> u32" where
  "online_flags v = CLRBIT (SETBIT v PAGING_PTE_PRESENT_MASK) PAGING_PTE_SWAPPED_MASK"

definition swapped_flags :: "u32 \<Rightarrow> u32" where
  "swapped_flags v = SETBIT (SETBIT v PAGING_PTE_PRESENT_MASK) PAGING_PTE_SWAPPED_MASK"

lemma flags_online [simp]:
  "pte_present (online_flags v)" "\<not> pte_swapped (online_flags v)"
  "pte_dirty (online_flags v) = pte_dirty v"
  by (simp_all add: online_flags_def pte_bits bit_simps)

lemma flags_swapped [simp]:
  "pte_present (swapped_flags v)" "pte_swapped (swapped_flags v)"
  "pte_dirty (swapped_flags v) = pte_dirty v"
  by (simp_all add: swapped_flags_def pte_bits bit_simps)

lemma pte_set_fpn_put: "pte_set_fpn v n = (0, put_fpn (online_flags v) (u32_of_int n))"
  by (simp add: pte_set_fpn_def put_fpn_def online_flags_def Let_def)

lemma pte_set_swap_put: "pte_set_swap v t n =
   (0, put_swpoff (put_swptyp (swapped_flags v) (u32_of_int t)) (u32_of_int n))"
  by (simp add: pte_set_swap_def put_swptyp_def put_swpoff_def swapped_flags_def Let_def)

lemma get_usrnum_put_fpn: "get_usrnum (put_fpn (online_flags v) x) = get_usrnum v"
  by (rule bit_word_eqI)
    (auto simp: field_defs field_bits online_flags_def SETBIT_def CLRBIT_def bit_simps
      PAGING_PTE_PRESENT_MASK_def PAGING_PTE_SWAPPED_MASK_def bit_BIT)

lemma unat_u32_of_int_mod:
  assumes "0 \<le> n" "k \<le> 32"
  shows "unat (u32_of_int n) mod 2 ^ k = nat n mod 2 ^ k"
proof -
  have "unat (u32_of_int n) = nat n mod 2 ^ 32"
    using assms(1)
    by (simp add: u32_of_int_def unat_eq_nat_uint uint_word_of_int nat_mod_distrib)
  moreover have "(2 :: nat) ^ k dvd 2 ^ 32" using assms(2) by (rule le_imp_power_dvd)
  ultimately show ?thesis by (metis mod_mod_cancel)
qed

lemma unat_PGN: "unat (PAGING_PGN x) = unat x div 2 ^ 8 mod 2 ^ 14"
  unfolding PAGING_PGN_def paging_consts by (subst unat_GETVAL) simp_all

lemma unat_OFFST: "unat (PAGING_OFFST x) = unat x mod 2 ^ 8"
  unfolding PAGING_OFFST_def paging_consts by (subst unat_GETVAL) simp_all

lemma unat_FPN: "unat (PAGING_FPN x) = unat x mod 2 ^ 13"
  unfolding PAGING_FPN_def paging_consts by (subst unat_GETVAL) simp_all

lemma unat_SWPFPN: "unat (PAGING_SWPFPN x) = unat x div 2 ^ 5 mod 2 ^ 21"
  unfolding PAGING_SWPFPN_def paging_consts by (subst unat_GETVAL) simp_all

lemma PGN_less: "unat (PAGING_PGN x) < 16384"
  using mod_less_divisor [of "2 ^ 14" "unat x div 2 ^ 8"] by (simp add: unat_PGN)

lemma OFFST_less: "unat (PAGING_OFFST x) < 256"
  using mod_less_divisor [of "2 ^ 8" "unat x"] by (simp add: unat_OFFST)

lemma FPN_less: "unat (PAGING_FPN x) < 8192"
  using mod_less_divisor [of "2 ^ 13" "unat x"] by (simp add: unat_FPN)

section \<open>Properties\<close>

text \<open>
  \<open>pte_set_fpn\<close> makes an entry online: it returns 0, the entry is present and not swapped,
  its frame number is the given one cut to 13 bits, and the dirty bit and the user number keep
  their values.
\<close>

theorem pte_set_fpn_spec:
  assumes "0 \<le> fpn"
  shows "fst (pte_set_fpn pte fpn) = 0 \<and>
    pte_present (snd (pte_set_fpn pte fpn)) \<and>
    \<not> pte_swapped (snd (pte_set_fpn pte fpn)) \<and>
    unat (PAGING_FPN (snd (pte_set_fpn pte fpn))) = nat fpn mod 8192 \<and>
    pte_dirty (snd (pte_set_fpn pte fpn)) = pte_dirty pte \<and>
    get_usrnum (snd (pte_set_fpn pte fpn)) = get_usrnum pte"
  using fpn_field.unat_get_put unat_u32_of_int_mod [OF assms, of 13]
  by (simp add: pte_set_fpn_put get_usrnum_put_fpn)

theorem pte_set_fpn_spec_witness:
  "unat (PAGING_FPN (snd (pte_set_fpn 0x50000000 8200))) = 8 \<and> pte_dirty (0x50000000)"
  using pte_set_fpn_spec [of 8200 "0x50000000"]
  by (simp add: flag_bits bit_numeral_word_iff)

text \<open>
  \<open>pte_set_swap\<close> records a swapped page: the swap type (5 bits) and the swap offset
  (21 bits) read back independently, the entry is marked swapped, and it is also marked
  present: the same bit \<open>pg_getpage\<close> tests to decide that a page is in RAM.
\<close>

theorem pte_set_swap_spec:
  assumes "0 \<le> swptyp" and "0 \<le> swpoff"
  shows "fst (pte_set_swap pte swptyp swpoff) = 0 \<and>
    pte_swapped (snd (pte_set_swap pte swptyp swpoff)) \<and>
    pte_present (snd (pte_set_swap pte swptyp swpoff)) \<and>
    unat (PAGING_SWPTYP (snd (pte_set_swap pte swptyp swpoff))) = nat swptyp mod 32 \<and>
    unat (PAGING_SWPFPN (snd (pte_set_swap pte swptyp swpoff))) = nat swpoff mod 2097152 \<and>
    pte_dirty (snd (pte_set_swap pte swptyp swpoff)) = pte_dirty pte"
  using swp_fields.f.unat_get_put swp_fields.g.unat_get_put swp_fields.get1_put2
    unat_u32_of_int_mod [OF assms(1), of 5] unat_u32_of_int_mod [OF assms(2), of 21]
  by (simp add: pte_set_swap_put)

theorem pte_set_swap_spec_witness:
  "unat (PAGING_SWPTYP (snd (pte_set_swap 0 33 70))) = 1 \<and>
   unat (PAGING_SWPFPN (snd (pte_set_swap 0 33 70))) = 70"
  using pte_set_swap_spec [of 33 70 0] by simp

text \<open>
  C39: \<open>init_pte\<close> agrees with the setters: an absent page and a zero frame number leave the
  entry alone (the latter with code -1); otherwise the result is the setter's entry with the
  dirty bit cleared.
\<close>

theorem init_pte_setters:
  "init_pte pte pre fpn drt swp swptyp swpoff =
    (if pre = 0 then (0, pte)
     else if swp = 0 then
       (if fpn = 0 then (-1, pte)
        else (0, CLRBIT (snd (pte_set_fpn pte fpn)) PAGING_PTE_DIRTY_MASK))
     else (0, CLRBIT (snd (pte_set_swap pte swptyp swpoff)) PAGING_PTE_DIRTY_MASK))"
proof -
  have comm: "SETVAL (CLRBIT p PAGING_PTE_DIRTY_MASK) x (GENMASK h l) l =
      CLRBIT (SETVAL p x (GENMASK h l) l) PAGING_PTE_DIRTY_MASK" if "h < 28" for p x h l
    using that by (intro bit_word_eqI) (auto simp: pte_bits bit_simps)
  show ?thesis
    by (simp add: init_pte_def pte_set_fpn_def pte_set_swap_def Let_def paging_masks comm)
qed

text \<open>
  Splitting a virtual address loses nothing of its 22 bits: the page number is a valid
  index of the page table, the offset lies inside a page, and together they give the address
  back.
\<close>

theorem paging_address_split:
  "unat (PAGING_PGN x) < unat PAGING_MAX_PGN \<and> unat (PAGING_OFFST x) < 256 \<and>
   unat (PAGING_PGN x) * 256 + unat (PAGING_OFFST x) = unat x mod 2 ^ 22"
proof -
  have "unat x div 2 ^ 8 mod 2 ^ 14 * 2 ^ 8 + unat x mod 2 ^ 8 = unat x mod (2 ^ 8 * 2 ^ 14)"
    by (subst mod_mult2_eq) simp
  then show ?thesis
    using PGN_less [of x] OFFST_less [of x] by (simp add: unat_PGN unat_OFFST paging_consts)
qed

text \<open>
  \<open>NBITS\<close> computes the position of the highest set bit of a 32-bit value, the fact the
  page-number shift of every address macro rests on.
\<close>

theorem NBITS_highest_bit:
  assumes "n \<noteq> 0"
  shows "2 ^ NBITS n \<le> unat n \<and> unat n < 2 ^ (NBITS n + 1)"
  using NBITS_top [OF assms] by (simp add: top_bit_def)

theorem NBITS_highest_bit_witness: "2 ^ NBITS 300 \<le> (300 :: nat) \<and> (300 :: nat) < 2 ^ (NBITS 300 + 1)"
  using NBITS_highest_bit [of 300] by simp

end
