(* ===== verification/Memphy.thy ===== *)
theory Memphy
  imports Console Pte
begin

text \<open>
  Physical memory devices, \<open>src/mm-memphy.c\<close> and \<open>struct memphy_struct\<close> of \<open>include/os-mm.h\<close>.
  A pointer to a device is an option (\<open>None\<close> is NULL); a function returns its C code, the value
  stored through an out parameter (\<open>None\<close> when nothing was stored) and the device. The node of
  the frame list is its frame number: the \<open>owner\<close> field is written once and read nowhere.
\<close>

section \<open>The device and its operations\<close>

record memphy_struct =
  storage :: "BYTE carray"
  maxsz :: int
  rdmflg :: int
  cursor :: int
  free_fp_list :: "int chain"

type_synonym memphy_ptr = "memphy_struct option"

function mv_csr_loop :: "int \<Rightarrow> int \<Rightarrow> int \<Rightarrow> int \<Rightarrow> int" where
  "mv_csr_loop numstep offset mx csr =
    (if numstep < offset \<and> numstep < mx
     then mv_csr_loop (numstep + 1) offset mx ((csr + 1) smod mx)
     else csr)"
  by pat_completeness auto
termination
  by (relation "measure (\<lambda>(numstep, offset, mx, csr). nat (mx - numstep))") auto

declare mv_csr_loop.simps [simp del]

definition MEMPHY_mv_csr :: "memphy_struct \<Rightarrow> int \<Rightarrow> int \<times> memphy_struct" where
  "MEMPHY_mv_csr mp offset = (0, mp\<lparr>cursor := mv_csr_loop 0 offset (maxsz mp) 0\<rparr>)"

definition MEMPHY_seq_read :: "memphy_ptr \<Rightarrow> int \<Rightarrow> (int \<times> BYTE option \<times> memphy_ptr) res" where
  "MEMPHY_seq_read mp addr = (case mp of
      None \<Rightarrow> Inr (-1, None, None)
    | Some m \<Rightarrow>
        if rdmflg m = 0 then Inr (-1, None, Some m)
        else
          (let m' = snd (MEMPHY_mv_csr m addr)
           in bindr (aget (storage m') addr) (\<lambda>v. Inr (0, Some v, Some m'))))"

definition MEMPHY_read :: "memphy_ptr \<Rightarrow> int \<Rightarrow> (int \<times> BYTE option \<times> memphy_ptr) res" where
  "MEMPHY_read mp addr = (case mp of
      None \<Rightarrow> Inr (-1, None, None)
    | Some m \<Rightarrow>
        if rdmflg m \<noteq> 0 then bindr (aget (storage m) addr) (\<lambda>v. Inr (0, Some v, Some m))
        else MEMPHY_seq_read (Some m) addr)"

definition MEMPHY_seq_write :: "memphy_ptr \<Rightarrow> int \<Rightarrow> BYTE \<Rightarrow> (int \<times> memphy_ptr) res" where
  "MEMPHY_seq_write mp addr val = (case mp of
      None \<Rightarrow> Inr (-1, None)
    | Some m \<Rightarrow>
        if rdmflg m = 0 then Inr (-1, Some m)
        else
          (let m' = snd (MEMPHY_mv_csr m addr)
           in bindr (aset (storage m') addr val) (\<lambda>st. Inr (0, Some (m'\<lparr>storage := st\<rparr>)))))"

definition MEMPHY_write :: "memphy_ptr \<Rightarrow> int \<Rightarrow> BYTE \<Rightarrow> (int \<times> memphy_ptr) res" where
  "MEMPHY_write mp addr data = (case mp of
      None \<Rightarrow> Inr (-1, None)
    | Some m \<Rightarrow>
        if rdmflg m \<noteq> 0
        then bindr (aset (storage m) addr data) (\<lambda>st. Inr (0, Some (m\<lparr>storage := st\<rparr>)))
        else MEMPHY_seq_write (Some m) addr data)"

text \<open>
  \<open>MEMPHY_format\<close> builds the list by appending. A node's link is NULL when the loop created the
  node and indeterminate for the first node, until the loop links a successor to it.
\<close>

function format_tail :: "int \<Rightarrow> int \<Rightarrow> int chain \<Rightarrow> int chain" where
  "format_tail iter numfp last_link =
    (if iter < numfp then Node iter (format_tail (iter + 1) numfp Null) else last_link)"
  by pat_completeness auto
termination
  by (relation "measure (\<lambda>(iter, numfp, last_link). nat (numfp - iter))") auto

declare format_tail.simps [simp del]

definition MEMPHY_format :: "memphy_struct \<Rightarrow> int \<Rightarrow> (int \<times> memphy_struct) res" where
  "MEMPHY_format mp pagesz =
    (if pagesz = 0 then Inl DivByZero
     else
       (let numfp = maxsz mp sdiv pagesz
        in if numfp \<le> 0 then Inr (-1, mp)
           else Inr (0, mp\<lparr>free_fp_list := Node 0 (format_tail 1 numfp Wild)\<rparr>)))"

definition MEMPHY_get_freefp :: "memphy_ptr \<Rightarrow> (int \<times> int option \<times> memphy_ptr) res" where
  "MEMPHY_get_freefp mp = (case mp of
      None \<Rightarrow> Inl NullDeref
    | Some m \<Rightarrow>
       (case free_fp_list m of
          Null \<Rightarrow> Inr (-1, None, Some m)
        | Wild \<Rightarrow> Inl WildDeref
        | Node fpn fp_next \<Rightarrow> Inr (0, Some fpn, Some (m\<lparr>free_fp_list := fp_next\<rparr>))))"

definition MEMPHY_put_freefp :: "memphy_ptr \<Rightarrow> int \<Rightarrow> (int \<times> memphy_ptr) res" where
  "MEMPHY_put_freefp mp fpn = (case mp of
      None \<Rightarrow> Inl NullDeref
    | Some m \<Rightarrow> Inr (0, Some (m\<lparr>free_fp_list := Node fpn (free_fp_list m)\<rparr>)))"

definition MEMPHY_dump :: "memphy_ptr \<Rightarrow> log \<Rightarrow> (int \<times> log) res" where
  "MEMPHY_dump mp out = (case mp of
      None \<Rightarrow> Inl NullDeref
    | Some m \<Rightarrow>
        bindr (for_loop 0 (maxsz m)
                (\<lambda>i out. bindr (aget (storage m) i)
                  (\<lambda>v. Inr (if v \<noteq> 0 then out @ [Line F_memcell [AI i, AI (int_of_byte v)]]
                            else out)))
                out)
          (\<lambda>out. Inr (0, out)))"

text \<open>
  \<open>init_memphy\<close> runs on a structure \<open>main\<close> leaves uninitialised on its stack: \<open>mp\<close> is what it
  holds before the call, and \<open>cells\<close> what \<open>malloc\<close> returned for the storage. The code of
  \<open>MEMPHY_format\<close> is ignored, as in the source.
\<close>

definition init_memphy ::
    "memphy_struct \<Rightarrow> (nat \<Rightarrow> BYTE) \<Rightarrow> int \<Rightarrow> int \<Rightarrow> (int \<times> memphy_struct) res" where
  "init_memphy mp cells max_size randomflg =
    (let m = mp\<lparr>storage := CArray (nat max_size) cells, maxsz := max_size\<rparr>
     in bindr (MEMPHY_format m PAGING_PAGESZ)
          (\<lambda>(_, m).
             let m = m\<lparr>rdmflg := (if randomflg \<noteq> 0 then 1 else 0)\<rparr>
             in Inr (0, if rdmflg m = 0 then m\<lparr>cursor := 0\<rparr> else m)))"

section \<open>Behaviour of the single operations\<close>

text \<open>A device as \<open>main\<close> creates it: random access, with as many cells as its size says.\<close>

definition dev_ok :: "memphy_ptr \<Rightarrow> bool" where
  "dev_ok mp = (case mp of None \<Rightarrow> False
    | Some m \<Rightarrow> rdmflg m \<noteq> 0 \<and> 0 \<le> maxsz m \<and> int (alen (storage m)) = maxsz m)"

definition phy_addrs :: "memphy_ptr \<Rightarrow> int set" where
  "phy_addrs mp = (case mp of None \<Rightarrow> {} | Some m \<Rightarrow> {a. 0 \<le> a \<and> a < maxsz m})"

definition frames :: "memphy_ptr \<Rightarrow> int list" where
  "frames mp = (case mp of None \<Rightarrow> [] | Some m \<Rightarrow> nodes (free_fp_list m))"

definition frames_ok :: "memphy_ptr \<Rightarrow> bool" where
  "frames_ok mp = (case mp of None \<Rightarrow> False | Some m \<Rightarrow> chain_ok (free_fp_list m))"

definition cells_of :: "memphy_ptr \<Rightarrow> (BYTE carray \<times> int \<times> int) option" where
  "cells_of mp = map_option (\<lambda>m. (storage m, maxsz m, rdmflg m)) mp"

lemma dev_okE:
  assumes "dev_ok mp"
  obtains m where "mp = Some m" "rdmflg m \<noteq> 0" "0 \<le> maxsz m" "int (alen (storage m)) = maxsz m"
  using assms by (cases mp) (auto simp: dev_ok_def)

lemma dev_ok_cells: "cells_of mp = cells_of mp' \<Longrightarrow> dev_ok mp = dev_ok mp'"
  by (cases mp; cases mp') (auto simp: cells_of_def dev_ok_def)

lemma phy_addrs_cells: "cells_of mp = cells_of mp' \<Longrightarrow> phy_addrs mp = phy_addrs mp'"
  by (cases mp; cases mp') (auto simp: cells_of_def phy_addrs_def)

lemma MEMPHY_read_same: "MEMPHY_read mp a = Inr (rc, v, mp') \<Longrightarrow> mp' = mp"
  by (auto simp: MEMPHY_read_def MEMPHY_seq_read_def bindr_eq_Inr_iff split: option.splits if_splits)

lemma MEMPHY_read_random:
  assumes "dev_ok mp"
  shows "MEMPHY_read mp a =
    (if a \<in> phy_addrs mp then Inr (0, Some (acell (storage (the mp)) (nat a)), mp)
     else Inl OutOfBounds)"
  using assms by (auto elim!: dev_okE simp: MEMPHY_read_def phy_addrs_def aget_def in_bounds_def)

lemma MEMPHY_write_random:
  assumes "mp = Some m" "dev_ok mp"
  shows "MEMPHY_write mp a v =
    (if a \<in> phy_addrs mp
     then Inr (0, Some (m\<lparr>storage := CArray (alen (storage m)) ((acell (storage m))(nat a := v))\<rparr>))
     else Inl OutOfBounds)"
  using assms by (auto elim!: dev_okE simp: MEMPHY_write_def phy_addrs_def aset_def in_bounds_def)

text \<open>The value a caller sees when it uses the out parameter without looking at the code.\<close>

definition phy_read :: "memphy_ptr \<Rightarrow> int \<Rightarrow> BYTE res" where
  "phy_read mp a = bindr (MEMPHY_read mp a)
    (\<lambda>(_, v, _). case v of None \<Rightarrow> Inl UninitRead | Some b \<Rightarrow> Inr b)"

definition phy_write :: "memphy_ptr \<Rightarrow> int \<Rightarrow> BYTE \<Rightarrow> memphy_ptr res" where
  "phy_write mp a v = bindr (MEMPHY_write mp a v) (\<lambda>(_, mp'). Inr mp')"

lemma phy_read_random:
  assumes "dev_ok mp"
  shows "phy_read mp a =
    (if a \<in> phy_addrs mp then Inr (acell (storage (the mp)) (nat a)) else Inl OutOfBounds)"
  using MEMPHY_read_random [OF assms, of a] by (simp add: phy_read_def)

lemma phy_read_cells: "cells_of mp = cells_of mp' \<Longrightarrow> phy_read mp a = phy_read mp' a"
  by (cases mp; cases mp')
    (auto simp: cells_of_def phy_read_def MEMPHY_read_def MEMPHY_seq_read_def MEMPHY_mv_csr_def
      bindr_assoc split: prod.splits intro!: bindr_cong)

section \<open>The interface of a byte store\<close>

text \<open>
  What the memory library relies on: a read after a write sees the last value written to that
  address and writes elsewhere do not disturb it.
\<close>

locale byte_store =
  fixes rd :: "'s \<Rightarrow> int \<Rightarrow> BYTE res"
    and wr :: "'s \<Rightarrow> int \<Rightarrow> BYTE \<Rightarrow> 's res"
    and addrs :: "'s \<Rightarrow> int set"
    and invar :: "'s \<Rightarrow> bool"
  assumes rd_ok: "invar s \<Longrightarrow> a \<in> addrs s \<Longrightarrow> \<exists>v. rd s a = Inr v"
    and wr_ok: "invar s \<Longrightarrow> a \<in> addrs s \<Longrightarrow>
      \<exists>s'. wr s a v = Inr s' \<and> invar s' \<and> addrs s' = addrs s \<and>
        (\<forall>b \<in> addrs s. rd s' b = (if b = a then Inr v else rd s b))"
begin

lemma read_after_write:
  assumes "invar s" "a \<in> addrs s" "wr s a v = Inr s'"
  shows "rd s' a = Inr v"
  using wr_ok [OF assms(1,2), of v] assms(2,3) by auto

lemma read_elsewhere:
  assumes "invar s" "a \<in> addrs s" "wr s a v = Inr s'" "b \<in> addrs s" "b \<noteq> a"
  shows "rd s' b = rd s b"
  using wr_ok [OF assms(1,2), of v] assms(3-5) by auto

end

text \<open>
  Copying cell by cell from one store to another: \<open>fr\<close> and \<open>to\<close> give the addresses of the
  i-th cell, and the targets are distinct.
\<close>

locale store_copy =
  src: byte_store rds wrs addrss invars + dst: byte_store rdd wrd addrsd invard
  for rds wrs addrss invars rdd wrd addrsd invard
begin

lemma copy_cells:
  assumes inv: "invars s" "invard d" and n: "0 \<le> n"
    and fr_in: "\<And>i. 0 \<le> i \<Longrightarrow> i < n \<Longrightarrow> fr i \<in> addrss s"
    and to_in: "\<And>i. 0 \<le> i \<Longrightarrow> i < n \<Longrightarrow> to i \<in> addrsd d"
    and inj: "inj_on to {0..<n}"
  shows "\<exists>d'. for_loop 0 n (\<lambda>i d. bindr (rds s (fr i)) (wrd d (to i))) d = Inr d' \<and>
    invard d' \<and> addrsd d' = addrsd d \<and>
    (\<forall>i. 0 \<le> i \<and> i < n \<longrightarrow> rdd d' (to i) = rds s (fr i)) \<and>
    (\<forall>b \<in> addrsd d. b \<notin> to ` {0..<n} \<longrightarrow> rdd d' b = rdd d b)"
proof -
  let ?P = "\<lambda>k d'. invard d' \<and> addrsd d' = addrsd d \<and>
    (\<forall>i. 0 \<le> i \<and> i < k \<longrightarrow> rdd d' (to i) = rds s (fr i)) \<and>
    (\<forall>b \<in> addrsd d. b \<notin> to ` {0..<k} \<longrightarrow> rdd d' b = rdd d b)"
  show ?thesis
  proof (rule for_loop_rule [where P = ?P, OF _ n])
    show "?P 0 d" using inv by auto
  next
    fix i e
    assume i: "0 \<le> i" "i < n" and P: "?P i e"
    obtain v where v: "rds s (fr i) = Inr v" using src.rd_ok inv fr_in i by blast
    have "to i \<in> addrsd e" using to_in i P by simp
    then obtain e' where e': "wrd e (to i) v = Inr e'" "invard e'" "addrsd e' = addrsd e"
      "\<forall>b \<in> addrsd e. rdd e' b = (if b = to i then Inr v else rdd e b)"
      using dst.wr_ok P by blast
    have old: "to j \<noteq> to i" if "0 \<le> j" "j < i" for j
      using inj_onD [OF inj, of j i] that i by auto
    have "rdd e' (to j) = rds s (fr j)" if "0 \<le> j" "j < i + 1" for j
      using e'(4) P v old [of j] that to_in [of j] i by (cases "j = i") auto
    moreover have "rdd e' b = rdd d b" if b: "b \<in> addrsd d" "b \<notin> to ` {0..<i + 1}" for b
    proof -
      have "b \<notin> to ` {0..<i}" "b \<noteq> to i" using b(2) i(1) by force+
      then show ?thesis using e'(4) P b(1) by simp
    qed
    ultimately show "\<exists>e'. bindr (rds s (fr i)) (wrd e (to i)) = Inr e' \<and> ?P (i + 1) e'"
      using v e' P by auto
  qed
qed

end

lemma phy_write_random:
  assumes "dev_ok mp" "a \<in> phy_addrs mp"
  shows "\<exists>mp'. phy_write mp a v = Inr mp' \<and> dev_ok mp' \<and> phy_addrs mp' = phy_addrs mp \<and>
    (\<forall>b. phy_read mp' b = (if b = a then Inr v else phy_read mp b))"
proof -
  obtain m where m: "mp = Some m" "rdmflg m \<noteq> 0" "0 \<le> maxsz m" "int (alen (storage m)) = maxsz m"
    using assms(1) by (rule dev_okE)
  let ?st = "CArray (alen (storage m)) ((acell (storage m))(nat a := v))"
  let ?mp = "Some (m\<lparr>storage := ?st\<rparr>)"
  have ok: "dev_ok ?mp" and addrs: "phy_addrs ?mp = phy_addrs mp"
    using m by (simp_all add: dev_ok_def phy_addrs_def)
  moreover have "phy_write mp a v = Inr ?mp"
    using MEMPHY_write_random [OF m(1) assms(1), of a v] assms(2) by (simp add: phy_write_def)
  moreover have "phy_read ?mp b = (if b = a then Inr v else phy_read mp b)" for b
    unfolding phy_read_random [OF ok] phy_read_random [OF assms(1)] addrs
    using assms(2) m(1) by (auto simp: phy_addrs_def)
  ultimately show ?thesis by blast
qed

interpretation phy: byte_store phy_read phy_write phy_addrs dev_ok
proof unfold_locales
  show "\<exists>v. phy_read s a = Inr v" if "dev_ok s" "a \<in> phy_addrs s" for s a
    using that by (simp add: phy_read_random)
next
  show "\<exists>s'. phy_write s a v = Inr s' \<and> dev_ok s' \<and> phy_addrs s' = phy_addrs s \<and>
      (\<forall>b \<in> phy_addrs s. phy_read s' b = (if b = a then Inr v else phy_read s b))"
    if "dev_ok s" "a \<in> phy_addrs s" for s a v
    using phy_write_random [OF that, of v] by blast
qed

interpretation phy_copy: store_copy phy_read phy_write phy_addrs dev_ok
    phy_read phy_write phy_addrs dev_ok
  by unfold_locales

section \<open>The interface of a frame pool\<close>

text \<open>
  The free frames of a device: \<open>get\<close> fails exactly on an empty pool and otherwise hands out the
  first frame, \<open>put\<close> adds one; neither touches what \<open>rest\<close> observes.
\<close>

locale frame_pool =
  fixes get :: "'p \<Rightarrow> (int \<times> int option \<times> 'p) res"
    and put :: "'p \<Rightarrow> int \<Rightarrow> (int \<times> 'p) res"
    and pool :: "'p \<Rightarrow> int list"
    and invar :: "'p \<Rightarrow> bool"
    and rest :: "'p \<Rightarrow> 'r"
  assumes get_empty: "invar p \<Longrightarrow> pool p = [] \<Longrightarrow> get p = Inr (-1, None, p)"
    and get_first: "invar p \<Longrightarrow> pool p = x # xs \<Longrightarrow>
      \<exists>p'. get p = Inr (0, Some x, p') \<and> invar p' \<and> pool p' = xs \<and> rest p' = rest p"
    and put_first: "invar p \<Longrightarrow>
      \<exists>p'. put p x = Inr (0, p') \<and> invar p' \<and> pool p' = x # pool p \<and> rest p' = rest p"
begin

lemma get_total:
  assumes "invar p"
  obtains rc v p' where "get p = Inr (rc, v, p')" "invar p'" "rest p' = rest p"
    "rc = 0 \<or> rc = -1" "rc = 0 \<longleftrightarrow> pool p \<noteq> []" "v = (if rc = 0 then Some (hd (pool p)) else None)"
    "pool p' = tl (pool p)"
proof (cases "pool p")
  case Nil
  show thesis
    using that [OF get_empty [OF assms Nil] assms] Nil by simp
next
  case (Cons x xs)
  obtain p' where p': "get p = Inr (0, Some x, p')" "invar p'" "pool p' = xs" "rest p' = rest p"
    using get_first [OF assms Cons] by blast
  show thesis
    using that [OF p'(1,2,4)] p'(3) Cons by simp
qed

lemma get_put:
  assumes "invar p" "put p x = Inr (rc, p')"
  shows "\<exists>p''. get p' = Inr (0, Some x, p'') \<and> pool p'' = pool p \<and> rest p'' = rest p"
  using put_first [OF assms(1), of x] get_first [of p' x "pool p"] assms(2) by auto

lemma get_fresh:
  assumes "invar p" "distinct (pool p)" "get p = Inr (0, Some x, p')"
  shows "x \<in> set (pool p) \<and> x \<notin> set (pool p') \<and> distinct (pool p')"
proof (cases "pool p")
  case Nil
  with get_empty [OF assms(1)] assms(3) show ?thesis by simp
next
  case (Cons y ys)
  with get_first [OF assms(1) Cons] assms(2,3) show ?thesis by auto
qed

text \<open>Taking \<open>n\<close> frames, each put in front of an accumulator, stops at the first failure.\<close>

fun take_frames :: "nat \<Rightarrow> int list \<Rightarrow> 'p \<Rightarrow> (bool \<times> int list \<times> 'p) res" where
  "take_frames 0 acc p = Inr (True, acc, p)"
| "take_frames (Suc n) acc p =
     bindr (get p) (\<lambda>(rc, v, p').
       if rc = 0 then (case v of Some x \<Rightarrow> take_frames n (x # acc) p' | None \<Rightarrow> Inl UninitRead)
       else Inr (False, acc, p'))"

lemma take_frames_spec:
  assumes "invar p"
  shows "\<exists>p'. take_frames n acc p =
      Inr (n \<le> length (pool p), rev (take n (pool p)) @ acc, p') \<and>
    invar p' \<and> pool p' = drop n (pool p) \<and> rest p' = rest p"
  using assms
proof (induction n arbitrary: acc p)
  case 0
  then show ?case by simp
next
  case (Suc n)
  show ?case
  proof (cases "pool p")
    case Nil
    with get_empty [OF Suc.prems] Suc.prems show ?thesis by simp
  next
    case (Cons x xs)
    obtain p1 where p1: "get p = Inr (0, Some x, p1)" "invar p1" "pool p1 = xs" "rest p1 = rest p"
      using get_first [OF Suc.prems Cons] by blast
    with Suc.IH [OF p1(2), of "x # acc"] Cons show ?thesis by auto
  qed
qed

end

interpretation memphy_pool: frame_pool MEMPHY_get_freefp MEMPHY_put_freefp frames frames_ok cells_of
proof unfold_locales
  fix p x xs
  assume p: "frames_ok p"
  { assume "frames p = []"
    with p show "MEMPHY_get_freefp p = Inr (-1, None, p)"
      by (cases p) (auto simp: frames_def frames_ok_def MEMPHY_get_freefp_def split: chain.splits) }
  { assume "frames p = x # xs"
    with p show "\<exists>p'. MEMPHY_get_freefp p = Inr (0, Some x, p') \<and> frames_ok p' \<and>
        frames p' = xs \<and> cells_of p' = cells_of p"
      by (cases p) (auto simp: frames_def frames_ok_def MEMPHY_get_freefp_def cells_of_def
          split: chain.splits) }
  show "\<exists>p'. MEMPHY_put_freefp p x = Inr (0, p') \<and> frames_ok p' \<and>
      frames p' = x # frames p \<and> cells_of p' = cells_of p"
    using p by (cases p) (auto simp: frames_def frames_ok_def MEMPHY_put_freefp_def cells_of_def)
qed

section \<open>Formatting\<close>

lemma format_tail_chain:
  "iter \<le> numfp \<Longrightarrow> format_tail iter numfp Null = chain_of [iter..numfp - 1]"
proof (induction iter numfp "Null :: int chain" rule: format_tail.induct)
  case (1 iter numfp)
  show ?case
  proof (cases "iter < numfp")
    case True
    then have "format_tail (iter + 1) numfp Null = chain_of [iter + 1..numfp - 1]"
      using "1.hyps" by simp
    with True show ?thesis
      by (subst format_tail.simps) (simp add: upto_rec1)
  next
    case False
    then show ?thesis by (subst format_tail.simps) simp
  qed
qed

lemma format_list:
  assumes "2 \<le> numfp"
  shows "Node 0 (format_tail 1 numfp Wild) = chain_of [0..numfp - 1]"
proof -
  have "format_tail 1 numfp Wild = Node 1 (format_tail 2 numfp Null)"
    using assms by (subst format_tail.simps) simp
  also have "\<dots> = chain_of [1..numfp - 1]"
    using assms by (simp add: format_tail_chain upto_rec1 [of 1])
  finally show ?thesis using assms by (simp add: upto_rec1 [of 0])
qed

lemma mv_csr_loop_eq:
  assumes "0 < mx" "0 \<le> numstep" "0 \<le> csr" "csr < mx"
  shows "mv_csr_loop numstep offset mx csr = (csr + max 0 (min offset mx - numstep)) mod mx"
  using assms
proof (induction numstep offset mx csr rule: mv_csr_loop.induct)
  case (1 numstep offset mx csr)
  show ?case
  proof (cases "numstep < offset \<and> numstep < mx")
    case True
    have rem: "(csr + 1) smod mx = (csr + 1) mod mx"
      using "1.prems" by (intro smod_mod_positive) simp_all
    have "mv_csr_loop (numstep + 1) offset mx ((csr + 1) smod mx) =
        ((csr + 1) mod mx + max 0 (min offset mx - (numstep + 1))) mod mx"
      unfolding rem using True "1.prems" by (intro "1.IH" [unfolded rem]) simp_all
    also have "\<dots> = (csr + 1 + max 0 (min offset mx - (numstep + 1))) mod mx"
      by (rule mod_add_left_eq)
    also have "csr + 1 + max 0 (min offset mx - (numstep + 1)) =
        csr + max 0 (min offset mx - numstep)"
      using True by simp
    finally show ?thesis using True by (subst mv_csr_loop.simps) simp
  next
    case False
    with "1.prems" show ?thesis by (subst mv_csr_loop.simps) auto
  qed
qed

section \<open>Properties\<close>

text \<open>
  C30: On a random access device a byte written at an address of the device reads back, and
  every other address still reads as before; the device keeps its size.
\<close>

theorem memphy_read_over_write:
  assumes "dev_ok mp" and "a \<in> phy_addrs mp"
  shows "\<exists>mp'. MEMPHY_write mp a v = Inr (0, mp') \<and> phy_addrs mp' = phy_addrs mp \<and>
    (\<forall>b \<in> phy_addrs mp. MEMPHY_read mp' b =
       (if b = a then Inr (0, Some v, mp')
        else bindr (MEMPHY_read mp b) (\<lambda>(rc, w, _). Inr (rc, w, mp'))))"
proof -
  obtain m where m: "mp = Some m" using assms(1) by (rule dev_okE)
  obtain mp' where w: "MEMPHY_write mp a v = Inr (0, mp')" and ph: "phy_write mp a v = Inr mp'"
    using MEMPHY_write_random [OF m assms(1), of a v] assms(2) by (simp add: phy_write_def)
  have ok: "dev_ok mp'" and addrs: "phy_addrs mp' = phy_addrs mp"
    using phy.wr_ok [OF assms, of v] ph by auto
  have "MEMPHY_read mp' b = (if b = a then Inr (0, Some v, mp')
        else bindr (MEMPHY_read mp b) (\<lambda>(rc, w, _). Inr (rc, w, mp')))"
    if b: "b \<in> phy_addrs mp" for b
    using phy.read_after_write [OF assms ph] phy.read_elsewhere [OF assms ph, of b] b
    by (simp add: MEMPHY_read_random [OF ok] MEMPHY_read_random [OF assms(1)]
        phy_read_random [OF ok] phy_read_random [OF assms(1)] addrs assms(2))
  with w addrs show ?thesis by blast
qed

definition dev4 :: memphy_struct where
  "dev4 = \<lparr>storage = CArray 4 (\<lambda>_. 0), maxsz = 4, rdmflg = 1, cursor = 0, free_fp_list = Null\<rparr>"

theorem memphy_read_over_write_witness:
  "dev_ok (Some dev4) \<and> (2 :: int) \<in> phy_addrs (Some dev4) \<and>
   (\<exists>mp'. MEMPHY_write (Some dev4) 2 7 = Inr (0, mp'))"
proof -
  have h: "dev_ok (Some dev4)" "2 \<in> phy_addrs (Some dev4)"
    by (simp_all add: dev_ok_def dev4_def phy_addrs_def)
  with memphy_read_over_write [OF h, of 7] show ?thesis by blast
qed

text \<open>
  A sequential device can never be accessed. \<open>MEMPHY_read\<close> and \<open>MEMPHY_write\<close> hand such a
  device to the sequential routines, and these refuse it: their guard is the negation of what
  its comment says. Every access returns -1, stores nothing and changes nothing.
\<close>

theorem memphy_sequential_refused:
  assumes "rdmflg m = 0"
  shows "MEMPHY_read (Some m) a = Inr (-1, None, Some m) \<and>
    MEMPHY_write (Some m) a v = Inr (-1, Some m)"
  using assms
  by (simp add: MEMPHY_read_def MEMPHY_write_def MEMPHY_seq_read_def MEMPHY_seq_write_def)

theorem memphy_sequential_refused_witness:
  "MEMPHY_read (Some (dev4\<lparr>rdmflg := 0\<rparr>)) 1 = Inr (-1, None, Some (dev4\<lparr>rdmflg := 0\<rparr>))"
  using memphy_sequential_refused [of "dev4\<lparr>rdmflg := 0\<rparr>" 1] by simp

lemma init_memphy_pages:
  assumes "512 \<le> max_size" and "randomflg \<noteq> 0"
  shows "\<exists>m. init_memphy mp cells max_size randomflg = Inr (0, m) \<and> dev_ok (Some m) \<and>
    maxsz m = max_size \<and> free_fp_list m = chain_of [0..max_size div 256 - 1] \<and>
    (\<forall>f \<in> set (frames (Some m)). 0 \<le> f \<and> (f + 1) * 256 \<le> max_size)"
proof -
  let ?n = "max_size sdiv 256"
  have n: "?n = max_size div 256" "2 \<le> max_size div 256"
    using assms(1) by (simp_all add: signed_divide_int_eq_divide_int)
  have "(f + 1) * 256 \<le> max_size" if "f \<in> set [0..max_size div 256 - 1]" for f
  proof -
    from that have "f < max_size div 256" by simp
    then show ?thesis by simp
  qed
  then show ?thesis
    using assms n
    by (simp add: init_memphy_def MEMPHY_format_def PAGING_PAGESZ_def Let_def format_list
        dev_ok_def frames_def)
qed

lemma init_memphy_total: "\<exists>m. init_memphy mp cells max_size randomflg = Inr (0, m)"
  by (simp add: init_memphy_def MEMPHY_format_def PAGING_PAGESZ_def Let_def)

text \<open>
  Initialising a device of at least two pages makes a random access device of that size
  whose free list is exactly the frames \<open>0 .. max_size / 256 - 1\<close> in order, each of them lying
  inside the storage.
\<close>

theorem init_memphy_frames:
  assumes "512 \<le> max_size" and "randomflg \<noteq> 0"
  shows "\<exists>m. init_memphy mp cells max_size randomflg = Inr (0, m) \<and> dev_ok (Some m) \<and>
    maxsz m = max_size \<and> free_fp_list m = chain_of [0..max_size div 256 - 1] \<and>
    (\<forall>f \<in> set (frames (Some m)). 0 \<le> f \<and> (f + 1) * 256 \<le> max_size)"
  by (rule init_memphy_pages [OF assms])

theorem init_memphy_frames_witness:
  "\<exists>m. init_memphy dev4 (\<lambda>_. 0) 1000 1 = Inr (0, m) \<and> free_fp_list m = chain_of [0, 1, 2]"
proof -
  have "[0..1000 div 256 - 1] = [0, 1, 2 :: int]" by (simp add: upto_rec1)
  with init_memphy_frames [of 1000 1 dev4 "\<lambda>_. 0"] show ?thesis by (simp del: chain_of.simps) blast
qed

text \<open>
  A device of one page is left with a broken free list: the link of its only frame is never
  written, so after handing out that frame the next request follows an indeterminate pointer.
\<close>

theorem init_memphy_single_frame:
  assumes "256 \<le> max_size" and "max_size < 512"
  shows "\<exists>m. init_memphy mp cells max_size randomflg = Inr (0, m) \<and>
    (\<exists>mp'. MEMPHY_get_freefp (Some m) = Inr (0, Some 0, mp') \<and>
       MEMPHY_get_freefp mp' = Inl WildDeref)"
proof -
  have n: "max_size sdiv 256 = 1"
    using assms by (simp add: signed_divide_int_eq_divide_int)
  have "format_tail 1 1 Wild = Wild" by (subst format_tail.simps) simp
  with n show ?thesis
    by (simp add: init_memphy_def MEMPHY_format_def PAGING_PAGESZ_def Let_def
        MEMPHY_get_freefp_def)
qed

theorem init_memphy_single_frame_witness:
  "\<exists>m. init_memphy dev4 (\<lambda>_. 0) 300 1 = Inr (0, m)"
  using init_memphy_single_frame [of 300 dev4 "\<lambda>_. 0" 1] by auto

text \<open>
  The frame pool is a stack: a frame that was put back is the next one handed out, the other
  frames and the storage are as before.
\<close>

theorem memphy_put_get_roundtrip:
  assumes "frames_ok mp" and "MEMPHY_put_freefp mp fpn = Inr (rc, mp')"
  shows "rc = 0 \<and> (\<exists>mp''. MEMPHY_get_freefp mp' = Inr (0, Some fpn, mp'') \<and>
    frames mp'' = frames mp \<and> cells_of mp'' = cells_of mp)"
  using memphy_pool.put_first [OF assms(1), of fpn] memphy_pool.get_put [OF assms] assms(2)
  by auto

theorem memphy_put_get_roundtrip_witness:
  "\<exists>mp'. MEMPHY_put_freefp (Some dev4) 9 = Inr (0, mp') \<and>
    (\<exists>mp''. MEMPHY_get_freefp mp' = Inr (0, Some 9, mp''))"
proof -
  let ?mp = "Some (dev4\<lparr>free_fp_list := Node 9 Null\<rparr>)"
  have h: "frames_ok (Some dev4)" "MEMPHY_put_freefp (Some dev4) 9 = Inr (0, ?mp)"
    by (simp_all add: frames_ok_def dev4_def MEMPHY_put_freefp_def)
  show ?thesis using memphy_put_get_roundtrip [OF h] h(2) by blast
qed

text \<open>
  The cursor of a sequential device ends at the smaller of the offset and the device size,
  modulo the size: the loop of \<open>MEMPHY_mv_csr\<close> stops for every offset.
\<close>

theorem mv_csr_position:
  assumes "0 < maxsz m" and "0 \<le> offset"
  shows "MEMPHY_mv_csr m offset = (0, m\<lparr>cursor := min offset (maxsz m) mod maxsz m\<rparr>)"
  using mv_csr_loop_eq [of "maxsz m" 0 0 offset] assms by (simp add: MEMPHY_mv_csr_def)

theorem mv_csr_position_witness: "cursor (snd (MEMPHY_mv_csr dev4 3)) = 3"
  using mv_csr_position [of dev4 3] by (simp add: dev4_def)

end
