(* ===== verification/Fifo.thy ===== *)
theory Fifo
  imports Prelude
begin

text \<open>
  The contract of a first-in first-out queue, as the memory manager (page replacement) and the
  scheduler (ready queues of one priority) rely on it. \<open>items\<close> is the content in the order in
  which it leaves, \<open>room\<close> says that one more element fits, \<open>elem_ok\<close> which elements the queue
  accepts.
\<close>

locale fifo_queue =
  fixes enq :: "'a \<Rightarrow> 'q \<Rightarrow> 'q"
    and deq :: "'q \<Rightarrow> ('a option \<times> 'q) res"
    and items :: "'q \<Rightarrow> 'a list"
    and invar :: "'q \<Rightarrow> bool"
    and room :: "'q \<Rightarrow> bool"
    and elem_ok :: "'a \<Rightarrow> bool"
  assumes enq_back: "invar q \<Longrightarrow> room q \<Longrightarrow> elem_ok x \<Longrightarrow>
      invar (enq x q) \<and> items (enq x q) = items q @ [x]"
    and deq_empty: "invar q \<Longrightarrow> items q = [] \<Longrightarrow> deq q = Inr (None, q)"
    and deq_front: "invar q \<Longrightarrow> items q = x # xs \<Longrightarrow>
      \<exists>q'. deq q = Inr (Some x, q') \<and> invar q' \<and> items q' = xs"
begin

lemma deq_total:
  assumes "invar q"
  shows "\<exists>q'. deq q = Inr ((if items q = [] then None else Some (hd (items q))), q') \<and>
    invar q' \<and> items q' = tl (items q)"
proof (cases "items q")
  case Nil
  with deq_empty [OF assms] assms show ?thesis by simp
next
  case (Cons x xs)
  with deq_front [OF assms Cons] show ?thesis by auto
qed

text \<open>Draining a queue yields its content in order.\<close>

fun drain :: "nat \<Rightarrow> 'q \<Rightarrow> ('a list \<times> 'q) res" where
  "drain 0 q = Inr ([], q)"
| "drain (Suc n) q = bindr (deq q) (\<lambda>(x, q').
     case x of None \<Rightarrow> Inr ([], q')
     | Some y \<Rightarrow> bindr (drain n q') (\<lambda>(ys, q''). Inr (y # ys, q'')))"

lemma drain_items:
  assumes "invar q"
  shows "\<exists>q'. drain n q = Inr (take n (items q), q') \<and> invar q' \<and> items q' = drop n (items q)"
  using assms
proof (induction n arbitrary: q)
  case 0
  then show ?case by simp
next
  case (Suc n)
  show ?case
  proof (cases "items q")
    case Nil
    with deq_empty [OF Suc.prems] Suc.prems show ?thesis by simp
  next
    case (Cons x xs)
    obtain q' where q': "deq q = Inr (Some x, q')" "invar q'" "items q' = xs"
      using deq_front [OF Suc.prems Cons] by blast
    with Suc.IH [OF q'(2)] Cons show ?thesis by auto
  qed
qed

text \<open>
  No overtaking: an element added to a queue of \<open>n\<close> elements is the one the \<open>n+1\<close>-st removal
  returns.
\<close>

lemma enq_leaves_last:
  assumes "invar q" "room q" "elem_ok x"
  shows "\<exists>q' q''. drain (length (items q)) (enq x q) = Inr (items q, q') \<and>
    deq q' = Inr (Some x, q'') \<and> items q'' = []"
proof -
  have e: "invar (enq x q)" "items (enq x q) = items q @ [x]"
    using enq_back [OF assms] by simp_all
  obtain q' where q': "drain (length (items q)) (enq x q) = Inr (items q, q')"
    "invar q'" "items q' = [x]"
    using drain_items [OF e(1), of "length (items q)"] e(2) by auto
  with deq_front [OF q'(2,3)] show ?thesis by auto
qed

end

end
