(* ===== verification/Vmspace.thy ===== *)
theory Vmspace
  imports Memphy Fifo
begin

text \<open>
  Virtual memory of a process: the structures of \<open>include/os-mm.h\<close> and the operations of
  \<open>src/mm.c\<close> and \<open>src/mm-vm.c\<close> (mapping page ranges, taking frames, copying pages to swap,
  growing an area, walking the area list), with \<open>find_victim_page\<close> of \<open>src/libmem.c\<close>.

  \<open>caller\<close> is what these functions reach through their \<open>struct pcb_t *caller\<close>: the process's
  memory descriptor, the two devices it points to, and standard output. A pointer to an area
  is its position in the \<open>mmap\<close> list (\<open>None\<close> is NULL). \<open>malloc\<close> never fails; what it leaves in
  a fresh block is an argument of the definition that reads it. The back pointers \<open>vm_mm\<close> and
  \<open>owner\<close> are written and never read, and have no field.
\<close>

section \<open>Structures\<close>

record vm_rg_struct =
  rg_start :: u64
  rg_end :: u64

record vm_area_struct =
  vm_id :: u64
  vm_start :: u64
  vm_end :: u64
  sbrk :: u64
  vm_freerg_list :: "vm_rg_struct chain"

record mm_struct =
  pgd :: "u32 carray"
  mmap :: "vm_area_struct chain"
  symrgtbl :: "vm_rg_struct carray"
  fifo_pgn :: "int chain"

record caller =
  pid :: u32
  mm :: mm_struct
  mram :: memphy_ptr
  active_mswp :: memphy_ptr
  stdout :: log

definition print_line :: "fmt \<Rightarrow> arg list \<Rightarrow> caller \<Rightarrow> caller" where
  "print_line f as c = c\<lparr>stdout := stdout c @ [Line f as]\<rparr>"

section \<open>Lists of regions and pages (src/mm.c)\<close>

definition init_vm_rg :: "int \<Rightarrow> int \<Rightarrow> vm_rg_struct" where
  "init_vm_rg s e = \<lparr>rg_start = u64_of_int s, rg_end = u64_of_int e\<rparr>"

definition enlist_vm_rg_node ::
    "vm_rg_struct chain \<Rightarrow> vm_rg_struct \<Rightarrow> int \<times> vm_rg_struct chain" where
  "enlist_vm_rg_node rglist rgnode = (0, Node rgnode rglist)"

definition enlist_pgn_node :: "int chain \<Rightarrow> int \<Rightarrow> int \<times> int chain" where
  "enlist_pgn_node plist pgn = (0, Node pgn plist)"

text \<open>
  \<open>init_mm\<close> fills a block from \<open>malloc\<close>. It leaves the page table, the symbol table and the
  page list as \<open>malloc\<close> gave them (\<open>raw_pgd\<close> and the fields of \<open>raw\<close>), and links the first free
  region in front of whatever pointer the fresh area block holds (\<open>raw_freerg\<close>).
\<close>

definition init_mm ::
    "mm_struct \<Rightarrow> (nat \<Rightarrow> u32) \<Rightarrow> vm_rg_struct chain \<Rightarrow> int \<times> mm_struct" where
  "init_mm raw raw_pgd raw_freerg =
    (let first_rg = init_vm_rg 0 0;
         vma0 = \<lparr>vm_id = 0, vm_start = 0, vm_end = 0, sbrk = 0,
                 vm_freerg_list = snd (enlist_vm_rg_node raw_freerg first_rg)\<rparr>
     in (0, raw\<lparr>pgd := CArray (unat PAGING_MAX_PGN) raw_pgd, mmap := Node vma0 Null\<rparr>))"

section \<open>Areas (src/mm-vm.c)\<close>

text \<open>
  The loop of \<open>get_vma_by_num\<close> tests for NULL before it advances and reads \<open>vm_id\<close> right after,
  so past the last area it dereferences NULL instead of returning it.
\<close>

fun vma_loop :: "vm_area_struct chain \<Rightarrow> nat \<Rightarrow> int \<Rightarrow> nat option res" where
  "vma_loop Null n vmaid = Inl NullDeref"
| "vma_loop Wild n vmaid = Inl WildDeref"
| "vma_loop (Node v vm_next) n vmaid =
     (if int_of_u64 (vm_id v) < vmaid then vma_loop vm_next (Suc n) vmaid else Inr (Some n))"

definition get_vma_by_num :: "mm_struct \<Rightarrow> int \<Rightarrow> nat option res" where
  "get_vma_by_num M vmaid = (case mmap M of Null \<Rightarrow> Inr None | _ \<Rightarrow> vma_loop (mmap M) 0 vmaid)"

definition vma_at :: "mm_struct \<Rightarrow> nat option \<Rightarrow> vm_area_struct res" where
  "vma_at M p = (case p of None \<Rightarrow> Inl NullDeref | Some n \<Rightarrow> chain_at (mmap M) n)"

definition vma_upd :: "mm_struct \<Rightarrow> nat option \<Rightarrow> (vm_area_struct \<Rightarrow> vm_area_struct) \<Rightarrow> mm_struct res" where
  "vma_upd M p f = (case p of None \<Rightarrow> Inl NullDeref
    | Some n \<Rightarrow> bindr (chain_upd (mmap M) n f) (\<lambda>c. Inr (M\<lparr>mmap := c\<rparr>)))"

definition get_vm_area_node_at_brk :: "caller \<Rightarrow> int \<Rightarrow> int \<Rightarrow> int \<Rightarrow> vm_rg_struct res" where
  "get_vm_area_node_at_brk c vmaid sz alignedsz =
    bindr (get_vma_by_num (mm c) vmaid) (\<lambda>p.
    bindr (vma_at (mm c) p) (\<lambda>cur_vma.
    Inr \<lparr>rg_start = sbrk cur_vma, rg_end = sbrk cur_vma + u64_of_int alignedsz\<rparr>))"

fun overlap_loop :: "vm_area_struct chain \<Rightarrow> int \<Rightarrow> int \<Rightarrow> int res" where
  "overlap_loop Null vmastart vmaend = Inr 0"
| "overlap_loop Wild vmastart vmaend = Inl WildDeref"
| "overlap_loop (Node v vm_next) vmastart vmaend =
     (if \<not> (u64_of_int vmastart \<ge> vm_end v \<or> u64_of_int vmaend \<le> vm_start v) then Inr (-1)
      else overlap_loop vm_next vmastart vmaend)"

definition validate_overlap_vm_area :: "caller \<Rightarrow> int \<Rightarrow> int \<Rightarrow> int \<Rightarrow> int res" where
  "validate_overlap_vm_area c vmaid vmastart vmaend = overlap_loop (mmap (mm c)) vmastart vmaend"

section \<open>Taking and mapping frames (src/mm.c)\<close>

text \<open>
  \<open>alloc_pages_range\<close>: when the device runs out of frames, the error branch replaces the list
  of frames taken so far by \<open>*frm_lst\<close> and then runs a loop that follows the pointer while it is
  NULL.
\<close>

definition alloc_fail :: "int chain \<Rightarrow> (int \<times> int chain) res" where
  "alloc_fail frm_lst = (case frm_lst of
      Null \<Rightarrow> Inl NullDeref
    | Wild \<Rightarrow> Inl UninitRead
    | Node _ _ \<Rightarrow> Inr (-1, Null))"

function alloc_loop ::
    "int \<Rightarrow> int \<Rightarrow> int chain \<Rightarrow> int chain \<Rightarrow> caller \<Rightarrow> (int \<times> int chain \<times> caller) res" where
  "alloc_loop pgit req_pgnum newfp_str frm_lst c =
    (if pgit < req_pgnum then
       bindr (MEMPHY_get_freefp (mram c)) (\<lambda>(rc, fpn, mp).
         let c = c\<lparr>mram := mp\<rparr> in
         if rc = 0 then
           (case fpn of
              None \<Rightarrow> Inl UninitRead
            | Some f \<Rightarrow> alloc_loop (pgit + 1) req_pgnum (Node f newfp_str) frm_lst c)
         else bindr (alloc_fail frm_lst) (\<lambda>(r, lst). Inr (r, lst, c)))
     else Inr (0, newfp_str, c))"
  by pat_completeness auto
termination
  by (relation "measure (\<lambda>(pgit, req_pgnum, _). nat (req_pgnum - pgit))") auto

declare alloc_loop.simps [simp del]

definition alloc_pages_range :: "caller \<Rightarrow> int \<Rightarrow> int chain \<Rightarrow> (int \<times> int chain \<times> caller) res" where
  "alloc_pages_range c req_pgnum frm_lst = alloc_loop 0 req_pgnum Null frm_lst c"

text \<open>The page-table update of one entry through its address \<open>&pgd[i]\<close>.\<close>

definition pgd_modify :: "mm_struct \<Rightarrow> int \<Rightarrow> (u32 \<Rightarrow> u32) \<Rightarrow> mm_struct res" where
  "pgd_modify M i f = bindr (aget (pgd M) i) (\<lambda>pte.
     bindr (aset (pgd M) i (f pte)) (\<lambda>a. Inr (M\<lparr>pgd := a\<rparr>)))"

fun vmap_loop :: "int chain \<Rightarrow> int \<Rightarrow> int \<Rightarrow> int \<Rightarrow> mm_struct \<Rightarrow> (int \<times> int \<times> mm_struct) res" where
  "vmap_loop Null pgit pgnum pgn M = Inr (if pgit < pgnum then -1 else 0, pgit, M)"
| "vmap_loop Wild pgit pgnum pgn M =
     (if pgit < pgnum then Inl WildDeref else Inr (0, pgit, M))"
| "vmap_loop (Node fpn fp_next) pgit pgnum pgn M =
     (if pgit < pgnum then
        bindr (pgd_modify M (pgn + pgit) (\<lambda>pte. snd (pte_set_fpn pte fpn))) (\<lambda>M.
        vmap_loop fp_next (pgit + 1) pgnum pgn
          (M\<lparr>fifo_pgn := snd (enlist_pgn_node (fifo_pgn M) (pgn + pgit))\<rparr>))
      else Inr (0, pgit, M))"

definition vmap_page_range ::
    "caller \<Rightarrow> int \<Rightarrow> int \<Rightarrow> int chain \<Rightarrow> (int \<times> vm_rg_struct \<times> caller) res" where
  "vmap_page_range c addr pgnum frms =
    (let pgn = int_of_u32 (PAGING_PGN (u32_of_int addr)) in
     bindr (vmap_loop frms 0 pgnum pgn (mm c)) (\<lambda>(ret_val, pgit, M).
       Inr (ret_val,
            \<lparr>rg_start = u64_of_int addr, rg_end = u64_of_int (i32 (addr + i32 (pgit * PAGING_PAGESZ)))\<rparr>,
            c\<lparr>mm := M\<rparr>)))"

definition vm_map_ram ::
    "caller \<Rightarrow> int \<Rightarrow> int \<Rightarrow> int \<Rightarrow> int \<Rightarrow> vm_rg_struct \<Rightarrow> (int \<times> vm_rg_struct \<times> caller) res" where
  "vm_map_ram c astart aend mapstart incpgnum ret_rg =
    bindr (alloc_pages_range c incpgnum Null) (\<lambda>(ret_alloc, frm_lst, c).
      if ret_alloc < 0 \<and> ret_alloc \<noteq> -3000 then Inr (-1, ret_rg, c)
      else if ret_alloc = -3000 then Inr (-1, ret_rg, c)
      else bindr (vmap_page_range c mapstart incpgnum frm_lst) (\<lambda>(_, rg, c). Inr (0, rg, c)))"

section \<open>Copying pages (src/mm.c, src/mm-vm.c)\<close>

definition swap_cp_page ::
    "memphy_ptr \<Rightarrow> int \<Rightarrow> memphy_ptr \<Rightarrow> int \<Rightarrow> (int \<times> memphy_ptr \<times> memphy_ptr) res" where
  "swap_cp_page mpsrc srcfpn mpdst dstfpn =
    bindr (for_loop 0 PAGING_PAGESZ
      (\<lambda>cellidx (mpsrc, mpdst).
         let addrsrc = i32 (i32 (srcfpn * PAGING_PAGESZ) + cellidx);
             addrdst = i32 (i32 (dstfpn * PAGING_PAGESZ) + cellidx)
         in bindr (MEMPHY_read mpsrc addrsrc) (\<lambda>(_, data, mpsrc).
            case data of
              None \<Rightarrow> Inl UninitRead
            | Some d \<Rightarrow> bindr (MEMPHY_write mpdst addrdst d) (\<lambda>(_, mpdst). Inr (mpsrc, mpdst))))
      (mpsrc, mpdst))
    (\<lambda>(mpsrc, mpdst). Inr (0, mpsrc, mpdst))"

definition mm_swap_page :: "caller \<Rightarrow> int \<Rightarrow> int \<Rightarrow> (int \<times> caller) res" where
  "mm_swap_page c vicfpn swpfpn =
    bindr (swap_cp_page (mram c) vicfpn (active_mswp c) swpfpn) (\<lambda>(_, ram, swp).
      Inr (0, c\<lparr>mram := ram, active_mswp := swp\<rparr>))"

section \<open>Growing an area (src/mm-vm.c)\<close>

definition inc_vma_limit :: "caller \<Rightarrow> int \<Rightarrow> int \<Rightarrow> (int \<times> caller) res" where
  "inc_vma_limit c vmaid inc_sz =
    (let inc_amt = PAGING_PAGE_ALIGNSZ inc_sz;
         incnumpage = inc_amt sdiv PAGING_PAGESZ
     in bindr (get_vm_area_node_at_brk c vmaid inc_sz inc_amt) (\<lambda>area.
        bindr (get_vma_by_num (mm c) vmaid) (\<lambda>p.
        bindr (vma_at (mm c) p) (\<lambda>cur_vma.
          let old_end = int_of_u64 (vm_end cur_vma) in
          bindr (validate_overlap_vm_area c vmaid (int_of_u64 (rg_start area))
                   (int_of_u64 (rg_end area))) (\<lambda>v.
          if v < 0 then Inr (-1, c)
          else
            bindr (vma_upd (mm c) p (\<lambda>v. v\<lparr>vm_end := rg_end area, sbrk := rg_end area\<rparr>)) (\<lambda>M.
            bindr (vm_map_ram (c\<lparr>mm := M\<rparr>) (int_of_u64 (rg_start area)) (int_of_u64 (rg_end area))
                     old_end incnumpage area) (\<lambda>(rc, _, c).
            if rc < 0 then Inr (-1, c) else Inr (0, c))))))))"

section \<open>The victim page (src/libmem.c)\<close>

fun unlink_last :: "int \<Rightarrow> int chain \<Rightarrow> (int \<times> int chain) res" where
  "unlink_last pg Null = Inr (pg, Null)"
| "unlink_last pg Wild = Inl WildDeref"
| "unlink_last pg (Node pg' pg_next) =
     bindr (unlink_last pg' pg_next) (\<lambda>(x, rest). Inr (x, Node pg rest))"

definition find_victim_page :: "mm_struct \<Rightarrow> (int \<times> int option \<times> mm_struct) res" where
  "find_victim_page M = (case fifo_pgn M of
      Null \<Rightarrow> Inr (-1, None, M)
    | Wild \<Rightarrow> Inl WildDeref
    | Node pg pg_next \<Rightarrow>
        bindr (unlink_last pg pg_next) (\<lambda>(x, c). Inr (0, Some x, M\<lparr>fifo_pgn := c\<rparr>)))"

section \<open>Printing the page table (src/mm.c)\<close>

definition print_pgtbl :: "caller \<Rightarrow> u32 \<Rightarrow> u32 \<Rightarrow> (int \<times> caller) res" where
  "print_pgtbl c s e =
    bindr (if e = u32_of_int (-1)
           then bindr (get_vma_by_num (mm c) 0) (\<lambda>p.
                bindr (vma_at (mm c) p) (\<lambda>cur_vma. Inr (u32_of_u64 (vm_end cur_vma))))
           else Inr e) (\<lambda>e.
    let pgn_start = int_of_u32 (PAGING_PGN s);
        pgn_end = int_of_u32 (PAGING_PGN e);
        c = print_line F_pgtbl_head [AU s, AU e] c
    in bindr (for_loop pgn_start pgn_end (\<lambda>pgit c.
         bindr (aget (pgd (mm c)) pgit) (\<lambda>pte.
           Inr (print_line F_pgtbl_pte [AL (u64_of_int (pgit * 4)), AU pte] c))) c) (\<lambda>c.
       bindr (for_loop pgn_start pgn_end (\<lambda>pgit c.
         bindr (aget (pgd (mm c)) pgit) (\<lambda>pte.
           Inr (print_line F_pgtbl_fpn [AI pgit, AI (int_of_u32 (PAGING_FPN pte))] c))) c) (\<lambda>c.
       Inr (0, c))))"

section \<open>The victim list is a first-in first-out queue\<close>

lemma unlink_last_chain:
  "unlink_last x (chain_of xs) = Inr (last (x # xs), chain_of (butlast (x # xs)))"
  by (induction xs arbitrary: x) auto

definition victim_queue_ok :: "mm_struct \<Rightarrow> bool" where
  "victim_queue_ok M \<longleftrightarrow> chain_ok (fifo_pgn M)"

definition victim_items :: "mm_struct \<Rightarrow> int list" where
  "victim_items M = rev (nodes (fifo_pgn M))"

definition enlist_victim :: "int \<Rightarrow> mm_struct \<Rightarrow> mm_struct" where
  "enlist_victim pgn M = M\<lparr>fifo_pgn := snd (enlist_pgn_node (fifo_pgn M) pgn)\<rparr>"

definition next_victim :: "mm_struct \<Rightarrow> (int option \<times> mm_struct) res" where
  "next_victim M = bindr (find_victim_page M) (\<lambda>(rc, pgn, M'). Inr (pgn, M'))"

lemma find_victim_page_chain:
  assumes "fifo_pgn M = chain_of xs"
  shows "find_victim_page M =
    (if xs = [] then Inr (-1, None, M)
     else Inr (0, Some (last xs), M\<lparr>fifo_pgn := chain_of (butlast xs)\<rparr>))"
  using assms by (cases xs) (auto simp: find_victim_page_def unlink_last_chain)

interpretation victims: fifo_queue enlist_victim next_victim victim_items victim_queue_ok
    "\<lambda>_. True" "\<lambda>_. True"
proof unfold_locales
  fix M x xs
  assume M: "victim_queue_ok M"
  then obtain ys where ys: "fifo_pgn M = chain_of ys" "nodes (fifo_pgn M) = ys"
    unfolding victim_queue_ok_def by (rule chain_okE)
  show "victim_queue_ok (enlist_victim x M) \<and> victim_items (enlist_victim x M) = victim_items M @ [x]"
    using M by (simp add: victim_queue_ok_def victim_items_def enlist_victim_def enlist_pgn_node_def)
  { assume "victim_items M = []"
    with ys show "next_victim M = Inr (None, M)"
      by (simp add: victim_items_def next_victim_def find_victim_page_chain [OF ys(1)]) }
  { assume "victim_items M = x # xs"
    then have "ys = rev xs @ [x]" using ys by (simp add: victim_items_def rev_swap)
    with ys show "\<exists>M'. next_victim M = Inr (Some x, M') \<and> victim_queue_ok M' \<and> victim_items M' = xs"
      by (simp add: next_victim_def find_victim_page_chain [OF ys(1)] victim_queue_ok_def
          victim_items_def) }
qed

section \<open>Taking frames\<close>

lemma alloc_loop_take_frames:
  "alloc_loop pgit req (chain_of acc) Null c =
    bindr (memphy_pool.take_frames (nat (req - pgit)) acc (mram c)) (\<lambda>(enough, lst, mp).
      if enough then Inr (0, chain_of lst, c\<lparr>mram := mp\<rparr>) else Inl NullDeref)"
proof (induction "nat (req - pgit)" arbitrary: pgit acc c)
  case 0
  then show ?case by (subst alloc_loop.simps) simp
next
  case (Suc n)
  then have lt: "pgit < req" and n: "n = nat (req - (pgit + 1))" by simp_all
  have next_iter: "alloc_loop (pgit + 1) req (Node f (chain_of acc)) Null d =
      bindr (memphy_pool.take_frames n (f # acc) (mram d)) (\<lambda>(enough, lst, mp).
        if enough then Inr (0, chain_of lst, d\<lparr>mram := mp\<rparr>) else Inl NullDeref)" for f d
    using Suc.hyps(1) [of "pgit + 1" "f # acc" d] n by simp
  show ?case
    unfolding Suc.hyps(2) [symmetric]
    by (subst alloc_loop.simps)
      (auto simp: lt next_iter alloc_fail_def bindr_assoc Let_def split: option.splits prod.splits
        intro!: bindr_cong)
qed

lemma alloc_pages_range_enough:
  assumes "frames_ok (mram c)" "nat n \<le> length (frames (mram c))"
  shows "\<exists>mp. alloc_pages_range c n Null =
      Inr (0, chain_of (rev (take (nat n) (frames (mram c)))), c\<lparr>mram := mp\<rparr>) \<and>
    frames_ok mp \<and> frames mp = drop (nat n) (frames (mram c)) \<and> cells_of mp = cells_of (mram c)"
  using memphy_pool.take_frames_spec [OF assms(1), of "nat n" "[]"] assms(2)
    alloc_loop_take_frames [of 0 n "[]" c]
  by (auto simp: alloc_pages_range_def)

lemma alloc_pages_range_short:
  assumes "frames_ok (mram c)" "length (frames (mram c)) < nat n"
  shows "alloc_pages_range c n Null = Inl NullDeref"
  using memphy_pool.take_frames_spec [OF assms(1), of "nat n" "[]"] assms(2)
    alloc_loop_take_frames [of 0 n "[]" c]
  by (auto simp: alloc_pages_range_def)

section \<open>Mapping frames\<close>

definition page_pte :: "mm_struct \<Rightarrow> int \<Rightarrow> u32" where
  "page_pte M p = acell (pgd M) (nat p)"

lemma pgd_modify_in:
  assumes "0 \<le> i" "i < int (alen (pgd M))"
  shows "pgd_modify M i f =
    Inr (M\<lparr>pgd := CArray (alen (pgd M)) ((acell (pgd M))(nat i := f (page_pte M i)))\<rparr>)"
  using assms by (simp add: pgd_modify_def aget_def aset_def in_bounds_def page_pte_def)

text \<open>What a successful mapping loop leaves behind.\<close>

definition mapped_to :: "mm_struct \<Rightarrow> int \<Rightarrow> int list \<Rightarrow> mm_struct \<Rightarrow> bool" where
  "mapped_to M pgn fs M' \<longleftrightarrow>
    alen (pgd M') = alen (pgd M) \<and> mmap M' = mmap M \<and> symrgtbl M' = symrgtbl M \<and>
    (\<forall>i < length fs. page_pte M' (pgn + int i) =
       snd (pte_set_fpn (page_pte M (pgn + int i)) (fs ! i))) \<and>
    (\<forall>p \<ge> 0. p < pgn \<or> pgn + int (length fs) \<le> p \<longrightarrow> page_pte M' p = page_pte M p) \<and>
    (chain_ok (fifo_pgn M) \<longrightarrow> chain_ok (fifo_pgn M') \<and>
       victim_items M' = victim_items M @ map (\<lambda>i. pgn + int i) [0..<length fs])"

lemma vmap_loop_chain:
  assumes "0 \<le> pgn" "0 \<le> k" "pgn + k + int (length fs) \<le> int (alen (pgd M))"
  shows "\<exists>M'. vmap_loop (chain_of fs) k (k + int (length fs)) pgn M =
      Inr (0, k + int (length fs), M') \<and> mapped_to M (pgn + k) fs M'"
  using assms
proof (induction fs arbitrary: k M)
  case Nil
  then show ?case by (simp add: mapped_to_def)
next
  case (Cons f fs)
  let ?i = "pgn + k"
  let ?M1 = "M\<lparr>pgd := CArray (alen (pgd M)) ((acell (pgd M))(nat ?i := snd (pte_set_fpn (page_pte M ?i) f)))\<rparr>"
  let ?M2 = "?M1\<lparr>fifo_pgn := Node ?i (fifo_pgn M)\<rparr>"
  have upd: "pgd_modify M ?i (\<lambda>pte. snd (pte_set_fpn pte f)) = Inr ?M1"
    using Cons.prems by (intro pgd_modify_in) simp_all
  obtain M' where M': "vmap_loop (chain_of fs) (k + 1) (k + 1 + int (length fs)) pgn ?M2 =
      Inr (0, k + 1 + int (length fs), M')" and m: "mapped_to ?M2 (?i + 1) fs M'"
    using Cons.IH [of "k + 1" ?M2] Cons.prems by (auto simp: algebra_simps)
  have eq: "k + int (length (f # fs)) = k + 1 + int (length fs)" by simp
  have "vmap_loop (chain_of (f # fs)) k (k + int (length (f # fs))) pgn M =
      Inr (0, k + int (length (f # fs)), M')"
    unfolding eq using upd M' by (simp add: enlist_pgn_node_def)
  moreover have "mapped_to M ?i (f # fs) M'"
  proof -
    have at: "page_pte ?M2 p = (if p = ?i then snd (pte_set_fpn (page_pte M ?i) f) else page_pte M p)"
      if "0 \<le> p" for p
      using that Cons.prems(1,2) by (auto simp: page_pte_def nat_eq_iff)
    have "page_pte M' (?i + int j) = snd (pte_set_fpn (page_pte M (?i + int j)) ((f # fs) ! j))"
      if "j < length (f # fs)" for j
    proof (cases j)
      case 0
      then show ?thesis using m at [of ?i] Cons.prems(1,2) by (simp add: mapped_to_def)
    next
      case (Suc l)
      then show ?thesis
        using m at [of "?i + int j"] that Cons.prems(1,2)
        by (auto simp: mapped_to_def algebra_simps)
    qed
    moreover have "page_pte M' p = page_pte M p"
      if "0 \<le> p" "p < ?i \<or> ?i + int (length (f # fs)) \<le> p" for p
      using m at [OF that(1)] that by (auto simp: mapped_to_def)
    moreover have "map (\<lambda>j. ?i + int j) [0..<length (f # fs)] =
        ?i # map (\<lambda>j. ?i + 1 + int j) [0..<length fs]"
      by (simp add: upt_conv_Cons map_Suc_upt [symmetric] comp_def algebra_simps del: upt_Suc map_Suc_upt)
    ultimately show ?thesis using m by (auto simp: mapped_to_def victim_items_def)
  qed
  ultimately show ?case by blast
qed

section \<open>Copying a page\<close>

definition page_addrs :: "int \<Rightarrow> int set" where
  "page_addrs fpn = {fpn * 256..<fpn * 256 + 256}"

lemma swap_cp_page_loop:
  "swap_cp_page src s dst d =
    bindr (for_loop 0 256 (\<lambda>i dst. bindr (phy_read src (i32 (i32 (s * 256) + i)))
        (phy_write dst (i32 (i32 (d * 256) + i)))) dst)
      (\<lambda>dst. Inr (0, src, dst))"
proof -
  let ?inner = "\<lambda>i dst. bindr (phy_read src (i32 (i32 (s * 256) + i)))
        (phy_write dst (i32 (i32 (d * 256) + i)))"
  let ?body = "\<lambda>cellidx (mpsrc, mpdst).
         let addrsrc = i32 (i32 (s * PAGING_PAGESZ) + cellidx);
             addrdst = i32 (i32 (d * PAGING_PAGESZ) + cellidx)
         in bindr (MEMPHY_read mpsrc addrsrc) (\<lambda>(_, data, mpsrc).
            case data of
              None \<Rightarrow> Inl UninitRead
            | Some d \<Rightarrow> bindr (MEMPHY_write mpdst addrdst d) (\<lambda>(_, mpdst). Inr (mpsrc, mpdst)))"
  have "?body i (src, t) = bindr (?inner i t) (\<lambda>t. Inr (src, t))" for i t
  proof (cases "MEMPHY_read src (i32 (i32 (s * 256) + i))")
    case (Inr r)
    obtain rc v m where r: "r = (rc, v, m)" by (cases r)
    moreover have "m = src" using Inr r MEMPHY_read_same by simp
    ultimately show ?thesis using Inr
      by (cases v)
        (auto simp: phy_read_def phy_write_def PAGING_PAGESZ_def bindr_assoc split: prod.splits
          intro!: bindr_cong)
  qed (simp add: phy_read_def PAGING_PAGESZ_def)
  then have "for_loop 0 256 ?body (src, dst) =
      bindr (for_loop 0 256 ?inner dst) (\<lambda>t. Inr (src, t))"
    by (intro for_loop_frame)
  then show ?thesis
    by (simp add: swap_cp_page_def PAGING_PAGESZ_def bindr_assoc)
qed

lemma swap_cp_page_copies:
  assumes "dev_ok src" "dev_ok dst" "0 \<le> s" "0 \<le> d"
    and "page_addrs s \<subseteq> phy_addrs src" "page_addrs d \<subseteq> phy_addrs dst"
    and "s < 8388607" "d < 8388607"
  shows "\<exists>dst'. swap_cp_page src s dst d = Inr (0, src, dst') \<and> dev_ok dst' \<and>
    phy_addrs dst' = phy_addrs dst \<and>
    (\<forall>i. 0 \<le> i \<and> i < 256 \<longrightarrow> phy_read dst' (d * 256 + i) = phy_read src (s * 256 + i)) \<and>
    (\<forall>a. a \<notin> page_addrs d \<longrightarrow> phy_read dst' a = phy_read dst a)"
proof -
  have addr: "i32 (i32 (f * 256) + i) = f * 256 + i"
    if "0 \<le> f" "f < 8388607" "0 \<le> i" "i < 256" for f i
    using that by (simp add: i32_small)
  have "for_loop 0 256 (\<lambda>i dst. bindr (phy_read src (i32 (i32 (s * 256) + i)))
        (phy_write dst (i32 (i32 (d * 256) + i)))) dst =
      for_loop 0 256 (\<lambda>i dst. bindr (phy_read src (s * 256 + i)) (phy_write dst (d * 256 + i))) dst"
    using assms by (intro for_loop_cong) (simp add: addr)
  moreover have img: "(\<lambda>i. d * 256 + i) ` {0..<256} = page_addrs d"
    by (simp add: page_addrs_def image_add_atLeastLessThan add.commute)
  moreover have "\<exists>dst'. for_loop 0 256
        (\<lambda>i dst. bindr (phy_read src (s * 256 + i)) (phy_write dst (d * 256 + i))) dst = Inr dst' \<and>
      dev_ok dst' \<and> phy_addrs dst' = phy_addrs dst \<and>
      (\<forall>i. 0 \<le> i \<and> i < 256 \<longrightarrow> phy_read dst' (d * 256 + i) = phy_read src (s * 256 + i)) \<and>
      (\<forall>a \<in> phy_addrs dst. a \<notin> page_addrs d \<longrightarrow> phy_read dst' a = phy_read dst a)"
    unfolding img [symmetric] using assms(5,6)
    by (intro phy_copy.copy_cells assms(1,2)) (auto simp: page_addrs_def inj_on_def)
  ultimately obtain e where e: "swap_cp_page src s dst d = Inr (0, src, e)" "dev_ok e"
      "phy_addrs e = phy_addrs dst"
      "\<forall>i. 0 \<le> i \<and> i < 256 \<longrightarrow> phy_read e (d * 256 + i) = phy_read src (s * 256 + i)"
      "\<forall>a \<in> phy_addrs dst. a \<notin> page_addrs d \<longrightarrow> phy_read e a = phy_read dst a"
    by (auto simp: swap_cp_page_loop)
  moreover have "phy_read e a = phy_read dst a" if "a \<notin> page_addrs d" for a
    using e(5) that phy_read_random [OF e(2), of a] phy_read_random [OF assms(2), of a] e(3)
    by (cases "a \<in> phy_addrs dst") simp_all
  ultimately show ?thesis by blast
qed

section \<open>Well-formed memory descriptors\<close>

text \<open>
  The shape \<open>init_mm\<close> builds and every operation keeps: one area with number 0 that starts at 0,
  whose end is its break, page aligned and within the 22-bit address space; a page table of
  \<open>PAGING_MAX_PGN\<close> entries; a symbol table of \<open>PAGING_MAX_SYMTBL_SZ\<close> regions; and chains that
  end in NULL, the free list with at least one node.
\<close>

definition PAGING_MAX_SYMTBL_SZ :: int where
  "PAGING_MAX_SYMTBL_SZ = 30"

definition vma_ok :: "vm_area_struct \<Rightarrow> bool" where
  "vma_ok v \<longleftrightarrow> vm_id v = 0 \<and> vm_start v = 0 \<and> sbrk v = vm_end v \<and>
    256 dvd uint (vm_end v) \<and> uint (vm_end v) \<le> 2 ^ 22 \<and>
    chain_ok (vm_freerg_list v) \<and> nodes (vm_freerg_list v) \<noteq> []"

definition mm_ok :: "mm_struct \<Rightarrow> bool" where
  "mm_ok M \<longleftrightarrow> alen (pgd M) = 16384 \<and> int (alen (symrgtbl M)) = PAGING_MAX_SYMTBL_SZ \<and>
    chain_ok (fifo_pgn M) \<and> (\<exists>v. mmap M = Node v Null \<and> vma_ok v)"

definition area :: "mm_struct \<Rightarrow> vm_area_struct" where
  "area M = hd (nodes (mmap M))"

definition brk :: "mm_struct \<Rightarrow> int" where
  "brk M = uint (vm_end (area M))"

definition free_regions :: "mm_struct \<Rightarrow> vm_rg_struct list" where
  "free_regions M = nodes (vm_freerg_list (area M))"

lemma mm_okE:
  assumes "mm_ok M"
  obtains v where "mmap M = Node v Null" "vma_ok v" "area M = v" "alen (pgd M) = 16384"
    "alen (symrgtbl M) = 30" "chain_ok (fifo_pgn M)"
  using assms by (auto simp: mm_ok_def area_def PAGING_MAX_SYMTBL_SZ_def)

lemma get_vma_0:
  assumes "mm_ok M" "vmaid \<le> 0"
  shows "get_vma_by_num M vmaid = Inr (Some 0)"
  using assms(1)
  by (rule mm_okE) (use assms(2) in \<open>simp add: get_vma_by_num_def vma_ok_def int_of_u64_def i32_def\<close>)

lemma get_vma_missing:
  assumes "mm_ok M" "0 < vmaid"
  shows "get_vma_by_num M vmaid = Inl NullDeref"
  using assms(1)
  by (rule mm_okE) (use assms(2) in \<open>simp add: get_vma_by_num_def vma_ok_def int_of_u64_def i32_def\<close>)

lemma vma_at_0: "mm_ok M \<Longrightarrow> vma_at M (Some 0) = Inr (area M)"
  by (erule mm_okE) (simp add: vma_at_def)

lemma vma_upd_0: "mm_ok M \<Longrightarrow> vma_upd M (Some 0) f = Inr (M\<lparr>mmap := Node (f (area M)) Null\<rparr>)"
  by (erule mm_okE) (simp add: vma_upd_def)

lemma area_simps [simp]:
  "area (M\<lparr>mmap := Node v c\<rparr>) = v" "area (M\<lparr>pgd := a\<rparr>) = area M"
  "area (M\<lparr>fifo_pgn := b\<rparr>) = area M" "area (M\<lparr>symrgtbl := t\<rparr>) = area M"
  by (simp_all add: area_def)

lemma brk_range: "mm_ok M \<Longrightarrow> 0 \<le> brk M \<and> brk M \<le> 4194304 \<and> 256 dvd brk M"
  by (erule mm_okE) (simp add: brk_def vma_ok_def)

lemma area_sbrk: "mm_ok M \<Longrightarrow> sbrk (area M) = vm_end (area M)"
  by (erule mm_okE) (simp add: vma_ok_def)

lemma align_eq:
  assumes "0 \<le> sz" "sz \<le> 1073741824"
  shows "PAGING_PAGE_ALIGNSZ sz = (sz + 255) div 256 * 256"
proof -
  have rnd: "i32 (i32 (sz + 256) - 1) = sz + 255"
    using assms by (simp add: i32_small)
  have quot: "(sz + 255) sdiv 256 = (sz + 255) div 256"
    using assms by (simp add: signed_divide_int_eq_divide_int)
  have "(sz + 255) div 256 * 256 \<le> sz + 255" "0 \<le> (sz + 255) div 256 * 256"
    using assms by simp_all
  then have "i32 ((sz + 255) div 256 * 256) = (sz + 255) div 256 * 256"
    using assms by (intro i32_small) linarith+
  then show ?thesis
    unfolding PAGING_PAGE_ALIGNSZ_def DIV_ROUND_UP_def PAGING_PAGESZ_def rnd quot .
qed

lemma align_bounds:
  assumes "0 \<le> sz" "sz \<le> 1073741824"
  shows "sz \<le> PAGING_PAGE_ALIGNSZ sz \<and> PAGING_PAGE_ALIGNSZ sz < sz + 256 \<and>
    256 dvd PAGING_PAGE_ALIGNSZ sz"
  unfolding align_eq [OF assms] by (auto intro: add_le_imp_le_right)

section \<open>Who owns which frame\<close>

text \<open>
  A page below the break is resident: present and not swapped. \<open>frame_inv others c\<close> says that
  the resident pages of the caller, the free frames of the device, and the frames \<open>others\<close> (of
  other processes) are pairwise different frames of the device.
\<close>

definition resident :: "mm_struct \<Rightarrow> int \<Rightarrow> bool" where
  "resident M p \<longleftrightarrow> pte_present (page_pte M p) \<and> \<not> pte_swapped (page_pte M p)"

definition page_frame :: "mm_struct \<Rightarrow> int \<Rightarrow> int" where
  "page_frame M p = uint (PAGING_FPN (page_pte M p))"

definition npages :: "mm_struct \<Rightarrow> int" where
  "npages M = brk M div 256"

definition frame_list :: "mm_struct \<Rightarrow> int list" where
  "frame_list M = map (page_frame M) [0..npages M - 1]"

definition frame_inv :: "int set \<Rightarrow> caller \<Rightarrow> bool" where
  "frame_inv others c \<longleftrightarrow>
    dev_ok (mram c) \<and> frames_ok (mram c) \<and>
    (\<forall>p. 0 \<le> p \<and> p < npages (mm c) \<longrightarrow> resident (mm c) p) \<and>
    distinct (frame_list (mm c) @ frames (mram c)) \<and>
    set (frame_list (mm c) @ frames (mram c)) \<inter> others = {} \<and>
    (\<forall>f \<in> set (frame_list (mm c) @ frames (mram c)).
       0 \<le> f \<and> f < 8192 \<and> page_addrs f \<subseteq> phy_addrs (mram c))"

lemma set_fpn_resident:
  assumes "page_pte M p = snd (pte_set_fpn pte f)" "0 \<le> f" "f < 8192"
  shows "resident M p \<and> page_frame M p = f"
proof -
  have "unat (PAGING_FPN (page_pte M p)) = nat f mod 8192"
    using assms fpn_field.unat_get_put unat_u32_of_int_mod [OF assms(2), of 13]
    by (simp add: pte_set_fpn_put)
  moreover have "nat f mod 8192 = nat f" using assms by (intro mod_less) (simp add: nat_less_iff)
  ultimately have "page_frame M p = f"
    using assms(2) by (simp only: page_frame_def uint_int_unat int_nat_eq) simp
  then show ?thesis using assms(1) by (simp add: resident_def pte_set_fpn_put)
qed

definition pages_mapped :: "mm_struct \<Rightarrow> int \<Rightarrow> int list \<Rightarrow> mm_struct \<Rightarrow> bool" where
  "pages_mapped M pgn fs M' \<longleftrightarrow>
    (\<forall>i < length fs. page_pte M' (pgn + int i) =
       snd (pte_set_fpn (page_pte M (pgn + int i)) (fs ! i))) \<and>
    (\<forall>p \<ge> 0. p < pgn \<or> pgn + int (length fs) \<le> p \<longrightarrow> page_pte M' p = page_pte M p)"

lemma frame_list_mapped:
  assumes m: "pages_mapped M (npages M) fs M'" and len: "npages M' = npages M + int (length fs)"
    and fs: "\<forall>f \<in> set fs. 0 \<le> f \<and> f < 8192" and n: "0 \<le> npages M"
  shows "frame_list M' = frame_list M @ fs \<and>
    (\<forall>p. npages M \<le> p \<and> p < npages M' \<longrightarrow> resident M' p)"
proof -
  let ?n = "npages M"
  have new: "resident M' (?n + int i) \<and> page_frame M' (?n + int i) = fs ! i" if "i < length fs" for i
    using m that fs by (intro set_fpn_resident) (auto simp: pages_mapped_def)
  have "[0..?n + int (length fs) - 1] = [0..?n - 1] @ [?n..?n + int (length fs) - 1]"
    using n by (intro upto_append) simp_all
  moreover have "map (page_frame M') [0..?n - 1] = map (page_frame M) [0..?n - 1]"
    using m by (auto simp: pages_mapped_def page_frame_def)
  moreover have "map (page_frame M') [?n..?n + int (length fs) - 1] = fs"
    using new by (intro nth_equalityI) simp_all
  moreover have "resident M' p" if "?n \<le> p" "p < npages M'" for p
    using new [of "nat (p - ?n)"] that len by simp
  ultimately show ?thesis by (simp add: frame_list_def len)
qed

section \<open>Growing the area\<close>

lemma brk_pgn:
  assumes "0 \<le> b" "b < 4194304"
  shows "int_of_u32 (PAGING_PGN (u32_of_int b)) = b div 256"
proof -
  have "unat (u32_of_int b) = nat b"
    using assms by (simp add: unat_eq_nat_uint uint_u32_of_int)
  then have "unat (PAGING_PGN (u32_of_int b)) = nat b div 256 mod 16384"
    by (simp add: unat_PGN)
  also have "\<dots> = nat (b div 256)"
    using assms by (simp add: nat_div_distrib)
  finally have "uint (PAGING_PGN (u32_of_int b)) = b div 256"
    using assms by (simp only: uint_int_unat int_nat_eq) simp
  then show ?thesis using assms by (simp add: int_of_u32_small)
qed

text \<open>What a successful growth changes, and what it keeps.\<close>

definition grown :: "caller \<Rightarrow> int \<Rightarrow> caller \<Rightarrow> bool" where
  "grown c amt c' \<longleftrightarrow>
    brk (mm c') = brk (mm c) + amt \<and> free_regions (mm c') = free_regions (mm c) \<and>
    symrgtbl (mm c') = symrgtbl (mm c) \<and> cells_of (mram c') = cells_of (mram c) \<and>
    frames (mram c') = drop (nat (amt div 256)) (frames (mram c)) \<and>
    (\<forall>p. 0 \<le> p \<and> (p < npages (mm c) \<or> npages (mm c') \<le> p) \<longrightarrow>
       page_pte (mm c') p = page_pte (mm c) p) \<and>
    victim_items (mm c') = victim_items (mm c) @ [npages (mm c)..npages (mm c') - 1] \<and>
    pid c' = pid c \<and> active_mswp c' = active_mswp c \<and> stdout c' = stdout c"

lemma u64_add_small:
  assumes "uint (w :: u64) \<le> 4194304" "0 \<le> x" "x \<le> 4194304"
  shows "uint (w + u64_of_int x) = uint w + x"
proof -
  have "uint (u64_of_int x) = x" using assms by (simp add: uint_u64_of_int)
  then show ?thesis using assms by (simp add: uint_word_ariths)
qed

lemma int_of_u64_brk: "mm_ok M \<Longrightarrow> int_of_u64 (vm_end (area M)) = brk M"
  using brk_range [of M] by (simp add: brk_def int_of_u64_small)

lemma u64_of_int_brk: "mm_ok M \<Longrightarrow> u64_of_int (brk M) = vm_end (area M)"
  by (simp add: brk_def u64_of_int_def)

lemma validate_at_brk:
  assumes "mm_ok (mm c)"
  shows "validate_overlap_vm_area c vmaid (brk (mm c)) e = Inr 0"
  using assms
  by (rule mm_okE) (simp add: validate_overlap_vm_area_def brk_def u64_of_int_def)

text \<open>The descriptor after the limits moved and before the pages are mapped.\<close>

definition with_brk :: "mm_struct \<Rightarrow> u64 \<Rightarrow> mm_struct" where
  "with_brk M e = M\<lparr>mmap := Node ((area M)\<lparr>vm_end := e, sbrk := e\<rparr>) Null\<rparr>"

lemma with_brk_ok:
  assumes "mm_ok M" "256 dvd uint e" "uint e \<le> 4194304"
  shows "mm_ok (with_brk M e)" "brk (with_brk M e) = uint e"
    "free_regions (with_brk M e) = free_regions M"
  using assms(1)
  by (rule mm_okE, use assms in \<open>simp add: with_brk_def mm_ok_def vma_ok_def brk_def
      free_regions_def PAGING_MAX_SYMTBL_SZ_def\<close>)+

lemma inc_vma_limit_unfold:
  assumes "mm_ok (mm c)" "vmaid \<le> 0"
  shows "inc_vma_limit c vmaid inc_sz =
    (let amt = PAGING_PAGE_ALIGNSZ inc_sz; e = vm_end (area (mm c)) + u64_of_int amt
     in bindr (vm_map_ram (c\<lparr>mm := with_brk (mm c) e\<rparr>) (brk (mm c)) (int_of_u64 e)
                 (brk (mm c)) (amt sdiv 256)
                 \<lparr>rg_start = vm_end (area (mm c)), rg_end = e\<rparr>)
          (\<lambda>(rc, _, c'). if rc < 0 then Inr (-1, c') else Inr (0, c')))"
  using assms
  by (simp add: inc_vma_limit_def get_vm_area_node_at_brk_def get_vma_0 vma_at_0 vma_upd_0
      area_sbrk int_of_u64_brk validate_at_brk with_brk_def PAGING_PAGESZ_def Let_def)

lemma vm_map_ram_enough:
  assumes ok: "mm_ok (mm c)" and fr: "frames_ok (mram c)" and n: "0 \<le> n"
    "nat n \<le> length (frames (mram c))"
    and m: "0 \<le> b" "256 dvd b" "b + n * 256 \<le> 4194304"
  shows "\<exists>rg mp M'. vm_map_ram c a e b n rg0 = Inr (0, rg, c\<lparr>mram := mp, mm := M'\<rparr>) \<and>
    frames_ok mp \<and> frames mp = drop (nat n) (frames (mram c)) \<and> cells_of mp = cells_of (mram c) \<and>
    mapped_to (mm c) (b div 256) (rev (take (nat n) (frames (mram c)))) M'"
proof -
  let ?fs = "rev (take (nat n) (frames (mram c)))"
  obtain mp where mp: "alloc_pages_range c n Null = Inr (0, chain_of ?fs, c\<lparr>mram := mp\<rparr>)"
    "frames_ok mp" "frames mp = drop (nat n) (frames (mram c))" "cells_of mp = cells_of (mram c)"
    using alloc_pages_range_enough [OF fr n(2)] by blast
  have len: "int (length ?fs) = n" using n by simp
  have alen: "alen (pgd (mm c)) = 16384" using ok by (rule mm_okE)
  have "\<exists>M'. vmap_loop (chain_of ?fs) 0 n (int_of_u32 (PAGING_PGN (u32_of_int b))) (mm c) =
      Inr (0, n, M') \<and> mapped_to (mm c) (b div 256) ?fs M'"
  proof (cases "n = 0")
    case True
    then show ?thesis by (simp add: mapped_to_def)
  next
    case False
    then have pgn: "int_of_u32 (PAGING_PGN (u32_of_int b)) = b div 256"
      using m n(1) by (intro brk_pgn) simp_all
    have "b div 256 + n \<le> 16384" using m by auto
    then show ?thesis
      using vmap_loop_chain [of "b div 256" 0 ?fs "mm c"] m(1) len alen unfolding pgn by simp
  qed
  then obtain M' where M': "vmap_loop (chain_of ?fs) 0 n
      (int_of_u32 (PAGING_PGN (u32_of_int b))) (mm c) = Inr (0, n, M')"
    "mapped_to (mm c) (b div 256) ?fs M'" by blast
  have "\<exists>rg. vm_map_ram c a e b n rg0 = Inr (0, rg, c\<lparr>mram := mp, mm := M'\<rparr>)"
    using mp(1) M'(1) by (simp add: vm_map_ram_def vmap_page_range_def Let_def)
  then show ?thesis using mp(2-4) M'(2) by blast
qed

lemma mapped_to_mm_ok:
  assumes "mapped_to M pgn fs M'" "mm_ok M"
  shows "mm_ok M' \<and> brk M' = brk M \<and> free_regions M' = free_regions M \<and> area M' = area M"
  using assms by (auto simp: mapped_to_def mm_ok_def brk_def free_regions_def area_def)

lemma with_brk_page [simp]:
  "page_pte (with_brk M e) p = page_pte M p" "symrgtbl (with_brk M e) = symrgtbl M"
  "fifo_pgn (with_brk M e) = fifo_pgn M" "victim_items (with_brk M e) = victim_items M"
  by (simp_all add: with_brk_def page_pte_def victim_items_def)

lemma with_brk_page_frame [simp]:
  "page_frame (with_brk M e) p = page_frame M p"
  by (simp add: page_frame_def)

lemma resident_cong: "page_pte M p = page_pte M' p \<Longrightarrow> resident M p = resident M' p"
  by (simp add: resident_def)

text \<open>Mapping fresh frames behind the last page keeps the frames of a process distinct and in the pool.\<close>

lemma frame_inv_mapped:
  assumes inv: "frame_inv others c" and fs: "fs = rev (take n (frames (mram c)))"
    and mp: "frames_ok mp" "frames mp = drop n (frames (mram c))" "cells_of mp = cells_of (mram c)"
    and pm: "pages_mapped (mm c) (npages (mm c)) fs M'" "npages M' = npages (mm c) + int (length fs)"
      "0 \<le> npages (mm c)"
  shows "frame_inv others (c\<lparr>mram := mp, mm := M'\<rparr>)"
proof -
  have "\<forall>f \<in> set (frames (mram c)). 0 \<le> f \<and> f < 8192" using inv by (simp add: frame_inv_def)
  moreover have "\<forall>f \<in> set fs. f \<in> set (frames (mram c))" by (auto simp: fs dest: in_set_takeD)
  ultimately have "\<forall>f \<in> set fs. 0 \<le> f \<and> f < 8192" by blast
  then have fl: "frame_list M' = frame_list (mm c) @ fs"
    and new: "\<forall>p. npages (mm c) \<le> p \<and> p < npages M' \<longrightarrow> resident M' p"
    using frame_list_mapped [OF pm(1,2) _ pm(3)] by blast+
  have old: "\<forall>p. 0 \<le> p \<and> p < npages (mm c) \<longrightarrow> page_pte M' p = page_pte (mm c) p"
    using pm(1) by (simp add: pages_mapped_def)
  have split: "frames (mram c) = take n (frames (mram c)) @ frames mp" using mp(2) by simp
  have same: "set (frame_list M' @ frames mp) = set (frame_list (mm c) @ frames (mram c))"
    using arg_cong [OF split, of set] unfolding fl fs by auto
  have "distinct (frame_list (mm c) @ take n (frames (mram c)) @ frames mp)"
    unfolding split [symmetric] using inv by (simp add: frame_inv_def)
  then have "distinct (frame_list M' @ frames mp)" unfolding fl fs by auto
  moreover have "resident M' p" if "0 \<le> p" "p < npages M'" for p
    using that new old inv resident_cong [of M' p "mm c"]
    by (cases "p < npages (mm c)") (auto simp: frame_inv_def)
  ultimately show ?thesis
    using inv mp(1) dev_ok_cells [OF mp(3)] phy_addrs_cells [OF mp(3)]
    by (simp add: frame_inv_def same del: set_append)
qed

text \<open>The growth lemma: what \<open>inc_vma_limit\<close> does when the frames suffice.\<close>

lemma inc_vma_limit_grows:
  assumes ok: "mm_ok (mm c)" and inv: "frame_inv others c" and id: "vmaid \<le> 0"
    and sz: "0 \<le> sz" "sz \<le> 4194304"
    and room: "brk (mm c) + PAGING_PAGE_ALIGNSZ sz \<le> 4194304"
    and fr: "nat (PAGING_PAGE_ALIGNSZ sz div 256) \<le> length (frames (mram c))"
  shows "\<exists>c'. inc_vma_limit c vmaid sz = Inr (0, c') \<and> mm_ok (mm c') \<and>
    frame_inv others c' \<and> grown c (PAGING_PAGE_ALIGNSZ sz) c'"
proof -
  let ?M = "mm c" and ?amt = "PAGING_PAGE_ALIGNSZ sz"
  let ?e = "vm_end (area ?M) + u64_of_int ?amt" and ?n = "?amt div 256"
  let ?B = "with_brk ?M ?e" and ?fs = "rev (take (nat ?n) (frames (mram c)))"
  have amt: "0 \<le> ?amt" "256 dvd ?amt" "?amt sdiv 256 = ?n" "?n * 256 = ?amt"
    using align_bounds [of sz] sz by (auto simp: signed_divide_int_eq_divide_int)
  have b: "0 \<le> brk ?M" "brk ?M \<le> 4194304" "256 dvd brk ?M" using brk_range [OF ok] by auto
  have "?amt \<le> 4194304" using room b(1) by linarith
  then have e: "uint ?e = brk ?M + ?amt"
    unfolding brk_def using b(2) amt(1) by (intro u64_add_small) (simp_all add: brk_def)
  have B: "mm_ok ?B" "brk ?B = brk ?M + ?amt" "free_regions ?B = free_regions ?M"
    using with_brk_ok [OF ok, of ?e] e room amt(2) b(3) by auto
  have fok: "frames_ok (mram c)" using inv by (simp add: frame_inv_def)
  obtain rg mp M' where run: "vm_map_ram (c\<lparr>mm := ?B\<rparr>) (brk ?M) (int_of_u64 ?e) (brk ?M) ?n
        \<lparr>rg_start = vm_end (area ?M), rg_end = ?e\<rparr> = Inr (0, rg, c\<lparr>mram := mp, mm := M'\<rparr>)"
    and mp: "frames_ok mp" "frames mp = drop (nat ?n) (frames (mram c))"
      "cells_of mp = cells_of (mram c)"
    and m: "mapped_to ?B (brk ?M div 256) ?fs M'"
  proof -
    have "0 \<le> ?n" "brk ?M + ?n * 256 \<le> 4194304" using amt room by simp_all
    then show ?thesis
      using vm_map_ram_enough [of "c\<lparr>mm := ?B\<rparr>" ?n "brk ?M" "brk ?M" "int_of_u64 ?e"
          "\<lparr>rg_start = vm_end (area ?M), rg_end = ?e\<rparr>"] B(1) fok fr b that
      by auto
  qed
  have M': "mm_ok M'" "brk M' = brk ?M + ?amt" "free_regions M' = free_regions ?M"
    using mapped_to_mm_ok [OF m B(1)] B by simp_all
  have np: "npages ?M = brk ?M div 256" "0 \<le> npages ?M"
    "npages M' = npages ?M + int (length ?fs)"
    using b amt fr M'(2) by (auto simp: npages_def div_plus_div_distrib_dvd_left)
  have pm: "pages_mapped ?M (npages ?M) ?fs M'"
    using m by (simp add: mapped_to_def pages_mapped_def np(1))
  have res_out: "\<forall>p. 0 \<le> p \<and> (p < npages ?M \<or> npages M' \<le> p) \<longrightarrow> page_pte M' p = page_pte ?M p"
    using pm np(3) by (auto simp: pages_mapped_def)
  have "inc_vma_limit c vmaid sz = Inr (0, c\<lparr>mram := mp, mm := M'\<rparr>)"
    using run by (simp add: inc_vma_limit_unfold [OF ok id] Let_def amt(3))
  moreover have "frame_inv others (c\<lparr>mram := mp, mm := M'\<rparr>)"
    using frame_inv_mapped [OF inv refl mp pm np(3,2)] .
  moreover have "grown c ?amt (c\<lparr>mram := mp, mm := M'\<rparr>)"
  proof -
    have "map (\<lambda>i. npages ?M + int i) [0..<length ?fs] = [npages ?M..npages M' - 1]"
      using np(3) by (intro nth_equalityI) simp_all
    moreover have "chain_ok (fifo_pgn ?B)" using B(1) by (rule mm_okE)
    ultimately have "victim_items M' = victim_items ?M @ [npages ?M..npages M' - 1]"
      using m by (simp add: mapped_to_def np(1))
    then show ?thesis
      using M' mp res_out m by (simp add: grown_def mapped_to_def)
  qed
  ultimately show ?thesis using M'(1) by (intro exI [of _ "c\<lparr>mram := mp, mm := M'\<rparr>"]) simp
qed

text \<open>When the device has too few frames, the error branch of \<open>alloc_pages_range\<close> faults.\<close>

lemma inc_vma_limit_short:
  assumes ok: "mm_ok (mm c)" and fok: "frames_ok (mram c)" and id: "vmaid \<le> 0"
    and sz: "0 \<le> sz" "sz \<le> 1073741824"
    and few: "length (frames (mram c)) < nat (PAGING_PAGE_ALIGNSZ sz div 256)"
  shows "inc_vma_limit c vmaid sz = Inl NullDeref"
proof -
  have "PAGING_PAGE_ALIGNSZ sz sdiv 256 = PAGING_PAGE_ALIGNSZ sz div 256"
    using align_bounds [OF sz] sz by (simp add: signed_divide_int_eq_divide_int)
  then show ?thesis
    using alloc_pages_range_short [of "c\<lparr>mm := B\<rparr>" for B] fok few
    by (simp add: inc_vma_limit_unfold [OF ok id] Let_def vm_map_ram_def)
qed


section \<open>Properties\<close>

text \<open>A small machine for the witnesses: four frames of RAM, a fresh descriptor.\<close>

definition dev1k :: memphy_struct where
  "dev1k = \<lparr>storage = CArray 1024 (\<lambda>_. 0), maxsz = 1024, rdmflg = 1, cursor = 0,
     free_fp_list = chain_of [0, 1, 2, 3]\<rparr>"

definition mm0 :: mm_struct where
  "mm0 = snd (init_mm \<lparr>pgd = CArray 0 (\<lambda>_. 0), mmap = Null,
     symrgtbl = CArray 30 (\<lambda>_. \<lparr>rg_start = 0, rg_end = 0\<rparr>), fifo_pgn = Null\<rparr> (\<lambda>_. 0) Null)"

definition caller0 :: caller where
  "caller0 = \<lparr>pid = 1, mm = mm0, mram = Some dev1k, active_mswp = Some dev1k, stdout = []\<rparr>"

lemma init_mm_area:
  "mmap (snd (init_mm raw raw_pgd raw_freerg)) =
    Node \<lparr>vm_id = 0, vm_start = 0, vm_end = 0, sbrk = 0,
      vm_freerg_list = Node \<lparr>rg_start = 0, rg_end = 0\<rparr> raw_freerg\<rparr> Null"
  by (simp add: init_mm_def Let_def enlist_vm_rg_node_def init_vm_rg_def u64_of_int_def)

lemma init_mm_fields [simp]:
  "pgd (snd (init_mm raw raw_pgd raw_freerg)) = CArray 16384 raw_pgd"
  "symrgtbl (snd (init_mm raw raw_pgd raw_freerg)) = symrgtbl raw"
  "fifo_pgn (snd (init_mm raw raw_pgd raw_freerg)) = fifo_pgn raw"
  by (simp_all add: init_mm_def Let_def paging_consts)

lemma mm0_ok: "mm_ok mm0"
  by (simp add: mm0_def mm_ok_def vma_ok_def init_mm_area PAGING_MAX_SYMTBL_SZ_def)

lemma brk_mm0: "brk mm0 = 0"
  by (simp add: mm0_def brk_def area_def init_mm_area)

lemma frames_caller0: "frames (mram caller0) = [0, 1, 2, 3]" "frames_ok (mram caller0)"
  by (simp_all add: frames_def frames_ok_def caller0_def dev1k_def)

lemma frame_inv_caller0: "frame_inv {} caller0"
  using frames_caller0
  by (auto simp: frame_inv_def caller0_def npages_def frame_list_def brk_mm0 dev_ok_def dev1k_def
      phy_addrs_def page_addrs_def)

text \<open>
  C38: \<open>init_mm\<close> returns 0 and builds a well-formed descriptor with an empty address space exactly
  when the block \<open>malloc\<close> returned happened to hold well-formed chains in \<open>fifo_pgn\<close> and in the
  area's \<open>vm_freerg_list\<close>: the code initialises neither before it links in front of it.
\<close>

theorem init_mm_ok_iff:
  "fst (init_mm raw raw_pgd raw_freerg) = 0 \<and>
   brk (snd (init_mm raw raw_pgd raw_freerg)) = 0 \<and>
   free_regions (snd (init_mm raw raw_pgd raw_freerg)) = \<lparr>rg_start = 0, rg_end = 0\<rparr> # nodes raw_freerg \<and>
   mm_ok (snd (init_mm raw raw_pgd raw_freerg)) =
     (alen (symrgtbl raw) = 30 \<and> chain_ok (fifo_pgn raw) \<and> chain_ok raw_freerg)"
proof -
  have "fst (init_mm raw raw_pgd raw_freerg) = 0" by (simp add: init_mm_def Let_def)
  then show ?thesis
    by (auto simp: mm_ok_def vma_ok_def brk_def free_regions_def area_def init_mm_area
        PAGING_MAX_SYMTBL_SZ_def)
qed

text \<open>
  On a well-formed descriptor \<open>get_vma_by_num\<close> finds area 0 for any non-positive number, and
  for every other number it dereferences NULL instead of returning the NULL its callers
  \<open>__read\<close> and \<open>__write\<close> test for.
\<close>

theorem get_vma_by_num_spec:
  assumes "mm_ok M"
  shows "get_vma_by_num M vmaid = (if vmaid \<le> 0 then Inr (Some 0) else Inl NullDeref)"
  using get_vma_0 [OF assms, of vmaid] get_vma_missing [OF assms, of vmaid] by simp

theorem get_vma_by_num_spec_witness:
  "get_vma_by_num mm0 0 = Inr (Some 0) \<and> get_vma_by_num mm0 1 = Inl NullDeref"
  using get_vma_by_num_spec [OF mm0_ok, of 0] get_vma_by_num_spec [OF mm0_ok, of 1] by simp

text \<open>
  C24: growing area 0 by \<open>sz\<close> bytes. With enough free frames \<open>inc_vma_limit\<close> returns 0, moves the
  break by \<open>sz\<close> rounded up to pages, maps each new page to a frame of its own taken from the
  device (resident pages, free frames and other processes' frames stay pairwise different),
  queues the new pages as the youngest victims, and touches neither the bytes of RAM, the old
  pages, the free list nor the symbols. With too few frames it dereferences NULL: the error
  branch of \<open>alloc_pages_range\<close> never returns its code.
\<close>

theorem inc_vma_limit_spec:
  assumes "mm_ok (mm c)" "frame_inv others c" "vmaid \<le> 0" "0 \<le> sz" "sz \<le> 4194304"
    and "brk (mm c) + PAGING_PAGE_ALIGNSZ sz \<le> 4194304"
  shows "if PAGING_PAGE_ALIGNSZ sz div 256 \<le> int (length (frames (mram c)))
    then \<exists>c'. inc_vma_limit c vmaid sz = Inr (0, c') \<and> mm_ok (mm c') \<and>
      frame_inv others c' \<and> grown c (PAGING_PAGE_ALIGNSZ sz) c'
    else inc_vma_limit c vmaid sz = Inl NullDeref"
proof -
  have "frames_ok (mram c)" using assms(2) by (simp add: frame_inv_def)
  then show ?thesis
    using inc_vma_limit_grows [OF assms] inc_vma_limit_short [OF assms(1) _ assms(3,4)] assms(5)
    by auto
qed

theorem inc_vma_limit_spec_witness:
  "(\<exists>c'. inc_vma_limit caller0 0 300 = Inr (0, c') \<and> brk (mm c') = 512 \<and>
      frames (mram c') = [2, 3]) \<and>
   inc_vma_limit caller0 0 2000 = Inl NullDeref"
proof -
  have al: "PAGING_PAGE_ALIGNSZ 300 = 512" "PAGING_PAGE_ALIGNSZ 2000 = 2048"
    by (simp_all add: align_eq)
  have c: "mm caller0 = mm0" by (simp add: caller0_def)
  show ?thesis
    using inc_vma_limit_spec [of caller0 "{}" 0 300] inc_vma_limit_spec [of caller0 "{}" 0 2000]
      mm0_ok frame_inv_caller0 frames_caller0 brk_mm0
    by (auto simp: al c grown_def)
qed

text \<open>
  C34: page replacement is first-in first-out over the whole life of a process: after any growth
  of the area, repeated calls of \<open>find_victim_page\<close> return the pages that were queued before, in
  their order, and then the new pages in ascending order, each exactly once.
\<close>

theorem victim_order:
  assumes "mm_ok (mm c)" "frame_inv others c" "0 \<le> sz" "sz \<le> 4194304"
    and "brk (mm c) + PAGING_PAGE_ALIGNSZ sz \<le> 4194304"
    and "PAGING_PAGE_ALIGNSZ sz div 256 \<le> int (length (frames (mram c)))"
    and "inc_vma_limit c 0 sz = Inr (rc, c')"
  shows "\<exists>M. victims.drain (length (victim_items (mm c')) + 1) (mm c') =
      Inr (victim_items (mm c) @ [npages (mm c)..npages (mm c') - 1], M) \<and>
    find_victim_page M = Inr (-1, None, M)"
proof -
  have g: "mm_ok (mm c')" "grown c (PAGING_PAGE_ALIGNSZ sz) c'"
    using inc_vma_limit_grows [of c others 0 sz] assms by auto
  have inv: "victim_queue_ok (mm c')" using g(1) by (auto simp: victim_queue_ok_def mm_ok_def)
  obtain M where M: "victims.drain (length (victim_items (mm c')) + 1) (mm c') =
      Inr (victim_items (mm c'), M)" "victim_queue_ok M" "victim_items M = []"
    using victims.drain_items [OF inv, of "length (victim_items (mm c')) + 1"] by auto
  moreover have "find_victim_page M = Inr (-1, None, M)"
    using M(2,3) by (auto simp: victim_queue_ok_def victim_items_def find_victim_page_def
        elim!: chain_okE)
  moreover have "victim_items (mm c') = victim_items (mm c) @ [npages (mm c)..npages (mm c') - 1]"
    using g(2) by (simp only: grown_def)
  ultimately show ?thesis by metis
qed

theorem victim_order_witness:
  "\<exists>c' M. inc_vma_limit caller0 0 700 = Inr (0, c') \<and>
    victims.drain (length (victim_items (mm c')) + 1) (mm c') = Inr ([0, 1, 2], M)"
proof -
  have al: "PAGING_PAGE_ALIGNSZ 700 = 768" by (simp add: align_eq)
  have c: "mm caller0 = mm0" by (simp add: caller0_def)
  obtain c' where c': "inc_vma_limit caller0 0 700 = Inr (0, c')" "grown caller0 768 c'"
    using inc_vma_limit_grows [of caller0 "{}" 0 700] mm0_ok frame_inv_caller0 frames_caller0 brk_mm0
    by (auto simp: al c)
  have "victim_items mm0 = []" by (simp add: victim_items_def mm0_def)
  moreover have "npages mm0 = 0" "npages (mm c') = 3"
    using c'(2) brk_mm0 by (simp_all add: npages_def grown_def c)
  ultimately show ?thesis
    using victim_order [of caller0 "{}" 700 0 c'] mm0_ok frame_inv_caller0 frames_caller0
      brk_mm0 c' by (auto simp: al c upto.simps)
qed

text \<open>
  C33: \<open>__swap_cp_page\<close> copies exactly one page: the 256 cells of the destination frame become
  those of the source frame, every other cell of the destination and the whole source device
  stay as they were.
\<close>

theorem swap_cp_page_spec:
  assumes "dev_ok src" "dev_ok dst" "0 \<le> s" "s < 8388607" "0 \<le> d" "d < 8388607"
    and "page_addrs s \<subseteq> phy_addrs src" "page_addrs d \<subseteq> phy_addrs dst"
  shows "\<exists>dst'. swap_cp_page src s dst d = Inr (0, src, dst') \<and> dev_ok dst' \<and>
    (\<forall>i. 0 \<le> i \<and> i < 256 \<longrightarrow> phy_read dst' (d * 256 + i) = phy_read src (s * 256 + i)) \<and>
    (\<forall>a. a \<notin> page_addrs d \<longrightarrow> phy_read dst' a = phy_read dst a)"
  using swap_cp_page_copies [of src dst s d] assms by blast

theorem swap_cp_page_spec_witness:
  "\<exists>dst'. swap_cp_page (Some (dev1k\<lparr>storage := CArray 1024 (\<lambda>n. of_nat n)\<rparr>)) 1 (Some dev1k) 2 =
      Inr (0, Some (dev1k\<lparr>storage := CArray 1024 (\<lambda>n. of_nat n)\<rparr>), dst') \<and>
    phy_read dst' 519 = Inr 7 \<and> phy_read dst' 100 = Inr 0"
proof -
  let ?src = "Some (dev1k\<lparr>storage := CArray 1024 (\<lambda>n. of_nat n)\<rparr>)"
  have ok: "dev_ok ?src" "dev_ok (Some dev1k)" by (simp_all add: dev_ok_def dev1k_def)
  have pa: "page_addrs 1 \<subseteq> phy_addrs ?src" "page_addrs 2 \<subseteq> phy_addrs (Some dev1k)"
    by (auto simp: page_addrs_def phy_addrs_def dev1k_def)
  obtain dst' where dst': "swap_cp_page ?src 1 (Some dev1k) 2 = Inr (0, ?src, dst')"
    "\<forall>i. 0 \<le> i \<and> i < 256 \<longrightarrow> phy_read dst' (2 * 256 + i) = phy_read ?src (1 * 256 + i)"
    "\<forall>a. a \<notin> page_addrs 2 \<longrightarrow> phy_read dst' a = phy_read (Some dev1k) a"
    using swap_cp_page_spec [OF ok _ _ _ _ pa] by auto
  have "phy_read dst' 519 = phy_read ?src 263" using dst'(2) [rule_format, of 7] by simp
  moreover have "phy_read ?src 263 = Inr 7" "phy_read (Some dev1k) 100 = Inr 0"
    using phy_read_random [OF ok(1), of 263] phy_read_random [OF ok(2), of 100]
    by (simp_all add: phy_addrs_def dev1k_def)
  moreover have "phy_read dst' 100 = phy_read (Some dev1k) 100"
    using dst'(3) by (simp add: page_addrs_def)
  ultimately show ?thesis using dst'(1) by auto
qed

end
