(* ===== verification/Sysmem.thy ===== *)
theory Sysmem
  imports Vmspace
begin

text \<open>
  The memory system call, \<open>src/sys_mem.c\<close>, with the operation codes of \<open>include/libmem.h\<close> and
  the argument registers of \<open>include/syscall.h\<close>. It is how the user-side memory library reaches
  the memory manager: growing an area, swapping a page out, and reading and writing one byte of
  RAM. The registers \<open>a4\<close> to \<open>a6\<close>, \<open>orig_ax\<close> and \<open>flags\<close> are never accessed and have no field.
\<close>

record sc_regs =
  a1 :: u32
  a2 :: u32
  a3 :: u32

definition SYSMEM_MAP_OP :: int where
  "SYSMEM_MAP_OP = 1"

definition SYSMEM_INC_OP :: int where
  "SYSMEM_INC_OP = 2"

definition SYSMEM_SWP_OP :: int where
  "SYSMEM_SWP_OP = 3"

definition SYSMEM_IO_READ :: int where
  "SYSMEM_IO_READ = 4"

definition SYSMEM_IO_WRITE :: int where
  "SYSMEM_IO_WRITE = 5"

lemmas sysmem_ops = SYSMEM_MAP_OP_def SYSMEM_INC_OP_def SYSMEM_SWP_OP_def SYSMEM_IO_READ_def
  SYSMEM_IO_WRITE_def

text \<open>
  The codes of the functions it calls are dropped. A failed read leaves \<open>value\<close> unset, and the
  next statement reads it.
\<close>

definition sys_memmap :: "caller \<Rightarrow> sc_regs \<Rightarrow> (int \<times> sc_regs \<times> caller) res" where
  "sys_memmap c regs =
    (let memop = int_of_u32 (a1 regs) in
     if memop = SYSMEM_MAP_OP then Inr (0, regs, c)
     else if memop = SYSMEM_INC_OP then
       bindr (inc_vma_limit c (int_of_u32 (a2 regs)) (int_of_u32 (a3 regs))) (\<lambda>(_, c).
       Inr (0, regs, c))
     else if memop = SYSMEM_SWP_OP then
       bindr (mm_swap_page c (int_of_u32 (a2 regs)) (int_of_u32 (a3 regs))) (\<lambda>(_, c).
       Inr (0, regs, c))
     else if memop = SYSMEM_IO_READ then
       bindr (MEMPHY_read (mram c) (int_of_u32 (a2 regs))) (\<lambda>(_, value, mp).
       case value of
         None \<Rightarrow> Inl UninitRead
       | Some v \<Rightarrow> Inr (0, regs\<lparr>a3 := u32_of_byte v\<rparr>, c\<lparr>mram := mp\<rparr>))
     else if memop = SYSMEM_IO_WRITE then
       bindr (MEMPHY_write (mram c) (int_of_u32 (a2 regs)) (byte_of_u32 (a3 regs))) (\<lambda>(_, mp).
       Inr (0, regs, c\<lparr>mram := mp\<rparr>))
     else Inr (0, regs, print_line F_memop [AI memop] c))"

section \<open>The operations one by one\<close>

definition memmap_regs :: "int \<Rightarrow> int \<Rightarrow> int \<Rightarrow> sc_regs" where
  "memmap_regs op x y = \<lparr>a1 = u32_of_int op, a2 = u32_of_int x, a3 = u32_of_int y\<rparr>"

lemma int_u32_int [conv_simps]: "int_of_u32 (u32_of_int x) = i32 x"
proof -
  have "uint (u32_of_int x) = take_bit 32 x"
    by (simp add: u32_of_int_def uint_word_of_int take_bit_eq_mod)
  then show ?thesis by (simp add: int_of_u32_def i32_def signed_take_bit_take_bit)
qed

lemma sys_memmap_inc:
  "sys_memmap c (memmap_regs SYSMEM_INC_OP x y) =
    bindr (inc_vma_limit c (i32 x) (i32 y)) (\<lambda>(_, c'). Inr (0, memmap_regs SYSMEM_INC_OP x y, c'))"
  by (simp add: sys_memmap_def memmap_regs_def sysmem_ops int_u32_int i32_small Let_def)

lemma sys_memmap_swp:
  "sys_memmap c (memmap_regs SYSMEM_SWP_OP x y) =
    bindr (mm_swap_page c (i32 x) (i32 y)) (\<lambda>(_, c'). Inr (0, memmap_regs SYSMEM_SWP_OP x y, c'))"
  by (simp add: sys_memmap_def memmap_regs_def sysmem_ops int_u32_int i32_small Let_def)

lemma sys_memmap_read:
  "sys_memmap c (memmap_regs SYSMEM_IO_READ x y) =
    bindr (phy_read (mram c) (i32 x)) (\<lambda>v.
      Inr (0, (memmap_regs SYSMEM_IO_READ x y)\<lparr>a3 := u32_of_byte v\<rparr>, c))"
proof -
  have "m = mram c" if "MEMPHY_read (mram c) (i32 x) = Inr (rc, v, m)" for rc v m
    using that by (rule MEMPHY_read_same)
  then show ?thesis
    by (cases "MEMPHY_read (mram c) (i32 x)")
      (auto simp: sys_memmap_def memmap_regs_def sysmem_ops int_u32_int i32_small Let_def
        phy_read_def split: option.splits)
qed

lemma sys_memmap_write:
  "sys_memmap c ((memmap_regs SYSMEM_IO_WRITE x y)\<lparr>a3 := u32_of_byte v\<rparr>) =
    bindr (phy_write (mram c) (i32 x) v) (\<lambda>mp.
      Inr (0, (memmap_regs SYSMEM_IO_WRITE x y)\<lparr>a3 := u32_of_byte v\<rparr>, c\<lparr>mram := mp\<rparr>))"
  by (cases "MEMPHY_write (mram c) (i32 x) v")
    (auto simp: sys_memmap_def memmap_regs_def sysmem_ops int_u32_int i32_small Let_def
      phy_write_def)

end
