(* ===== verification/Libmem.thy ===== *)
theory Libmem
  imports Sysmem
begin

text \<open>
  The memory library, \<open>src/libmem.c\<close>: allocation and release of regions, reading and writing
  bytes through the page table, the page fault path, and the printed reports. The functions that
  take both \<open>mm\<close> and \<open>caller\<close> are always called with \<open>mm == caller->mm\<close> and take the caller
  alone here; \<open>mmvm_lock\<close> is never locked. The system call 17 they make is \<open>sys_memmap\<close> (the
  dispatch itself is in the theory of the kernel interface).
\<close>

section \<open>Free regions and symbols\<close>

text \<open>
  \<open>enlist_vm_freerg_list\<close> writes the link of the new element only when the list is not empty:
  \<open>rg_link\<close> is what the block held before.
\<close>

definition enlist_vm_freerg_list ::
    "mm_struct \<Rightarrow> vm_rg_struct \<Rightarrow> vm_rg_struct chain \<Rightarrow> (int \<times> mm_struct) res" where
  "enlist_vm_freerg_list M rg_elmt rg_link =
    bindr (vma_at M (Some 0)) (\<lambda>vma.
      let rg_node = vm_freerg_list vma in
      if rg_end rg_elmt \<le> rg_start rg_elmt then Inr (-1, M)
      else
        (let rg_next = (case rg_node of Null \<Rightarrow> rg_link | _ \<Rightarrow> rg_node)
         in bindr (vma_upd M (Some 0) (\<lambda>v. v\<lparr>vm_freerg_list := Node rg_elmt rg_next\<rparr>))
              (\<lambda>M. Inr (0, M))))"

text \<open>The pointer \<open>&symrgtbl[rgid]\<close>, as an index.\<close>

definition get_symrg_byid :: "mm_struct \<Rightarrow> int \<Rightarrow> int option" where
  "get_symrg_byid M rgid =
    (if rgid < 0 \<or> rgid > PAGING_MAX_SYMTBL_SZ then None else Some rgid)"

definition symrg_at :: "mm_struct \<Rightarrow> int option \<Rightarrow> vm_rg_struct res" where
  "symrg_at M p = (case p of None \<Rightarrow> Inl NullDeref | Some i \<Rightarrow> aget (symrgtbl M) i)"

definition set_symrg :: "mm_struct \<Rightarrow> int \<Rightarrow> u64 \<Rightarrow> u64 \<Rightarrow> mm_struct res" where
  "set_symrg M rgid s e =
    bindr (aset (symrgtbl M) rgid \<lparr>rg_start = s, rg_end = e\<rparr>) (\<lambda>t. Inr (M\<lparr>symrgtbl := t\<rparr>))"

text \<open>
  The search of \<open>get_free_vmrg_area\<close>: the position and content of \<open>best_fit\<close>. The sum
  \<open>rg_end - rg_start + 1\<close> and the comparison with \<open>size\<close> (here \<open>sz\<close>) are in \<open>unsigned long\<close>.
\<close>

fun best_fit_loop ::
    "int \<Rightarrow> vm_rg_struct chain \<Rightarrow> nat \<Rightarrow> (nat \<times> vm_rg_struct) option \<Rightarrow>
     (nat \<times> vm_rg_struct) option res" where
  "best_fit_loop sz Null n best = Inr best"
| "best_fit_loop sz Wild n best = Inl WildDeref"
| "best_fit_loop sz (Node rgit rg_next) n best =
     best_fit_loop sz rg_next (Suc n)
       (if rg_end rgit - rg_start rgit + 1 \<ge> u64_of_int sz then
          (case best of
             None \<Rightarrow> Some (n, rgit)
           | Some (_, b) \<Rightarrow> if rg_start rgit < rg_start b then Some (n, rgit) else best)
        else best)"

definition get_free_vmrg_area ::
    "caller \<Rightarrow> int \<Rightarrow> int \<Rightarrow> (int \<times> vm_rg_struct option \<times> caller) res" where
  "get_free_vmrg_area c vmaid sz =
    bindr (get_vma_by_num (mm c) vmaid) (\<lambda>p.
    bindr (vma_at (mm c) p) (\<lambda>cur_vma.
    case vm_freerg_list cur_vma of
      Null \<Rightarrow> Inr (-1, None, c)
    | _ \<Rightarrow>
        bindr (best_fit_loop sz (vm_freerg_list cur_vma) 0 None) (\<lambda>best_fit.
        case best_fit of
          None \<Rightarrow> Inr (-1, None, c)
        | Some (n, b) \<Rightarrow>
            bindr (chain_upd (vm_freerg_list cur_vma) n
                     (\<lambda>r. r\<lparr>rg_start := rg_start r + u64_of_int sz\<rparr>)) (\<lambda>l.
            bindr (vma_upd (mm c) p (\<lambda>v. v\<lparr>vm_freerg_list := l\<rparr>)) (\<lambda>M.
            Inr (0, Some \<lparr>rg_start = rg_start b, rg_end = rg_start b + u64_of_int sz\<rparr>,
                 c\<lparr>mm := M\<rparr>))))))"

section \<open>Allocating and freeing\<close>

text \<open>
  \<open>mm_alloc\<close> is \<open>__alloc\<close>. The result carries what it stored through \<open>alloc_addr\<close>. The block of
  \<open>left_rg\<close> comes from \<open>malloc\<close> and its link is not written before it is enlisted.
\<close>

definition mm_alloc ::
    "caller \<Rightarrow> int \<Rightarrow> int \<Rightarrow> int \<Rightarrow> (int \<times> int option \<times> caller) res" where
  "mm_alloc c vmaid rgid sz =
    bindr (get_free_vmrg_area c vmaid sz) (\<lambda>(rc, rgnode, c).
    case rgnode of
      Some r \<Rightarrow>
        bindr (set_symrg (mm c) rgid (rg_start r) (rg_end r)) (\<lambda>M.
        Inr (0, Some (int_of_u64 (rg_start r)), c\<lparr>mm := M\<rparr>))
    | None \<Rightarrow>
        bindr (get_vma_by_num (mm c) vmaid) (\<lambda>p.
        bindr (vma_at (mm c) p) (\<lambda>cur_vma.
          let inc_sz = PAGING_PAGE_ALIGNSZ sz;
              old_sbrk = int_of_u64 (sbrk cur_vma) in
        bindr (set_symrg (mm c) rgid (u64_of_int old_sbrk) (u64_of_int (i32 (old_sbrk + sz)))) (\<lambda>M.
          let c = c\<lparr>mm := M\<rparr> in
        bindr (if vm_end cur_vma - u64_of_int old_sbrk + 1 < u64_of_int inc_sz
               then sys_memmap c (memmap_regs SYSMEM_INC_OP vmaid inc_sz)
               else Inr (0, memmap_regs 0 0 0, c)) (\<lambda>(rc, _, c).
          if rc < 0 then Inr (-1, None, c)
          else
        bindr (vma_at (mm c) p) (\<lambda>cur_vma.
        bindr (if u64_of_int (i32 (old_sbrk + sz)) < sbrk cur_vma
               then enlist_vm_freerg_list (mm c)
                      \<lparr>rg_start = u64_of_int (i32 (old_sbrk + sz)), rg_end = sbrk cur_vma\<rparr> Wild
               else Inr (0, mm c)) (\<lambda>(_, M).
        Inr (0, Some old_sbrk, c\<lparr>mm := M\<rparr>))))))))"

text \<open>The loop of \<open>__free\<close>: the new region swallows the neighbours it meets.\<close>

fun coalesce ::
    "vm_rg_struct \<Rightarrow> vm_rg_struct chain \<Rightarrow> (vm_rg_struct \<times> vm_rg_struct chain) res" where
  "coalesce newrg Null = Inr (newrg, Null)"
| "coalesce newrg Wild = Inl WildDeref"
| "coalesce newrg (Node cur rg_next) =
     (if rg_end newrg = rg_start cur then coalesce (newrg\<lparr>rg_end := rg_end cur\<rparr>) rg_next
      else if rg_start newrg = rg_end cur then coalesce (newrg\<lparr>rg_start := rg_start cur\<rparr>) rg_next
      else bindr (coalesce newrg rg_next) (\<lambda>(n, rest). Inr (n, Node cur rest)))"

definition mm_free :: "caller \<Rightarrow> int \<Rightarrow> int \<Rightarrow> (int \<times> caller) res" where
  "mm_free c vmaid rgid =
    (if rgid < 0 \<or> rgid \<ge> PAGING_MAX_SYMTBL_SZ then Inr (-1, c)
     else
       bindr (symrg_at (mm c) (get_symrg_byid (mm c) rgid)) (\<lambda>rg.
       if rg_end rg \<le> rg_start rg then Inr (-1, c)
       else
         bindr (get_vma_by_num (mm c) vmaid) (\<lambda>p.
         bindr (vma_at (mm c) p) (\<lambda>vma.
         bindr (coalesce rg (vm_freerg_list vma)) (\<lambda>(newrg, rest).
         bindr (vma_upd (mm c) p (\<lambda>v. v\<lparr>vm_freerg_list := Node newrg rest\<rparr>)) (\<lambda>M.
         bindr (set_symrg M rgid 0 0) (\<lambda>M.
         Inr (0, c\<lparr>mm := M\<rparr>))))))))"

section \<open>The printed reports\<close>

fun print_free_list :: "vm_rg_struct chain \<Rightarrow> caller \<Rightarrow> caller res" where
  "print_free_list Null c = Inr c"
| "print_free_list Wild c = Inl WildDeref"
| "print_free_list (Node free_rg rg_next) c =
     print_free_list rg_next
       (if rg_start free_rg < rg_end free_rg
        then print_line F_free_rg [AL (rg_start free_rg), AL (rg_end free_rg)] c else c)"

text \<open>The heap report that ends \<open>liballoc\<close> and \<open>libfree\<close>.\<close>

definition print_heap :: "caller \<Rightarrow> caller res" where
  "print_heap c =
    bindr (print_pgtbl c 0 (u32_of_int (-1))) (\<lambda>(_, c).
    bindr (get_vma_by_num (mm c) 0) (\<lambda>p.
    bindr (vma_at (mm c) p) (\<lambda>vma.
      let c = print_line F_heap_info [] c;
          c = print_line F_heap_start [AL (vm_start vma)] c;
          c = print_line F_heap_end [AL (vm_end vma)] c;
          c = print_line F_heap_sbrk [AL (sbrk vma)] c;
          c = print_line F_free_list [] c in
    bindr (print_free_list (vm_freerg_list vma) c) (\<lambda>c.
    Inr (print_line F_rule [] c)))))"

definition liballoc :: "caller \<Rightarrow> u32 \<Rightarrow> u32 \<Rightarrow> (int \<times> caller) res" where
  "liballoc proc sz reg_index =
    bindr (mm_alloc proc 0 (int_of_u32 reg_index) (int_of_u32 sz)) (\<lambda>(val, addr, c).
      let c = print_line F_rule [] c;
          c = print_line F_alloc_head [AU (pid c), AU sz, AU reg_index] c in
    bindr (aget (symrgtbl (mm c)) (uint reg_index)) (\<lambda>rg.
      let c = print_line F_alloc_rg [AL (rg_start rg), AL (rg_end rg)] c;
          c = print_line F_alloc_mem [] c in
    case addr of
      None \<Rightarrow> Inl UninitRead
    | Some a \<Rightarrow>
        bindr (print_heap (print_line F_alloc_region [AU (pid c), AU reg_index, AI a, AU sz] c))
          (\<lambda>c. Inr (val, c))))"

definition libfree :: "caller \<Rightarrow> u32 \<Rightarrow> (int \<times> caller) res" where
  "libfree proc reg_index =
    (let c = print_line F_rule [] proc;
         c = print_line F_dealloc_head [AU (pid c), AU reg_index] c in
     bindr (mm_free c 0 (int_of_u32 reg_index)) (\<lambda>(val_free, c).
       let c = print_line F_dealloc_mem [] c;
           c = print_line F_dealloc_region [AU (pid c), AU reg_index] c in
     bindr (print_heap c) (\<lambda>c. Inr (val_free, c))))"

section \<open>Pages\<close>

text \<open>
  \<open>pg_getpage\<close> with its page fault path. \<open>vicpgn\<close> and \<open>swpfpn\<close> stay unset when there is no
  victim or no free swap frame, and are used all the same.
\<close>

definition pg_getpage :: "caller \<Rightarrow> int \<Rightarrow> (int \<times> int \<times> caller) res" where
  "pg_getpage c pgn =
    bindr (aget (pgd (mm c)) pgn) (\<lambda>pte.
    bindr
      (if PAGING_PAGE_PRESENT pte = 0 then
         bindr (find_victim_page (mm c)) (\<lambda>(_, vicpgn, M).
           let c = c\<lparr>mm := M\<rparr> in
         bindr (MEMPHY_get_freefp (active_mswp c)) (\<lambda>(_, swpfpn, swp).
           let c = c\<lparr>active_mswp := swp\<rparr> in
         case vicpgn of None \<Rightarrow> Inl UninitRead
         | Some vicpgn \<Rightarrow>
         bindr (aget (pgd (mm c)) vicpgn) (\<lambda>vicpte.
           let vicfpn = int_of_u32 (PAGING_FPN vicpte) in
         case swpfpn of None \<Rightarrow> Inl UninitRead
         | Some swpfpn \<Rightarrow>
         bindr (sys_memmap c (memmap_regs SYSMEM_SWP_OP vicfpn swpfpn)) (\<lambda>(_, _, c).
         bindr (pgd_modify (mm c) vicpgn (\<lambda>pte. snd (pte_set_swap pte 0 swpfpn))) (\<lambda>M.
           let c = c\<lparr>mm := M\<rparr>;
               tgtfpn = vicfpn;
               tgt_swpoff = int_of_u32 (PAGING_PTE_SWP pte) in
         bindr (sys_memmap c (memmap_regs SYSMEM_SWP_OP tgt_swpoff tgtfpn)) (\<lambda>(_, _, c).
         bindr (pgd_modify (mm c) pgn (\<lambda>pte. snd (pte_set_fpn pte tgtfpn))) (\<lambda>M.
         Inr (c\<lparr>mm := M\<lparr>fifo_pgn := snd (enlist_pgn_node (fifo_pgn M) pgn)\<rparr>\<rparr>))))))))
       else Inr c) (\<lambda>c.
    bindr (aget (pgd (mm c)) pgn) (\<lambda>pte.
    Inr (0, int_of_u32 (PAGING_FPN pte), c))))"

text \<open>The sum is in \<open>unsigned int\<close>, the product in \<open>int\<close>.\<close>

definition page_phyaddr :: "int \<Rightarrow> int \<Rightarrow> int" where
  "page_phyaddr fpn addr =
    int_of_u32 (u32_of_int (i32 (fpn * PAGING_PAGESZ)) + PAGING_OFFST (u32_of_int addr))"

definition pg_getval :: "caller \<Rightarrow> int \<Rightarrow> (int \<times> BYTE option \<times> caller) res" where
  "pg_getval c addr =
    (let pgn = int_of_u32 (PAGING_PGN (u32_of_int addr)) in
     bindr (pg_getpage c pgn) (\<lambda>(rc, fpn, c).
       if rc \<noteq> 0 then Inr (-1, None, c)
       else
         bindr (sys_memmap c (memmap_regs SYSMEM_IO_READ (page_phyaddr fpn addr) 0)) (\<lambda>(_, regs, c).
         Inr (0, Some (byte_of_u32 (a3 regs)), c))))"

definition pg_setval :: "caller \<Rightarrow> int \<Rightarrow> BYTE \<Rightarrow> (int \<times> caller) res" where
  "pg_setval c addr value =
    (let pgn = int_of_u32 (PAGING_PGN (u32_of_int addr)) in
     bindr (pg_getpage c pgn) (\<lambda>(rc, fpn, c).
       if rc \<noteq> 0 then Inr (-1, c)
       else
         bindr (sys_memmap c ((memmap_regs SYSMEM_IO_WRITE (page_phyaddr fpn addr) 0)
                  \<lparr>a3 := u32_of_byte value\<rparr>)) (\<lambda>(_, _, c).
         Inr (0, c))))"

section \<open>Reading and writing a region\<close>

definition mm_read :: "caller \<Rightarrow> int \<Rightarrow> int \<Rightarrow> int \<Rightarrow> (int \<times> BYTE option \<times> caller) res" where
  "mm_read c vmaid rgid offset =
    bindr (get_vma_by_num (mm c) vmaid) (\<lambda>cur_vma.
    case (get_symrg_byid (mm c) rgid, cur_vma) of
      (Some i, Some _) \<Rightarrow>
        bindr (symrg_at (mm c) (Some i)) (\<lambda>currg.
        bindr (pg_getval c (int_of_u64 (rg_start currg + u64_of_int offset))) (\<lambda>(_, data, c).
        Inr (0, data, c)))
    | _ \<Rightarrow> Inr (-1, None, c))"

definition mm_write :: "caller \<Rightarrow> int \<Rightarrow> int \<Rightarrow> int \<Rightarrow> BYTE \<Rightarrow> (int \<times> caller) res" where
  "mm_write c vmaid rgid offset value =
    bindr (get_vma_by_num (mm c) vmaid) (\<lambda>cur_vma.
    case (get_symrg_byid (mm c) rgid, cur_vma) of
      (Some i, Some _) \<Rightarrow>
        bindr (symrg_at (mm c) (Some i)) (\<lambda>currg.
        bindr (pg_setval c (int_of_u64 (rg_start currg + u64_of_int offset)) value) (\<lambda>(_, c).
        Inr (0, c)))
    | _ \<Rightarrow> Inr (-1, c))"

definition print_dump :: "caller \<Rightarrow> caller res" where
  "print_dump c = bindr (MEMPHY_dump (mram c) (stdout c)) (\<lambda>(_, out). Inr (c\<lparr>stdout := out\<rparr>))"

text \<open>The last component of the result is what was stored through \<open>destination\<close>.\<close>

definition libread :: "caller \<Rightarrow> u32 \<Rightarrow> u32 \<Rightarrow> (int \<times> u32 option \<times> caller) res" where
  "libread proc source offset =
    bindr (mm_read proc 0 (int_of_u32 source) (int_of_u32 offset)) (\<lambda>(val, data, c).
      let c = print_line F_rule [] c in
    case data of
      None \<Rightarrow> Inl UninitRead
    | Some d \<Rightarrow>
        bindr (print_pgtbl (print_line F_read [AU source, AU offset, AI (int_of_byte d)] c)
                 0 (u32_of_int (-1))) (\<lambda>(_, c).
        bindr (print_dump (print_line F_dump_start [] c)) (\<lambda>c.
        Inr (val, if val = 0 then Some (u32_of_byte d) else None,
             print_line F_rule [] (print_line F_dump_end [] c)))))"

definition libwrite :: "caller \<Rightarrow> BYTE \<Rightarrow> u32 \<Rightarrow> u32 \<Rightarrow> (int \<times> caller) res" where
  "libwrite proc data destination offset =
    bindr (symrg_at (mm proc) (get_symrg_byid (mm proc) (int_of_u32 destination))) (\<lambda>region.
      let vaddr = u32_of_u64 (rg_start region + u64_of_u32 offset);
          pgn = PAGING_PGN vaddr;
          page_offset = PAGING_OFFST vaddr in
    bindr (aget (pgd (mm proc)) (uint pgn)) (\<lambda>pte.
      let fpn = PAGING_FPN pte;
          phyaddr = fpn * u32_of_int PAGING_PAGESZ + page_offset;
          c = print_line F_rule [] proc;
          c = print_line F_write [AU destination, AU offset, AI (int_of_byte data)] c in
    bindr (print_pgtbl c 0 (u32_of_int (-1))) (\<lambda>(_, c).
      let c = print_line F_write_head [] c;
          c = print_line F_dump_before [] c in
    bindr (print_dump c) (\<lambda>c.
      let c = print_line F_dump_end [] c;
          c = print_line F_write_value [AI (int_of_byte data), AU phyaddr] c;
          c = print_line F_write_rule [] c;
          c = print_line F_rule [] c in
    mm_write c 0 (int_of_u32 destination) (int_of_u32 offset) data))))"

section \<open>Returning the frames of a process\<close>

definition free_pcb_memph :: "caller \<Rightarrow> (int \<times> caller) res" where
  "free_pcb_memph c =
    bindr (for_loop 0 (uint PAGING_MAX_PGN) (\<lambda>pagenum c.
      bindr (aget (pgd (mm c)) pagenum) (\<lambda>pte.
      if PAGING_PAGE_PRESENT pte = 0 then
        bindr (MEMPHY_put_freefp (mram c) (int_of_u32 (PAGING_PTE_FPN pte))) (\<lambda>(_, mp).
        Inr (c\<lparr>mram := mp\<rparr>))
      else
        bindr (MEMPHY_put_freefp (active_mswp c) (int_of_u32 (PAGING_PTE_SWP pte))) (\<lambda>(_, mp).
        Inr (c\<lparr>active_mswp := mp\<rparr>)))) c) (\<lambda>c. Inr (0, c))"

end
