(* ===== verification/Heap.thy ===== *)
theory Heap
  imports Libmem "HOL-Library.Multiset"
begin

text \<open>
  The regions of a process: the symbols and the free list of area 0 as sets of virtual
  addresses. \<open>heap_inv\<close> is what the allocator has to keep (regions within the break and pairwise
  disjoint); this theory shows when \<open>__alloc\<close> and \<open>__free\<close> of \<open>src/libmem.c\<close> keep it, and when
  they do not.
\<close>

section \<open>Regions as sets of addresses\<close>

definition reg :: "vm_rg_struct \<Rightarrow> int set" where
  "reg r = {uint (rg_start r)..<uint (rg_end r)}"

definition rlen :: "vm_rg_struct \<Rightarrow> int" where
  "rlen r = uint (rg_end r) - uint (rg_start r)"

definition region_ok :: "int \<Rightarrow> vm_rg_struct \<Rightarrow> bool" where
  "region_ok lim r \<longleftrightarrow> uint (rg_start r) \<le> uint (rg_end r) \<and> uint (rg_end r) \<le> lim"

definition disjr :: "vm_rg_struct \<Rightarrow> vm_rg_struct \<Rightarrow> bool" where
  "disjr r s \<longleftrightarrow> reg r \<inter> reg s = {}"

definition symbol :: "mm_struct \<Rightarrow> int \<Rightarrow> vm_rg_struct" where
  "symbol M i = acell (symrgtbl M) (nat i)"

definition symbols :: "mm_struct \<Rightarrow> vm_rg_struct list" where
  "symbols M = map (acell (symrgtbl M)) [0..<30]"

definition regions :: "mm_struct \<Rightarrow> vm_rg_struct list" where
  "regions M = symbols M @ free_regions M"

definition heap_inv :: "mm_struct \<Rightarrow> bool" where
  "heap_inv M \<longleftrightarrow> mm_ok M \<and> sorted_wrt disjr (regions M) \<and> (\<forall>r \<in> set (regions M). region_ok (brk M) r)"

lemma region_ok_mono: "region_ok l r \<Longrightarrow> l \<le> l' \<Longrightarrow> region_ok l' r"
  by (simp add: region_ok_def)

lemma ivl_eqD:
  assumes "{s..<e :: int} = {a..<b}" "a < b"
  shows "s = a \<and> e = b"
proof -
  have "a \<in> {s..<e}" "b - 1 \<in> {s..<e}" using assms by simp_all
  moreover from this have "s \<in> {a..<b}" "e - 1 \<in> {a..<b}" unfolding assms(1) [symmetric] by simp_all
  ultimately show ?thesis by simp
qed

lemma disjr_sym: "disjr r s = disjr s r"
  by (auto simp: disjr_def)

lemma sorted_wrt_disjr_remove:
  "sorted_wrt disjr (xs @ x # ys) \<longleftrightarrow> sorted_wrt disjr (xs @ ys) \<and> (\<forall>z \<in> set (xs @ ys). disjr x z)"
  by (auto simp: sorted_wrt_append disjr_sym)

lemma sorted_wrt_disjr_mset:
  "mset xs = mset ys \<Longrightarrow> sorted_wrt disjr xs = sorted_wrt disjr ys"
proof (induction xs arbitrary: ys)
  case Nil
  then show ?case by simp
next
  case (Cons x xs)
  then have "x \<in> set ys" by (metis list.set_intros(1) set_mset_mset)
  then obtain us vs where ys: "ys = us @ x # vs" by (metis split_list)
  with Cons.prems have m: "mset xs = mset (us @ vs)" by simp
  then have "set xs = set (us @ vs)" by (metis set_mset_mset)
  then show ?case using Cons.IH [OF m] unfolding ys sorted_wrt_disjr_remove by auto
qed

lemma regions_replace:
  assumes "mset (regions M) = mset (rs @ zs)" "mset (regions M') = mset (rs' @ zs)"
    and "heap_inv M" "mm_ok M'" "brk M \<le> brk M'"
    and "sorted_wrt disjr rs'" "\<forall>r \<in> set rs'. region_ok (brk M') r"
    and "\<forall>r \<in> set rs'. reg r \<subseteq> (\<Union>s \<in> set rs. reg s) \<union> {brk M..}"
  shows "heap_inv M'"
proof -
  have inv: "sorted_wrt disjr (rs @ zs)" "\<forall>r \<in> set (rs @ zs). region_ok (brk M) r"
    using assms(3) sorted_wrt_disjr_mset [OF assms(1)] mset_eq_setD [OF assms(1)]
    by (simp_all add: heap_inv_def)
  have "disjr r z" if "r \<in> set rs'" "z \<in> set zs" for r z
  proof -
    have "\<forall>s \<in> set rs. reg s \<inter> reg z = {}"
      using inv(1) that(2) by (auto simp: sorted_wrt_append disjr_def)
    moreover have "reg z \<inter> {brk M..} = {}"
    proof -
      have "region_ok (brk M) z" using inv(2) that(2) by simp
      then show ?thesis by (auto simp: region_ok_def reg_def)
    qed
    moreover have "reg r \<subseteq> (\<Union>s \<in> set rs. reg s) \<union> {brk M..}" using assms(8) that(1) by blast
    ultimately show ?thesis unfolding disjr_def by blast
  qed
  then have "sorted_wrt disjr (rs' @ zs)"
    using assms(6) inv(1) by (auto simp: sorted_wrt_append)
  moreover have "\<forall>r \<in> set (rs' @ zs). region_ok (brk M') r"
    using assms(7) inv(2) region_ok_mono [OF _ assms(5)] by auto
  ultimately show ?thesis
    using assms(4) sorted_wrt_disjr_mset [OF assms(2)] mset_eq_setD [OF assms(2)]
    by (simp add: heap_inv_def)
qed

section \<open>Updates of the descriptor\<close>

definition with_free :: "mm_struct \<Rightarrow> vm_rg_struct list \<Rightarrow> mm_struct" where
  "with_free M rs = M\<lparr>mmap := Node ((area M)\<lparr>vm_freerg_list := chain_of rs\<rparr>) Null\<rparr>"

definition with_sym :: "mm_struct \<Rightarrow> int \<Rightarrow> vm_rg_struct \<Rightarrow> mm_struct" where
  "with_sym M i r = M\<lparr>symrgtbl := CArray (alen (symrgtbl M)) ((acell (symrgtbl M))(nat i := r))\<rparr>"

named_theorems upd_simps "fields of the updated descriptors"

lemma with_free_fields [upd_simps]:
  "pgd (with_free M rs) = pgd M" "symrgtbl (with_free M rs) = symrgtbl M"
  "fifo_pgn (with_free M rs) = fifo_pgn M" "brk (with_free M rs) = brk M"
  "free_regions (with_free M rs) = rs" "symbols (with_free M rs) = symbols M"
  "symbol (with_free M rs) = symbol M"
  by (simp_all add: with_free_def brk_def free_regions_def symbols_def symbol_def fun_eq_iff)

lemma with_sym_fields [upd_simps]:
  "pgd (with_sym M i r) = pgd M" "mmap (with_sym M i r) = mmap M"
  "fifo_pgn (with_sym M i r) = fifo_pgn M" "brk (with_sym M i r) = brk M"
  "free_regions (with_sym M i r) = free_regions M" "area (with_sym M i r) = area M"
  by (simp_all add: with_sym_def brk_def free_regions_def area_def)

lemma symbols_with_sym [upd_simps]:
  assumes "0 \<le> i" "i < 30"
  shows "symbols (with_sym M i r) = (symbols M)[nat i := r]"
proof (rule nth_equalityI)
  show "symbols (with_sym M i r) ! n = (symbols M)[nat i := r] ! n"
    if "n < length (symbols (with_sym M i r))" for n
    using that by (simp add: symbols_def with_sym_def nth_list_update)
qed (simp add: symbols_def)

lemma symbol_with_sym [upd_simps]:
  "0 \<le> i \<Longrightarrow> 0 \<le> j \<Longrightarrow> symbol (with_sym M i r) j = (if j = i then r else symbol M j)"
  by (simp add: symbol_def with_sym_def nat_eq_iff)

lemma with_free_ok [upd_simps]: "mm_ok M \<Longrightarrow> rs \<noteq> [] \<Longrightarrow> mm_ok (with_free M rs)"
  by (erule mm_okE) (simp add: mm_ok_def with_free_def vma_ok_def PAGING_MAX_SYMTBL_SZ_def)

lemma with_sym_ok [upd_simps]: "mm_ok (with_sym M i r) = mm_ok M"
  by (simp add: mm_ok_def with_sym_def)

lemma set_symrg_in:
  assumes "mm_ok M" "0 \<le> i" "i < 30"
  shows "set_symrg M i s e = Inr (with_sym M i \<lparr>rg_start = s, rg_end = e\<rparr>)"
  using assms(1)
  by (rule mm_okE) (use assms(2,3) in \<open>simp add: set_symrg_def aset_def in_bounds_def with_sym_def\<close>)

lemma symrg_at_in:
  assumes "mm_ok M" "0 \<le> i" "i < 30"
  shows "symrg_at M (get_symrg_byid M i) = Inr (symbol M i)"
  using assms(1)
  by (rule mm_okE) (use assms(2,3) in \<open>simp add: symrg_at_def get_symrg_byid_def aget_def
      in_bounds_def symbol_def PAGING_MAX_SYMTBL_SZ_def\<close>)

lemma free_chain:
  assumes "mm_ok M"
  shows "vm_freerg_list (area M) = chain_of (free_regions M)" "free_regions M \<noteq> []"
  using assms by (auto elim!: mm_okE simp: vma_ok_def free_regions_def chain_of_nodes)

text \<open>What owns a frame depends on the page table and the break only.\<close>

lemma frame_inv_cong:
  assumes "pgd (mm c') = pgd (mm c)" "brk (mm c') = brk (mm c)" "mram c' = mram c"
  shows "frame_inv others c' = frame_inv others c"
  using assms by (simp add: frame_inv_def npages_def resident_def frame_list_def page_frame_def
      page_pte_def cong: map_cong)

section \<open>The search for a free region\<close>

definition fits :: "int \<Rightarrow> vm_rg_struct \<Rightarrow> bool" where
  "fits sz r \<longleftrightarrow> u64_of_int sz \<le> rg_end r - rg_start r + 1"

text \<open>The test accepts a region that is one byte too short.\<close>

lemma fits_iff:
  assumes "region_ok lim r" "lim \<le> 4194304" "0 \<le> sz" "sz < 2 ^ 63"
  shows "fits sz r \<longleftrightarrow> sz \<le> rlen r + 1"
proof -
  have b: "0 \<le> rlen r" "rlen r \<le> 4194304"
    using assms(1,2) uint_ge_0 [of "rg_start r"] unfolding region_ok_def rlen_def by linarith+
  have "rg_start r \<le> rg_end r" using assms(1) by (simp add: region_ok_def word_le_def)
  then have "uint (rg_end r - rg_start r) = rlen r"
    by (simp add: rlen_def uint_minus_simple_alt)
  then have "uint (rg_end r - rg_start r + 1) = rlen r + 1"
    using b by (simp add: uint_word_ariths)
  then show ?thesis using assms(3,4) by (simp add: fits_def word_le_def uint_u64_of_int)
qed

lemma best_fit_loop_chain:
  "\<exists>r. best_fit_loop sz (chain_of rs) n best = Inr r \<and>
     (r = None \<longleftrightarrow> best = None \<and> (\<forall>x \<in> set rs. \<not> fits sz x)) \<and>
     (\<forall>m b. r = Some (m, b) \<longrightarrow>
        (best = Some (m, b) \<or> (\<exists>k < length rs. m = n + k \<and> rs ! k = b \<and> fits sz b)) \<and>
        (\<forall>x \<in> set rs. fits sz x \<longrightarrow> rg_start b \<le> rg_start x) \<and>
        (\<forall>k d. best = Some (k, d) \<longrightarrow> rg_start b \<le> rg_start d))"
proof (induction rs arbitrary: n best)
  case Nil
  then show ?case by simp
next
  case (Cons x rs)
  let ?b = "if fits sz x then
          (case best of
             None \<Rightarrow> Some (n, x)
           | Some (_, b) \<Rightarrow> if rg_start x < rg_start b then Some (n, x) else best)
        else best"
  obtain r where r: "best_fit_loop sz (chain_of rs) (Suc n) ?b = Inr r"
    "r = None \<longleftrightarrow> ?b = None \<and> (\<forall>x \<in> set rs. \<not> fits sz x)"
    "\<And>m b. r = Some (m, b) \<Longrightarrow>
        (?b = Some (m, b) \<or> (\<exists>k < length rs. m = Suc n + k \<and> rs ! k = b \<and> fits sz b)) \<and>
        (\<forall>x \<in> set rs. fits sz x \<longrightarrow> rg_start b \<le> rg_start x) \<and>
        (\<forall>k d. ?b = Some (k, d) \<longrightarrow> rg_start b \<le> rg_start d)"
    using Cons.IH [of "Suc n" ?b] by blast
  have "best_fit_loop sz (chain_of (x # rs)) n best = Inr r"
    using r(1) by (simp add: fits_def)
  moreover have "r = None \<longleftrightarrow> best = None \<and> (\<forall>x \<in> set (x # rs). \<not> fits sz x)"
    unfolding r(2) by (auto split: option.splits)
  moreover have "(best = Some (m, b) \<or> (\<exists>k < length (x # rs). m = n + k \<and> (x # rs) ! k = b \<and> fits sz b)) \<and>
        (\<forall>y \<in> set (x # rs). fits sz y \<longrightarrow> rg_start b \<le> rg_start y) \<and>
        (\<forall>k d. best = Some (k, d) \<longrightarrow> rg_start b \<le> rg_start d)" if m: "r = Some (m, b)" for m b
  proof -
    note R = r(3) [OF m]
    have "best = Some (m, b) \<or> (\<exists>k < length (x # rs). m = n + k \<and> (x # rs) ! k = b \<and> fits sz b)"
    proof (cases "?b = Some (m, b)")
      case True
      then show ?thesis by (auto split: if_splits option.splits)
    next
      case False
      with R obtain k where "k < length rs" "m = Suc n + k" "rs ! k = b" "fits sz b" by blast
      then show ?thesis by (intro disjI2 exI [of _ "Suc k"]) simp
    qed
    moreover have "rg_start b \<le> rg_start y" if "y \<in> set (x # rs)" "fits sz y" for y
      using R that by (auto split: option.splits if_splits)
    moreover have "rg_start b \<le> rg_start d" if "best = Some (k, d)" for k d
      using R that by (auto split: if_splits)
    ultimately show ?thesis by blast
  qed
  ultimately show ?case by blast
qed

lemma best_fit_found:
  assumes "\<exists>x \<in> set rs. fits sz x"
  obtains n where "best_fit_loop sz (chain_of rs) 0 None = Inr (Some (n, rs ! n))" "n < length rs"
    "fits sz (rs ! n)" "\<forall>x \<in> set rs. fits sz x \<longrightarrow> rg_start (rs ! n) \<le> rg_start x"
proof -
  obtain r where r: "best_fit_loop sz (chain_of rs) 0 None = Inr r" "r \<noteq> None"
    "\<And>m b. r = Some (m, b) \<Longrightarrow> (\<exists>k < length rs. m = k \<and> rs ! k = b \<and> fits sz b) \<and>
        (\<forall>x \<in> set rs. fits sz x \<longrightarrow> rg_start b \<le> rg_start x)"
    using best_fit_loop_chain [of sz rs 0 None] assms by auto
  from r(2) obtain m b where mb: "r = Some (m, b)" by auto
  with r(1,3) that show thesis by auto
qed

lemma best_fit_none:
  assumes "\<forall>x \<in> set rs. \<not> fits sz x"
  shows "best_fit_loop sz (chain_of rs) 0 None = Inr None"
  using best_fit_loop_chain [of sz rs 0 None] assms by auto

text \<open>The region taken from the front of a free region, and what is left of it.\<close>

definition taken :: "int \<Rightarrow> vm_rg_struct \<Rightarrow> vm_rg_struct" where
  "taken sz r = \<lparr>rg_start = rg_start r, rg_end = rg_start r + u64_of_int sz\<rparr>"

definition rest_of :: "int \<Rightarrow> vm_rg_struct \<Rightarrow> vm_rg_struct" where
  "rest_of sz r = r\<lparr>rg_start := rg_start r + u64_of_int sz\<rparr>"

lemma get_free_vmrg_area_unfold:
  assumes "mm_ok (mm c)" "vmaid \<le> 0"
  shows "get_free_vmrg_area c vmaid sz =
    bindr (best_fit_loop sz (chain_of (free_regions (mm c))) 0 None) (\<lambda>best_fit.
      case best_fit of
        None \<Rightarrow> Inr (-1, None, c)
      | Some (n, b) \<Rightarrow>
          bindr (chain_upd (chain_of (free_regions (mm c))) n (rest_of sz)) (\<lambda>l.
          Inr (0, Some (taken sz b), c\<lparr>mm := (mm c)\<lparr>mmap := Node ((area (mm c))\<lparr>vm_freerg_list := l\<rparr>) Null\<rparr>\<rparr>)))"
proof -
  obtain r rs where rs: "free_regions (mm c) = r # rs"
    using free_chain(2) [OF assms(1)] by (cases "free_regions (mm c)") auto
  have l: "vm_freerg_list (area (mm c)) = Node r (chain_of rs)"
    using free_chain(1) [OF assms(1)] rs by simp
  show ?thesis
    using get_vma_0 [OF assms] vma_at_0 [OF assms(1)] vma_upd_0 [OF assms(1)]
    by (simp add: get_free_vmrg_area_def l rs taken_def rest_of_def [abs_def] del: best_fit_loop.simps
        chain_upd.simps cong: option.case_cong)
qed

lemma get_free_vmrg_area_hole:
  assumes "mm_ok (mm c)" "vmaid \<le> 0" "\<exists>x \<in> set (free_regions (mm c)). fits sz x"
  obtains n where "n < length (free_regions (mm c))" "fits sz (free_regions (mm c) ! n)"
    "\<forall>x \<in> set (free_regions (mm c)). fits sz x \<longrightarrow>
       rg_start (free_regions (mm c) ! n) \<le> rg_start x"
    "get_free_vmrg_area c vmaid sz = Inr (0, Some (taken sz (free_regions (mm c) ! n)),
       c\<lparr>mm := with_free (mm c) ((free_regions (mm c))[n := rest_of sz (free_regions (mm c) ! n)])\<rparr>)"
proof -
  let ?rs = "free_regions (mm c)"
  obtain n where n: "best_fit_loop sz (chain_of ?rs) 0 None = Inr (Some (n, ?rs ! n))" "n < length ?rs"
    "fits sz (?rs ! n)" "\<forall>x \<in> set ?rs. fits sz x \<longrightarrow> rg_start (?rs ! n) \<le> rg_start x"
    using assms(3) by (rule best_fit_found)
  have "get_free_vmrg_area c vmaid sz = Inr (0, Some (taken sz (?rs ! n)),
       c\<lparr>mm := with_free (mm c) (?rs[n := rest_of sz (?rs ! n)])\<rparr>)"
    by (simp add: get_free_vmrg_area_unfold [OF assms(1,2)] n(1) chain_upd_chain_of [OF n(2)]
        with_free_def)
  with n that show thesis by blast
qed

lemma get_free_vmrg_area_none:
  assumes "mm_ok (mm c)" "vmaid \<le> 0" "\<forall>x \<in> set (free_regions (mm c)). \<not> fits sz x"
  shows "get_free_vmrg_area c vmaid sz = Inr (-1, None, c)"
  by (simp add: get_free_vmrg_area_unfold [OF assms(1,2)] best_fit_none [OF assms(3)])

section \<open>Allocation\<close>

lemma mm_alloc_hole:
  assumes "mm_ok (mm c)" "0 \<le> rgid" "rgid < 30" "\<exists>x \<in> set (free_regions (mm c)). fits sz x"
  obtains n where "n < length (free_regions (mm c))" "fits sz (free_regions (mm c) ! n)"
    "\<forall>x \<in> set (free_regions (mm c)). fits sz x \<longrightarrow>
       rg_start (free_regions (mm c) ! n) \<le> rg_start x"
    "mm_alloc c 0 rgid sz = Inr (0, Some (int_of_u64 (rg_start (free_regions (mm c) ! n))),
       c\<lparr>mm := with_sym (with_free (mm c)
         ((free_regions (mm c))[n := rest_of sz (free_regions (mm c) ! n)]))
         rgid (taken sz (free_regions (mm c) ! n))\<rparr>)"
proof -
  let ?rs = "free_regions (mm c)"
  obtain n where n: "n < length ?rs" "fits sz (?rs ! n)"
    "\<forall>x \<in> set ?rs. fits sz x \<longrightarrow> rg_start (?rs ! n) \<le> rg_start x"
    "get_free_vmrg_area c 0 sz = Inr (0, Some (taken sz (?rs ! n)),
       c\<lparr>mm := with_free (mm c) (?rs[n := rest_of sz (?rs ! n)])\<rparr>)"
    using get_free_vmrg_area_hole [OF assms(1) _ assms(4), of 0] by auto
  have "?rs[n := rest_of sz (?rs ! n)] \<noteq> []" using n(1) by auto
  then have "mm_ok (with_free (mm c) (?rs[n := rest_of sz (?rs ! n)]))"
    by (rule with_free_ok [OF assms(1)])
  then have "mm_alloc c 0 rgid sz = Inr (0, Some (int_of_u64 (rg_start (?rs ! n))),
       c\<lparr>mm := with_sym (with_free (mm c) (?rs[n := rest_of sz (?rs ! n)])) rgid (taken sz (?rs ! n))\<rparr>)"
    by (simp add: mm_alloc_def n(4) set_symrg_in assms(2,3)) (simp add: taken_def)
  with n that show thesis by blast
qed

lemma u64_of_int_i32_small:
  "0 \<le> x \<Longrightarrow> x < 2147483648 \<Longrightarrow> uint (u64_of_int (i32 x)) = x"
  by (simp add: i32_small uint_u64_of_int)

lemma enlist_vm_freerg_list_ok:
  assumes "mm_ok M"
  shows "enlist_vm_freerg_list M r l =
    (if rg_end r \<le> rg_start r then Inr (-1, M)
     else Inr (0, with_free M (r # free_regions M)))"
proof -
  obtain x xs where xs: "free_regions M = x # xs"
    using free_chain(2) [OF assms] by (cases "free_regions M") auto
  then show ?thesis
    using vma_at_0 [OF assms] vma_upd_0 [OF assms] free_chain(1) [OF assms]
    by (simp add: enlist_vm_freerg_list_def with_free_def Let_def)
qed

lemma mm_alloc_grow:
  assumes ok: "mm_ok (mm c)" and inv: "frame_inv others c" and id: "0 \<le> rgid" "rgid < 30"
    and sz: "0 < sz" "sz \<le> 4194304"
    and none: "\<forall>x \<in> set (free_regions (mm c)). \<not> fits sz x"
    and room: "brk (mm c) + PAGING_PAGE_ALIGNSZ sz \<le> 4194304"
    and fr: "nat (PAGING_PAGE_ALIGNSZ sz div 256) \<le> length (frames (mram c))"
  shows "\<exists>c1 r. let b = brk (mm c); amt = PAGING_PAGE_ALIGNSZ sz in
    uint (rg_start r) = b \<and> uint (rg_end r) = b + sz \<and>
    mm_ok (mm c1) \<and> frame_inv others c1 \<and> grown (c\<lparr>mm := with_sym (mm c) rgid r\<rparr>) amt c1 \<and>
    mm_alloc c 0 rgid sz = Inr (0, Some b,
      if sz < amt
      then c1\<lparr>mm := with_free (mm c1)
             (\<lparr>rg_start = rg_end r, rg_end = u64_of_int (b + amt)\<rparr> # free_regions (mm c))\<rparr>
      else c1)"
proof -
  let ?M = "mm c" and ?b = "brk (mm c)" and ?amt = "PAGING_PAGE_ALIGNSZ sz"
  let ?r = "\<lparr>rg_start = u64_of_int ?b, rg_end = u64_of_int (i32 (?b + sz))\<rparr>"
  let ?c0 = "c\<lparr>mm := with_sym ?M rgid ?r\<rparr>"
  have b: "0 \<le> ?b" "?b \<le> 4194304" using brk_range [OF ok] by auto
  have amt: "sz \<le> ?amt" "?amt \<le> 4194304" "256 dvd ?amt"
    using align_bounds [of sz] sz room b(1) by auto
  have r: "uint (rg_start ?r) = ?b" "uint (rg_end ?r) = ?b + sz"
    using b sz by (simp_all add: uint_u64_of_int u64_of_int_i32_small)
  have al: "PAGING_PAGE_ALIGNSZ ?amt = ?amt"
  proof -
    have "(?amt + 255) div 256 * 256 = ?amt" using amt(3) by (auto elim!: dvdE)
    then show ?thesis using align_eq [of ?amt] amt sz by simp
  qed
  have inv0: "frame_inv others ?c0" using inv by (simp add: frame_inv_cong [of ?c0 c] upd_simps)
  obtain c1 where c1: "inc_vma_limit ?c0 0 ?amt = Inr (0, c1)" "mm_ok (mm c1)" "frame_inv others c1"
      "grown ?c0 ?amt c1"
    using inc_vma_limit_grows [of ?c0 others 0 ?amt] ok inv0 amt sz room fr
    by (auto simp: al upd_simps)
  have brk1: "brk (mm c1) = ?b + ?amt" "free_regions (mm c1) = free_regions ?M"
    using c1(4) by (simp_all add: grown_def upd_simps)
  have old: "int_of_u64 (sbrk (area ?M)) = ?b" using ok by (simp add: area_sbrk int_of_u64_brk)
  have cond: "vm_end (area ?M) - u64_of_int ?b + 1 < u64_of_int ?amt"
    using zdvd_imp_le [OF amt(3)] amt sz by (simp add: u64_of_int_brk [OF ok] word_less_def uint_u64_of_int)
  have call: "sys_memmap ?c0 (memmap_regs SYSMEM_INC_OP 0 ?amt) =
      Inr (0, memmap_regs SYSMEM_INC_OP 0 ?amt, c1)"
    using c1(1) amt sz by (simp add: sys_memmap_inc i32_small)
  have s1: "uint (sbrk (area (mm c1))) = ?b + ?amt"
    by (simp only: brk_def [symmetric] area_sbrk [OF c1(2)] brk1(1))
  have s2: "sbrk (area (mm c1)) = u64_of_int (?b + ?amt)"
    by (simp only: area_sbrk [OF c1(2)] u64_of_int_brk [OF c1(2), symmetric] brk1(1))
  have "mm_alloc c 0 rgid sz = Inr (0, Some ?b,
      if sz < ?amt
      then c1\<lparr>mm := with_free (mm c1)
             (\<lparr>rg_start = rg_end ?r, rg_end = u64_of_int (?b + ?amt)\<rparr> # free_regions ?M)\<rparr>
      else c1)"
    using get_vma_0 [OF ok] vma_at_0 [OF ok] vma_at_0 [OF c1(2)] cond call ok
      enlist_vm_freerg_list_ok [OF c1(2)] s1 brk1(2) b sz amt s2 [symmetric]
    by (simp add: mm_alloc_def get_free_vmrg_area_none [OF ok _ none] old Let_def set_symrg_in id
        word_less_def word_le_def u64_of_int_i32_small)
  then show ?thesis using c1 r by (intro exI [of _ c1] exI [of _ ?r]) (simp add: Let_def)
qed

lemma regions_sym:
  assumes "0 \<le> i" "i < 30"
  shows "mset (regions (with_sym M i r)) = mset (r # without (nat i) (symbols M) @ free_regions M)"
    "mset (regions M) = mset (symbol M i # without (nat i) (symbols M) @ free_regions M)"
proof -
  have n: "nat i < length (symbols M)" using assms by (simp add: symbols_def)
  then have at: "symbols M ! nat i = symbol M i" by (simp add: symbols_def symbol_def)
  show "mset (regions (with_sym M i r)) = mset (r # without (nat i) (symbols M) @ free_regions M)"
    using mset_update_without [OF n, of r] assms by (simp add: regions_def upd_simps)
  show "mset (regions M) = mset (symbol M i # without (nat i) (symbols M) @ free_regions M)"
    using mset_without [OF n] at by (simp add: regions_def)
qed

lemma region_split:
  assumes "region_ok lim h" "lim \<le> 4194304" "0 \<le> sz" "sz \<le> rlen h"
  shows "reg (taken sz h) = {uint (rg_start h)..<uint (rg_start h) + sz}"
    "reg (rest_of sz h) = {uint (rg_start h) + sz..<uint (rg_end h)}"
    "region_ok lim (taken sz h)" "region_ok lim (rest_of sz h)"
proof -
  have b: "0 \<le> uint (rg_start h)" "uint (rg_start h) + sz \<le> uint (rg_end h)" "uint (rg_end h) \<le> lim"
    using assms by (simp_all add: region_ok_def rlen_def)
  then have "uint (rg_start h + u64_of_int sz) = uint (rg_start h) + sz"
    using assms by (intro u64_add_small) linarith+
  then show "reg (taken sz h) = {uint (rg_start h)..<uint (rg_start h) + sz}"
    "reg (rest_of sz h) = {uint (rg_start h) + sz..<uint (rg_end h)}"
    "region_ok lim (taken sz h)" "region_ok lim (rest_of sz h)"
    using b assms(3) by (simp_all add: taken_def rest_of_def reg_def region_ok_def)
qed

lemma heap_inv_free_ok:
  "heap_inv M \<Longrightarrow> r \<in> set (free_regions M) \<Longrightarrow> region_ok (brk M) r"
  by (simp add: heap_inv_def regions_def)

text \<open>Taking from a free region that is long enough keeps the regions disjoint.\<close>

lemma heap_inv_take:
  assumes inv: "heap_inv M" and id: "0 \<le> rgid" "rgid < 30" and n: "n < length (free_regions M)"
    and sz: "0 \<le> sz" "sz \<le> rlen (free_regions M ! n)"
  shows "heap_inv (with_sym (with_free M ((free_regions M)[n := rest_of sz (free_regions M ! n)]))
           rgid (taken sz (free_regions M ! n)))"
    (is "heap_inv ?M'")
proof -
  let ?rs = "free_regions M" and ?h = "free_regions M ! n"
  let ?zs = "without (nat rgid) (symbols M) @ without n ?rs"
  have ok: "mm_ok M" using inv by (simp add: heap_inv_def)
  have brk: "brk M \<le> 4194304" using brk_range [OF ok] by simp
  have h: "region_ok (brk M) ?h" using heap_inv_free_ok [OF inv] n by simp
  note split = region_split [OF h brk sz]
  have m: "mset (regions M) = mset ([symbol M rgid, ?h] @ ?zs)"
    using regions_sym(2) [OF id, of M] mset_without [OF n] by simp
  have m': "mset (regions ?M') = mset ([taken sz ?h, rest_of sz ?h] @ ?zs)"
    using regions_sym(1) [OF id, of "with_free M (?rs[n := rest_of sz ?h])"] mset_update_without [OF n]
    by (simp add: upd_simps)
  have "?rs[n := rest_of sz ?h] \<noteq> []" using n by auto
  then have ok': "mm_ok ?M'" by (simp add: upd_simps ok)
  show ?thesis
    by (rule regions_replace [OF m m' inv ok'])
      (use split sz in \<open>auto simp: upd_simps disjr_def reg_def rlen_def\<close>)
qed

lemma heap_inv_grown:
  assumes inv: "heap_inv M" and id: "0 \<le> rgid" "rgid < 30" and ok: "mm_ok M'"
    and same: "symbols M' = (symbols M)[nat rgid := r]" "free_regions M' = ls @ free_regions M"
    and brk: "brk M' = brk M + amt" and sz: "0 \<le> sz" "sz \<le> amt"
    and r: "uint (rg_start r) = brk M" "uint (rg_end r) = brk M + sz"
    and ls: "ls = [] \<or> (\<exists>l. ls = [l] \<and> uint (rg_start l) = brk M + sz \<and> uint (rg_end l) = brk M + amt)"
  shows "heap_inv M'"
proof -
  let ?zs = "without (nat rgid) (symbols M) @ free_regions M"
  have n: "nat rgid < length (symbols M)" using id by (simp add: symbols_def)
  have m: "mset (regions M) = mset ([symbol M rgid] @ ?zs)"
    using regions_sym(2) [OF id, of M] by simp
  have m': "mset (regions M') = mset ((r # ls) @ ?zs)"
    using mset_update_without [OF n, of r] same by (simp add: regions_def)
  show ?thesis
    by (rule regions_replace [OF m m' inv ok])
      (use ls r sz brk in \<open>auto simp: disjr_def reg_def region_ok_def\<close>)
qed

section \<open>Freeing\<close>

lemma coalesce_chain:
  assumes "sorted_wrt disjr (r # rs)" "\<forall>s \<in> set (r # rs). region_ok lim s"
  shows "\<exists>r' rest. coalesce r (chain_of rs) = Inr (r', chain_of rest) \<and>
    sorted_wrt disjr (r' # rest) \<and> (\<forall>s \<in> set (r' # rest). region_ok lim s) \<and>
    (\<Union>s \<in> set (r' # rest). reg s) = (\<Union>s \<in> set (r # rs). reg s) \<and> reg r \<subseteq> reg r' \<and>
    set rest \<subseteq> set rs"
  using assms
proof (induction rs arbitrary: r)
  case Nil
  then show ?case by (intro exI [of _ r] exI [of _ "[]"]) simp
next
  case (Cons s rs)
  have ok: "region_ok lim r" "region_ok lim s" using Cons.prems by simp_all
  show ?case
  proof (cases "rg_end r = rg_start s \<or> rg_start r = rg_end s")
    case True
    define t where "t = (if rg_end r = rg_start s then r\<lparr>rg_end := rg_end s\<rparr> else r\<lparr>rg_start := rg_start s\<rparr>)"
    have t: "reg t = reg r \<union> reg s" "region_ok lim t"
      using True ok by (auto simp: t_def reg_def region_ok_def)
    have "\<forall>x \<in> set rs. disjr t x" using Cons.prems(1) t(1) by (auto simp: disjr_def)
    then have "sorted_wrt disjr (t # rs)" "\<forall>s \<in> set (t # rs). region_ok lim s"
      using Cons.prems t(2) by simp_all
    from Cons.IH [OF this] obtain r' rest where
      "coalesce t (chain_of rs) = Inr (r', chain_of rest)" "sorted_wrt disjr (r' # rest)"
      "\<forall>s \<in> set (r' # rest). region_ok lim s"
      "(\<Union>s \<in> set (r' # rest). reg s) = (\<Union>s \<in> set (t # rs). reg s)" "reg t \<subseteq> reg r'"
      "set rest \<subseteq> set rs"
      by blast
    moreover have "coalesce r (chain_of (s # rs)) = coalesce t (chain_of rs)"
      using True by (auto simp: t_def)
    ultimately show ?thesis using t(1) by (intro exI [of _ r'] exI [of _ rest]) auto
  next
    case False
    have "sorted_wrt disjr (r # rs)" "\<forall>s \<in> set (r # rs). region_ok lim s"
      using Cons.prems by auto
    from Cons.IH [OF this] obtain r' rest where IH:
      "coalesce r (chain_of rs) = Inr (r', chain_of rest)" "sorted_wrt disjr (r' # rest)"
      "\<forall>s \<in> set (r' # rest). region_ok lim s"
      "(\<Union>s \<in> set (r' # rest). reg s) = (\<Union>s \<in> set (r # rs). reg s)" "reg r \<subseteq> reg r'"
      "set rest \<subseteq> set rs"
      by blast
    have "reg s \<inter> (\<Union>z \<in> set (r # rs). reg z) = {}"
      using Cons.prems(1) by (auto simp: disjr_def)
    then have "\<forall>z \<in> set (r' # rest). disjr s z"
      unfolding IH(4) [symmetric] by (auto simp: disjr_def)
    then have "sorted_wrt disjr (r' # s # rest)" using IH(2) by (auto simp: disjr_sym)
    moreover have "coalesce r (chain_of (s # rs)) = Inr (r', chain_of (s # rest))"
      using False IH(1) by simp
    ultimately show ?thesis
      using IH ok by (intro exI [of _ r'] exI [of _ "s # rest"]) auto
  qed
qed

text \<open>
  Two regions touch when one ends where the other starts; a free list without such a pair cannot be
  merged any further. One pass over a list of that kind leaves one of that kind, with the new region
  in front, although \<open>coalesce\<close> does not look again at the regions it has passed.
\<close>

definition touch :: "vm_rg_struct \<Rightarrow> vm_rg_struct \<Rightarrow> bool" where
  "touch r s \<longleftrightarrow> rg_end r = rg_start s \<or> rg_end s = rg_start r"

definition spaced :: "vm_rg_struct list \<Rightarrow> bool" where
  "spaced rs \<longleftrightarrow> sorted_wrt (\<lambda>r s. \<not> touch r s) rs"

lemma spaced_simps [simp]:
  "spaced []" "spaced (r # rs) \<longleftrightarrow> (\<forall>s \<in> set rs. \<not> touch r s) \<and> spaced rs"
  by (simp_all add: spaced_def)

lemma coalesce_spaced:
  assumes "spaced rs" "coalesce r (chain_of rs) = Inr (r', chain_of rest)"
  shows "spaced (r' # rest) \<and> set rest \<subseteq> set rs \<and>
    rg_start r' \<in> rg_start ` set (r # rs) \<and> rg_end r' \<in> rg_end ` set (r # rs)"
  using assms
proof (induction rs arbitrary: r rest)
  case Nil
  then show ?case by (cases rest) auto
next
  case (Cons s rs)
  show ?case
  proof (cases "rg_end r = rg_start s \<or> rg_start r = rg_end s")
    case True
    define t where "t = (if rg_end r = rg_start s then r\<lparr>rg_end := rg_end s\<rparr> else r\<lparr>rg_start := rg_start s\<rparr>)"
    have "coalesce t (chain_of rs) = Inr (r', chain_of rest)"
      using Cons.prems(2) True by (auto simp: t_def)
    from Cons.IH [OF _ this] Cons.prems(1) show ?thesis by (auto simp: t_def split: if_splits)
  next
    case False
    then obtain c where c: "coalesce r (chain_of rs) = Inr (r', c)" "chain_of rest = Node s c"
      using Cons.prems(2) by (auto simp: bindr_eq_Inr_iff)
    then obtain zs where zs: "rest = s # zs" "c = chain_of zs" by (cases rest) simp_all
    have IH: "spaced (r' # zs)" "set zs \<subseteq> set rs" "rg_start r' \<in> rg_start ` set (r # rs)" "rg_end r' \<in> rg_end ` set (r # rs)"
      using Cons.IH [of r zs] Cons.prems(1) c(1) zs(2) by auto
    have "rg_start s \<noteq> rg_end z \<and> rg_end s \<noteq> rg_start z" if "z \<in> set (r # rs)" for z
      using that Cons.prems(1) False by (auto simp: touch_def)
    then have "rg_start s \<notin> rg_end ` set (r # rs)" "rg_end s \<notin> rg_start ` set (r # rs)" by blast+
    then have "\<not> touch r' s" using IH(3,4) unfolding touch_def by metis
    moreover have "\<forall>z \<in> set zs. \<not> touch s z" using IH(2) Cons.prems(1) by auto
    ultimately show ?thesis using IH zs(1) by auto
  qed
qed

lemma mm_free_run:
  assumes inv: "heap_inv (mm c)" and id: "0 \<le> rgid" "rgid < 30"
    and live: "reg (symbol (mm c) rgid) \<noteq> {}"
  obtains r' rest where "coalesce (symbol (mm c) rgid) (chain_of (free_regions (mm c))) =
      Inr (r', chain_of rest)"
    "mm_free c 0 rgid = Inr (0, c\<lparr>mm := with_sym (with_free (mm c) (r' # rest)) rgid
       \<lparr>rg_start = 0, rg_end = 0\<rparr>\<rparr>)"
    "sorted_wrt disjr (r' # rest)" "\<forall>s \<in> set (r' # rest). region_ok (brk (mm c)) s"
    "(\<Union>s \<in> set (r' # rest). reg s) = reg (symbol (mm c) rgid) \<union> (\<Union>s \<in> set (free_regions (mm c)). reg s)"
    "spaced (free_regions (mm c)) \<Longrightarrow> spaced (r' # rest)"
proof -
  let ?M = "mm c" and ?s = "symbol (mm c) rgid"
  let ?zs = "without (nat rgid) (symbols ?M)"
  have ok: "mm_ok ?M" using inv by (simp add: heap_inv_def)
  have "sorted_wrt disjr (?s # ?zs @ free_regions ?M)"
    using inv sorted_wrt_disjr_mset [OF regions_sym(2) [OF id, of ?M]] by (simp add: heap_inv_def)
  then have disj: "sorted_wrt disjr (?s # free_regions ?M)"
    by (auto simp: sorted_wrt_append)
  have lims: "\<forall>s \<in> set (?s # free_regions ?M). region_ok (brk ?M) s"
    using inv mset_eq_setD [OF regions_sym(2) [OF id, of ?M]] by (simp add: heap_inv_def)
  obtain r' rest where co: "coalesce ?s (chain_of (free_regions ?M)) = Inr (r', chain_of rest)"
    "sorted_wrt disjr (r' # rest)" "\<forall>s \<in> set (r' # rest). region_ok (brk ?M) s"
    "(\<Union>s \<in> set (r' # rest). reg s) = (\<Union>s \<in> set (?s # free_regions ?M). reg s)"
    using coalesce_chain [OF disj lims] by blast
  have "rg_start ?s < rg_end ?s"
    using live by (auto simp: reg_def word_less_def)
  then have "mm_free c 0 rgid = Inr (0, c\<lparr>mm := with_sym (with_free ?M (r' # rest)) rgid
       \<lparr>rg_start = 0, rg_end = 0\<rparr>\<rparr>)"
    using id ok co(1) get_vma_0 [OF ok] vma_at_0 [OF ok] vma_upd_0 [OF ok] free_chain(1) [OF ok]
      set_symrg_in [OF with_free_ok [OF ok, of "r' # rest"] id]
    by (simp add: mm_free_def PAGING_MAX_SYMTBL_SZ_def symrg_at_in with_free_def)
  moreover have "spaced (r' # rest)" if "spaced (free_regions ?M)"
    using coalesce_spaced [OF that co(1)] by blast
  ultimately show thesis using co that by simp
qed

lemma heap_inv_freed:
  assumes inv: "heap_inv M" and id: "0 \<le> rgid" "rgid < 30"
    and rest: "sorted_wrt disjr rs" "\<forall>s \<in> set rs. region_ok (brk M) s" "rs \<noteq> []"
    and cover: "(\<Union>s \<in> set rs. reg s) = reg (symbol M rgid) \<union> (\<Union>s \<in> set (free_regions M). reg s)"
  shows "heap_inv (with_sym (with_free M rs) rgid \<lparr>rg_start = 0, rg_end = 0\<rparr>)" (is "heap_inv ?M'")
proof -
  let ?zs = "without (nat rgid) (symbols M)" and ?e = "\<lparr>rg_start = 0, rg_end = 0\<rparr> :: vm_rg_struct"
  have ok: "mm_ok M" using inv by (simp add: heap_inv_def)
  have m: "mset (regions M) = mset ((symbol M rgid # free_regions M) @ ?zs)"
    using regions_sym(2) [OF id, of M] by simp
  have m': "mset (regions ?M') = mset ((?e # rs) @ ?zs)"
    using regions_sym(1) [OF id, of "with_free M rs" ?e] by (simp add: upd_simps)
  have ok': "mm_ok ?M'" using ok rest(3) by (simp add: upd_simps)
  have e: "reg ?e = {}" "region_ok (brk M) ?e"
    using brk_range [OF ok] by (simp_all add: reg_def region_ok_def)
  show ?thesis
    by (rule regions_replace [OF m m' inv ok'])
      (use rest e cover in \<open>auto simp: upd_simps disjr_def\<close>)
qed

text \<open>Two symbols that share an address break the invariant.\<close>

lemma heap_inv_symbols:
  assumes inv: "heap_inv M" and ij: "0 \<le> i" "i < 30" "0 \<le> j" "j < 30" "i \<noteq> j"
  shows "reg (symbol M i) \<inter> reg (symbol M j) = {}"
proof -
  have "symbol M j = symbols M ! nat j" "nat j < length (symbols M)" "nat j \<noteq> nat i"
    using ij by (auto simp: symbols_def symbol_def)
  then have "symbol M j \<in> set (without (nat i) (symbols M))" using nth_in_without by metis
  then have "disjr (symbol M i) (symbol M j)"
    using inv sorted_wrt_disjr_mset [OF regions_sym(2) [OF ij(1,2), of M]] by (simp add: heap_inv_def)
  then show ?thesis by (simp add: disjr_def)
qed

section \<open>Properties\<close>

lemma regions_in_symbols: "0 \<le> i \<Longrightarrow> i < 30 \<Longrightarrow> symbol M i \<in> set (regions M)"
  by (simp add: regions_def symbols_def symbol_def)

lemma alloc_from_hole:
  assumes inv: "heap_inv (mm c)" "frame_inv others c" and id: "0 \<le> rgid" "rgid < 30"
    and sz: "0 < sz" "sz \<le> 4194304"
    and near: "\<forall>r \<in> set (free_regions (mm c)). rlen r \<noteq> sz - 1"
    and hole: "\<exists>r \<in> set (free_regions (mm c)). fits sz r"
  shows "\<exists>a c'. mm_alloc c 0 rgid sz = Inr (0, Some a, c') \<and>
    heap_inv (mm c') \<and> frame_inv others c' \<and> brk (mm c) = brk (mm c') \<and>
    reg (symbol (mm c') rgid) = {a..<a + sz} \<and> region_ok (brk (mm c')) (symbol (mm c') rgid) \<and>
    (\<forall>i \<ge> 0. i \<noteq> rgid \<longrightarrow> symbol (mm c') i = symbol (mm c) i) \<and> mram c' = mram c \<and> pgd (mm c') = pgd (mm c)"
proof -
  let ?rs = "free_regions (mm c)"
  have ok: "mm_ok (mm c)" using inv by (simp add: heap_inv_def)
  have brk: "brk (mm c) \<le> 4194304" using brk_range [OF ok] by simp
  obtain n where n: "n < length ?rs" "fits sz (?rs ! n)"
    "mm_alloc c 0 rgid sz = Inr (0, Some (int_of_u64 (rg_start (?rs ! n))),
       c\<lparr>mm := with_sym (with_free (mm c) (?rs[n := rest_of sz (?rs ! n)])) rgid (taken sz (?rs ! n))\<rparr>)"
    using mm_alloc_hole [OF ok id hole] by metis
  let ?h = "?rs ! n"
  let ?c' = "c\<lparr>mm := with_sym (with_free (mm c) (?rs[n := rest_of sz ?h])) rgid (taken sz ?h)\<rparr>"
  have h: "region_ok (brk (mm c)) ?h" using heap_inv_free_ok [OF inv(1)] n(1) by simp
  have "rlen ?h \<noteq> sz - 1" using near nth_mem [OF n(1)] by blast
  moreover have "sz \<le> rlen ?h + 1" using n(2) fits_iff [OF h brk, of sz] sz by simp
  ultimately have len: "sz \<le> rlen ?h" by linarith
  note split = region_split [OF h brk _ len]
  have "heap_inv (mm ?c')" using heap_inv_take [OF inv(1) id n(1) _ len] sz by simp
  moreover have "frame_inv others ?c'" using inv(2) by (simp add: frame_inv_cong [of ?c' c] upd_simps)
  moreover have "uint (rg_start ?h) < 2147483648"
    using h brk by (simp add: region_ok_def)
  ultimately show ?thesis
    using n(3) split sz id
    by (intro exI [of _ "uint (rg_start ?h)"] exI [of _ ?c']) (simp add: upd_simps int_of_u64_small)
qed

lemma alloc_by_growing:
  assumes inv: "heap_inv (mm c)" "frame_inv others c" and id: "0 \<le> rgid" "rgid < 30"
    and sz: "0 < sz" "sz \<le> 4194304"
    and none: "\<forall>r \<in> set (free_regions (mm c)). \<not> fits sz r"
    and room: "brk (mm c) + PAGING_PAGE_ALIGNSZ sz \<le> 4194304"
      "nat (PAGING_PAGE_ALIGNSZ sz div 256) \<le> length (frames (mram c))"
  shows "\<exists>c'. mm_alloc c 0 rgid sz = Inr (0, Some (brk (mm c)), c') \<and>
    heap_inv (mm c') \<and> frame_inv others c' \<and> brk (mm c') = brk (mm c) + PAGING_PAGE_ALIGNSZ sz \<and>
    reg (symbol (mm c') rgid) = {brk (mm c)..<brk (mm c) + sz} \<and>
    region_ok (brk (mm c')) (symbol (mm c') rgid) \<and>
    (\<forall>i \<ge> 0. i \<noteq> rgid \<longrightarrow> symbol (mm c') i = symbol (mm c) i) \<and>
    cells_of (mram c') = cells_of (mram c) \<and>
    (\<forall>p. 0 \<le> p \<and> p < npages (mm c) \<longrightarrow> page_pte (mm c') p = page_pte (mm c) p)"
proof -
  let ?M = "mm c" and ?b = "brk (mm c)" and ?amt = "PAGING_PAGE_ALIGNSZ sz"
  have ok: "mm_ok ?M" using inv by (simp add: heap_inv_def)
  have b: "0 \<le> ?b" "?b \<le> 4194304" using brk_range [OF ok] by auto
  have amt: "sz \<le> ?amt" "?amt \<le> 4194304" using align_bounds [of sz] sz room b(1) by auto
  obtain c1 r where r: "uint (rg_start r) = ?b" "uint (rg_end r) = ?b + sz"
    and c1: "mm_ok (mm c1)" "frame_inv others c1" "grown (c\<lparr>mm := with_sym ?M rgid r\<rparr>) ?amt c1"
    and run: "mm_alloc c 0 rgid sz = Inr (0, Some ?b,
      if sz < ?amt
      then c1\<lparr>mm := with_free (mm c1)
             (\<lparr>rg_start = rg_end r, rg_end = u64_of_int (?b + ?amt)\<rparr> # free_regions ?M)\<rparr>
      else c1)"
    using mm_alloc_grow [OF ok inv(2) id sz none room] unfolding Let_def by blast
  define ls where "ls = (if sz < ?amt then [\<lparr>rg_start = rg_end r, rg_end = u64_of_int (?b + ?amt)\<rparr>] else [])"
  define c' where "c' = (if sz < ?amt then c1\<lparr>mm := with_free (mm c1) (ls @ free_regions ?M)\<rparr> else c1)"
  have sym1: "symrgtbl (mm c1) = symrgtbl (with_sym ?M rgid r)" "free_regions (mm c1) = free_regions ?M"
    using c1(3) by (simp_all add: grown_def upd_simps)
  have fields: "pgd (mm c') = pgd (mm c1)" "brk (mm c') = brk (mm c1)" "mram c' = mram c1"
    "symrgtbl (mm c') = symrgtbl (with_sym ?M rgid r)" "free_regions (mm c') = ls @ free_regions ?M"
    using sym1 by (simp_all add: c'_def ls_def upd_simps)
  then have syms: "symbols (mm c') = (symbols ?M)[nat rgid := r]"
    "\<And>i. 0 \<le> i \<Longrightarrow> symbol (mm c') i = (if i = rgid then r else symbol ?M i)"
    using symbols_with_sym [OF id, of ?M r] id
    by (auto simp: symbols_def symbol_def with_sym_def nat_eq_iff)
  have "mm_ok (mm c')" using c1(1) free_chain(2) [OF ok] by (simp add: c'_def upd_simps)
  moreover have brk': "brk (mm c') = ?b + ?amt" using c1(3) fields(2) by (simp add: grown_def upd_simps)
  moreover have "ls = [] \<or> (\<exists>l. ls = [l] \<and> uint (rg_start l) = ?b + sz \<and> uint (rg_end l) = ?b + ?amt)"
    using r(2) b room(1) sz by (auto simp: ls_def uint_u64_of_int)
  ultimately have "heap_inv (mm c')"
    using heap_inv_grown [OF inv(1) id _ syms(1) fields(5) _ _ _ r] sz amt by simp
  moreover have "frame_inv others c'"
    using c1(2) frame_inv_cong [of c' c1] fields by simp
  moreover have "mm_alloc c 0 rgid sz = Inr (0, Some ?b, c')"
    using run by (simp add: c'_def ls_def)
  moreover have "page_pte (mm c') p = page_pte ?M p" if "0 \<le> p" "p < npages ?M" for p
    using c1(3) that fields(1) by (simp add: grown_def upd_simps page_pte_def npages_def)
  moreover have "cells_of (mram c') = cells_of (mram c)"
    using c1(3) fields(3) by (simp add: grown_def)
  ultimately show ?thesis
    using brk' syms(2) id r b amt sz by (intro exI [of _ c']) (simp add: reg_def region_ok_def)
qed

lemma mm_alloc_ok:
  assumes "heap_inv (mm c)" "frame_inv others c" "0 \<le> rgid" "rgid < 30" "0 < sz" "sz \<le> 4194304"
    and "\<forall>r \<in> set (free_regions (mm c)). rlen r \<noteq> sz - 1"
    and "(\<exists>r \<in> set (free_regions (mm c)). sz \<le> rlen r) \<or>
      brk (mm c) + PAGING_PAGE_ALIGNSZ sz \<le> 4194304 \<and>
      nat (PAGING_PAGE_ALIGNSZ sz div 256) \<le> length (frames (mram c))"
  shows "\<exists>a c'. mm_alloc c 0 rgid sz = Inr (0, Some a, c') \<and>
    heap_inv (mm c') \<and> frame_inv others c' \<and> brk (mm c) \<le> brk (mm c') \<and>
    reg (symbol (mm c') rgid) = {a..<a + sz} \<and> 0 \<le> a \<and> a + sz \<le> brk (mm c') \<and>
    (\<forall>i \<ge> 0. i \<noteq> rgid \<longrightarrow> symbol (mm c') i = symbol (mm c) i) \<and>
    cells_of (mram c') = cells_of (mram c) \<and>
    (\<forall>p. 0 \<le> p \<and> p < npages (mm c) \<longrightarrow> page_pte (mm c') p = page_pte (mm c) p)"
proof -
  have rng: "0 \<le> a \<and> a + sz \<le> lim" if "reg r = {a..<a + sz}" "region_ok lim r" for a r lim
  proof -
    have "uint (rg_start r) = a \<and> uint (rg_end r) = a + sz"
      using that(1) assms(5) by (intro ivl_eqD) (simp_all add: reg_def)
    then show ?thesis using that(2) uint_ge_0 [of "rg_start r"] by (simp add: region_ok_def)
  qed
  show ?thesis
  proof (cases "\<exists>r \<in> set (free_regions (mm c)). fits sz r")
    case True
    then show ?thesis
      using alloc_from_hole [OF assms(1-7) True] rng by (fastforce simp: page_pte_def)
  next
    case False
    have ok: "mm_ok (mm c)" using assms(1) by (simp add: heap_inv_def)
    have "\<not> (\<exists>r \<in> set (free_regions (mm c)). sz \<le> rlen r)"
    proof
      assume "\<exists>r \<in> set (free_regions (mm c)). sz \<le> rlen r"
      then obtain r where r: "r \<in> set (free_regions (mm c))" "sz \<le> rlen r" by blast
      then have "fits sz r"
        using fits_iff [OF heap_inv_free_ok [OF assms(1) r(1)]] brk_range [OF ok] assms(5,6) by simp
      with False r(1) show False by blast
    qed
    with assms(8) have room: "brk (mm c) + PAGING_PAGE_ALIGNSZ sz \<le> 4194304"
      "nat (PAGING_PAGE_ALIGNSZ sz div 256) \<le> length (frames (mram c))" by blast+
    obtain c' where c': "mm_alloc c 0 rgid sz = Inr (0, Some (brk (mm c)), c')"
      "heap_inv (mm c')" "frame_inv others c'" "brk (mm c') = brk (mm c) + PAGING_PAGE_ALIGNSZ sz"
      "reg (symbol (mm c') rgid) = {brk (mm c)..<brk (mm c) + sz}"
      "region_ok (brk (mm c')) (symbol (mm c') rgid)"
      "\<forall>i \<ge> 0. i \<noteq> rgid \<longrightarrow> symbol (mm c') i = symbol (mm c) i"
      "cells_of (mram c') = cells_of (mram c)"
      "\<forall>p. 0 \<le> p \<and> p < npages (mm c) \<longrightarrow> page_pte (mm c') p = page_pte (mm c) p"
      using alloc_by_growing [OF assms(1-6) _ room] False by blast
    then show ?thesis
      using rng [OF c'(5,6)] align_bounds [of sz] assms(5,6)
      by (intro exI [of _ "brk (mm c)"] exI [of _ c']) simp
  qed
qed

text \<open>
  C19: \<open>__alloc\<close> of \<open>sz > 0\<close> bytes for a valid symbol returns 0 and keeps the heap well formed
  (regions within the break, pairwise disjoint) and every frame owned once, provided no free
  region has length exactly \<open>sz - 1\<close> and either a free region is long enough or the break can
  grow: the symbol gets \<open>sz\<close> addresses from the returned one, below the break; no other symbol,
  no byte of RAM and no mapped page changes.
\<close>

theorem alloc_spec:
  assumes "heap_inv (mm c)" "frame_inv others c" "0 \<le> rgid" "rgid < 30" "0 < sz" "sz \<le> 4194304"
    and "\<forall>r \<in> set (free_regions (mm c)). rlen r \<noteq> sz - 1"
    and "(\<exists>r \<in> set (free_regions (mm c)). sz \<le> rlen r) \<or>
      brk (mm c) + PAGING_PAGE_ALIGNSZ sz \<le> 4194304 \<and>
      nat (PAGING_PAGE_ALIGNSZ sz div 256) \<le> length (frames (mram c))"
  shows "\<exists>a c'. mm_alloc c 0 rgid sz = Inr (0, Some a, c') \<and>
    heap_inv (mm c') \<and> frame_inv others c' \<and> brk (mm c) \<le> brk (mm c') \<and>
    reg (symbol (mm c') rgid) = {a..<a + sz} \<and> 0 \<le> a \<and> a + sz \<le> brk (mm c') \<and>
    (\<forall>i \<ge> 0. i \<noteq> rgid \<longrightarrow> symbol (mm c') i = symbol (mm c) i) \<and>
    cells_of (mram c') = cells_of (mram c) \<and>
    (\<forall>p. 0 \<le> p \<and> p < npages (mm c) \<longrightarrow> page_pte (mm c') p = page_pte (mm c) p)"
  using assms by (rule mm_alloc_ok)

text \<open>For the witnesses: the descriptor \<open>mm0\<close> after its break moved, with given regions.\<close>

definition mm_with :: "u64 \<Rightarrow> vm_rg_struct list \<Rightarrow> vm_rg_struct \<Rightarrow> vm_rg_struct \<Rightarrow> mm_struct" where
  "mm_with e fs r0 r1 = with_sym (with_sym (with_free (with_brk mm0 e) fs) 0 r0) 1 r1"

lemma symbols_mm_with: "symbols (mm_with e fs r0 r1) = r0 # r1 # replicate 28 \<lparr>rg_start = 0, rg_end = 0\<rparr>"
proof -
  let ?z = "\<lparr>rg_start = 0, rg_end = 0\<rparr> :: vm_rg_struct"
  have "symbols (with_brk mm0 e) = replicate 30 ?z"
    by (simp add: symbols_def mm0_def map_replicate_const)
  moreover have "replicate 30 ?z = ?z # ?z # replicate 28 ?z" by (simp flip: replicate_Suc)
  ultimately show ?thesis by (simp add: mm_with_def upd_simps)
qed

lemma sorted_wrt_replicate_empty: "reg z = {} \<Longrightarrow> sorted_wrt disjr (replicate n z @ rs) = sorted_wrt disjr rs"
  by (induction n) (auto simp: disjr_def)

lemma heap_inv_mm_with:
  assumes "256 dvd uint e" "uint e \<le> 4194304" "fs \<noteq> []"
    and "sorted_wrt disjr (r0 # r1 # fs)" "\<forall>r \<in> set (r0 # r1 # fs). region_ok (uint e) r"
  shows "heap_inv (mm_with e fs r0 r1)" "brk (mm_with e fs r0 r1) = uint e"
    "free_regions (mm_with e fs r0 r1) = fs"
    "symbol (mm_with e fs r0 r1) 0 = r0" "symbol (mm_with e fs r0 r1) 1 = r1"
proof -
  let ?z = "\<lparr>rg_start = 0, rg_end = 0\<rparr> :: vm_rg_struct" and ?M = "mm_with e fs r0 r1"
  have z: "reg ?z = {}" "region_ok (uint e) ?z" by (simp_all add: reg_def region_ok_def)
  have "sorted_wrt disjr (r0 # r1 # replicate 28 ?z @ fs)"
    using assms(4) sorted_wrt_replicate_empty [OF z(1), of 28 fs] z(1) by (auto simp: disjr_def)
  moreover show brk: "brk ?M = uint e" and free: "free_regions ?M = fs"
    and "symbol ?M 0 = r0" "symbol ?M 1 = r1"
    using with_brk_ok [OF mm0_ok assms(1,2)] by (simp_all add: mm_with_def upd_simps)
  moreover have "regions ?M = r0 # r1 # replicate 28 ?z @ fs"
    by (simp add: regions_def symbols_mm_with free)
  moreover have "mm_ok ?M"
    using with_brk_ok [OF mm0_ok assms(1,2)] assms(3) by (simp add: mm_with_def upd_simps)
  ultimately show "heap_inv ?M"
    using assms(5) z(2) by (simp add: heap_inv_def)
qed

definition rg :: "u64 \<Rightarrow> u64 \<Rightarrow> vm_rg_struct" where
  "rg s e = \<lparr>rg_start = s, rg_end = e\<rparr>"

lemma rg_simps [simp]:
  "rg_start (rg s e) = s" "rg_end (rg s e) = e" "reg (rg s e) = {uint s..<uint e}"
  "rlen (rg s e) = uint e - uint s"
  "region_ok lim (rg s e) \<longleftrightarrow> uint s \<le> uint e \<and> uint e \<le> lim"
  by (simp_all add: rg_def reg_def rlen_def region_ok_def)

lemma heap_fresh: "heap_inv (mm_with 0 [rg 0 0] (rg 0 0) (rg 0 0))"
  by (rule heap_inv_mm_with) (simp_all add: disjr_def)

lemma frame_inv_fresh: "frame_inv {} (caller0\<lparr>mm := mm_with 0 [rg 0 0] (rg 0 0) (rg 0 0)\<rparr>)"
  using heap_inv_mm_with(2) [of 0 "[rg 0 0]" "rg 0 0" "rg 0 0"] frame_inv_caller0 brk_mm0
  by (subst frame_inv_cong [of _ caller0])
    (simp_all add: caller0_def mm_with_def upd_simps with_brk_def disjr_def)

theorem alloc_spec_witness:
  "\<exists>a c'. mm_alloc (caller0\<lparr>mm := mm_with 0 [rg 0 0] (rg 0 0) (rg 0 0)\<rparr>) 0 5 300 = Inr (0, Some a, c') \<and>
    heap_inv (mm c') \<and> reg (symbol (mm c') 5) = {a..<a + 300} \<and> a + 300 \<le> brk (mm c')"
proof -
  let ?M = "mm_with 0 [rg 0 0] (rg 0 0) (rg 0 0)"
  have al: "PAGING_PAGE_ALIGNSZ 300 = 512" by (simp add: align_eq)
  have M: "brk ?M = 0" "free_regions ?M = [rg 0 0]"
    using heap_inv_mm_with(2,3) [of 0 "[rg 0 0]" "rg 0 0" "rg 0 0"]
    by (simp_all add: disjr_def)
  have "mram (caller0\<lparr>mm := ?M\<rparr>) = mram caller0" by simp
  then show ?thesis
    using alloc_spec [of "caller0\<lparr>mm := ?M\<rparr>" "{}" 5 300] heap_fresh frame_inv_fresh frames_caller0
    by (auto simp: M al)
qed

text \<open>
  C31: the test of \<open>get_free_vmrg_area\<close> counts one byte too many. Whenever the lowest free region
  is followed directly by a live symbol, allocating one byte more than its length succeeds and
  the new symbol shares an address with the old one.
\<close>

theorem alloc_off_by_one:
  assumes "heap_inv (mm c)" "0 \<le> i" "i < 30" "0 \<le> j" "j < 30" "i \<noteq> j"
    and "h \<in> set (free_regions (mm c))"
    and "\<forall>x \<in> set (free_regions (mm c)). x \<noteq> h \<longrightarrow> rg_start h < rg_start x"
    and "uint (rg_end h) \<in> reg (symbol (mm c) j)"
  shows "\<exists>c'. mm_alloc c 0 i (rlen h + 1) = Inr (0, Some (uint (rg_start h)), c') \<and>
    uint (rg_end h) \<in> reg (symbol (mm c') i) \<inter> reg (symbol (mm c') j) \<and> \<not> heap_inv (mm c')"
proof -
  let ?rs = "free_regions (mm c)" and ?sz = "rlen h + 1"
  have ok: "mm_ok (mm c)" using assms(1) by (simp add: heap_inv_def)
  have brk: "brk (mm c) \<le> 4194304" using brk_range [OF ok] by simp
  have h: "region_ok (brk (mm c)) h" by (rule heap_inv_free_ok [OF assms(1,7)])
  then have hb: "uint (rg_start h) \<le> uint (rg_end h)" "uint (rg_end h) \<le> 4194304"
    using brk by (simp_all add: region_ok_def)
  have sz: "1 \<le> ?sz" "?sz \<le> 4194305" using hb uint_ge_0 [of "rg_start h"] unfolding rlen_def by linarith+
  have fit: "fits ?sz h" using fits_iff [OF h brk, of ?sz] sz by simp
  obtain n where n: "n < length ?rs"
    "\<forall>x \<in> set ?rs. fits ?sz x \<longrightarrow> rg_start (?rs ! n) \<le> rg_start x"
    "mm_alloc c 0 i ?sz = Inr (0, Some (int_of_u64 (rg_start (?rs ! n))),
       c\<lparr>mm := with_sym (with_free (mm c) (?rs[n := rest_of ?sz (?rs ! n)])) i (taken ?sz (?rs ! n))\<rparr>)"
    using mm_alloc_hole [OF ok assms(2,3)] assms(7) fit by metis
  have "?rs ! n = h"
  proof (rule ccontr)
    assume "?rs ! n \<noteq> h"
    then have "rg_start h < rg_start (?rs ! n)" using assms(8) n(1) by simp
    moreover have "rg_start (?rs ! n) \<le> rg_start h" using n(2) assms(7) fit by blast
    ultimately show False by simp
  qed
  note n = n [unfolded this]
  let ?c' = "c\<lparr>mm := with_sym (with_free (mm c) (?rs[n := rest_of ?sz h])) i (taken ?sz h)\<rparr>"
  have "uint (rg_start h + u64_of_int ?sz) = uint (rg_end h) + 1"
    using u64_add_small [of "rg_start h" ?sz] hb sz by (cases "?sz = 4194305")
      (auto simp: rlen_def uint_word_ariths uint_u64_of_int)
  then have "uint (rg_end h) \<in> reg (symbol (mm ?c') i)"
    using assms(2) hb by (simp add: upd_simps taken_def reg_def)
  moreover have sj: "uint (rg_end h) \<in> reg (symbol (mm ?c') j)"
    using assms(2,4,6,9) by (simp add: upd_simps)
  moreover have "int_of_u64 (rg_start h) = uint (rg_start h)" using hb by (simp add: int_of_u64_small)
  moreover have "\<not> heap_inv (mm ?c')"
    using heap_inv_symbols [OF _ assms(2-6), of "mm ?c'"] sj calculation(1) by blast
  ultimately show ?thesis using n(3) by (intro exI [of _ ?c']) simp
qed

theorem alloc_off_by_one_witness:
  "\<exists>c'. mm_alloc (caller0\<lparr>mm := mm_with 256 [rg 0 16, rg 32 256] (rg 0 0) (rg 16 32)\<rparr>) 0 0 17 =
      Inr (0, Some 0, c') \<and> 16 \<in> reg (symbol (mm c') 0) \<inter> reg (symbol (mm c') 1)"
proof -
  let ?M = "mm_with 256 [rg 0 16, rg 32 256] (rg 0 0) (rg 16 32)"
  have M: "heap_inv ?M" "free_regions ?M = [rg 0 16, rg 32 256]" "symbol ?M 1 = rg 16 32"
    using heap_inv_mm_with [of 256 "[rg 0 16, rg 32 256]" "rg 0 0" "rg 16 32"]
    by (simp_all add: disjr_def)
  show ?thesis
    using alloc_off_by_one [of "caller0\<lparr>mm := ?M\<rparr>" 0 1 "rg 0 16"] M
    by auto
qed

lemma mm_free_ok:
  assumes "heap_inv (mm c)" "0 \<le> rgid" "rgid < 30"
  shows "if reg (symbol (mm c) rgid) = {} then mm_free c 0 rgid = Inr (-1, c)
    else \<exists>M'. mm_free c 0 rgid = Inr (0, c\<lparr>mm := M'\<rparr>) \<and> heap_inv M' \<and>
      (\<Union>r \<in> set (free_regions M'). reg r) =
        reg (symbol (mm c) rgid) \<union> (\<Union>r \<in> set (free_regions (mm c)). reg r) \<and>
      (spaced (free_regions (mm c)) \<longrightarrow> spaced (free_regions M')) \<and>
      reg (symbol M' rgid) = {} \<and> (\<forall>i \<ge> 0. i \<noteq> rgid \<longrightarrow> symbol M' i = symbol (mm c) i) \<and>
      brk M' = brk (mm c) \<and> pgd M' = pgd (mm c) \<and> fifo_pgn M' = fifo_pgn (mm c)"
proof (cases "reg (symbol (mm c) rgid) = {}")
  case True
  have ok: "mm_ok (mm c)" using assms(1) by (simp add: heap_inv_def)
  have "rg_end (symbol (mm c) rgid) \<le> rg_start (symbol (mm c) rgid)"
    using True by (simp add: reg_def word_le_def)
  then show ?thesis
    using True assms(2,3) symrg_at_in [OF ok assms(2,3)]
    by (simp add: mm_free_def PAGING_MAX_SYMTBL_SZ_def)
next
  case False
  obtain r' rest where run: "mm_free c 0 rgid = Inr (0, c\<lparr>mm := with_sym (with_free (mm c) (r' # rest)) rgid
       \<lparr>rg_start = 0, rg_end = 0\<rparr>\<rparr>)"
    and rest: "sorted_wrt disjr (r' # rest)" "\<forall>s \<in> set (r' # rest). region_ok (brk (mm c)) s"
      "(\<Union>s \<in> set (r' # rest). reg s) =
        reg (symbol (mm c) rgid) \<union> (\<Union>s \<in> set (free_regions (mm c)). reg s)"
      "spaced (free_regions (mm c)) \<Longrightarrow> spaced (r' # rest)"
    by (rule mm_free_run [OF assms False]) (rule that)
  let ?M' = "with_sym (with_free (mm c) (r' # rest)) rgid \<lparr>rg_start = 0, rg_end = 0\<rparr>"
  have "heap_inv ?M'" using heap_inv_freed [OF assms rest(1,2) _ rest(3)] by simp
  moreover have "(\<Union>r \<in> set (free_regions ?M'). reg r) =
      reg (symbol (mm c) rgid) \<union> (\<Union>r \<in> set (free_regions (mm c)). reg r)"
    using rest(3) by (simp only: upd_simps)
  moreover have "spaced (free_regions (mm c)) \<longrightarrow> spaced (free_regions ?M')"
    using rest(4) unfolding upd_simps by blast
  moreover have "reg (symbol ?M' rgid) = {}" "\<forall>i \<ge> 0. i \<noteq> rgid \<longrightarrow> symbol ?M' i = symbol (mm c) i"
    using assms(2) by (simp_all add: upd_simps reg_def)
  moreover have "brk ?M' = brk (mm c)" "pgd ?M' = pgd (mm c)" "fifo_pgn ?M' = fifo_pgn (mm c)"
    by (simp_all add: upd_simps)
  ultimately show ?thesis unfolding if_not_P [OF False] using run by blast
qed

text \<open>
  C20: \<open>__free\<close> of a valid symbol. A live region goes back to the free list: the free addresses
  afterwards are exactly those before and those of the region, the heap stays well formed, and
  neighbours are merged: when no two free regions touched before, none do afterwards (\<open>spaced\<close>). The
  symbol becomes empty and nothing else of the process changes. Freeing an empty symbol is refused with -1 and changes nothing.
\<close>

theorem free_spec:
  assumes "heap_inv (mm c)" "0 \<le> rgid" "rgid < 30"
  shows "if reg (symbol (mm c) rgid) = {} then mm_free c 0 rgid = Inr (-1, c)
    else \<exists>M'. mm_free c 0 rgid = Inr (0, c\<lparr>mm := M'\<rparr>) \<and> heap_inv M' \<and>
      (\<Union>r \<in> set (free_regions M'). reg r) =
        reg (symbol (mm c) rgid) \<union> (\<Union>r \<in> set (free_regions (mm c)). reg r) \<and>
      (spaced (free_regions (mm c)) \<longrightarrow> spaced (free_regions M')) \<and>
      reg (symbol M' rgid) = {} \<and> (\<forall>i \<ge> 0. i \<noteq> rgid \<longrightarrow> symbol M' i = symbol (mm c) i) \<and>
      brk M' = brk (mm c) \<and> pgd M' = pgd (mm c) \<and> fifo_pgn M' = fifo_pgn (mm c)"
  using assms by (rule mm_free_ok)

theorem free_spec_witness:
  "\<exists>M'. mm_free (caller0\<lparr>mm := mm_with 256 [rg 0 16, rg 32 256] (rg 0 0) (rg 16 32)\<rparr>) 0 1 =
      Inr (0, caller0\<lparr>mm := M'\<rparr>) \<and> heap_inv M' \<and> (\<Union>r \<in> set (free_regions M'). reg r) = {0..<256} \<and>
    spaced (free_regions M')"
proof -
  let ?M = "mm_with 256 [rg 0 16, rg 32 256] (rg 0 0) (rg 16 32)"
  have M: "heap_inv ?M" "free_regions ?M = [rg 0 16, rg 32 256]" "symbol ?M 1 = rg 16 32"
    using heap_inv_mm_with [of 256 "[rg 0 16, rg 32 256]" "rg 0 0" "rg 16 32"]
    by (simp_all add: disjr_def)
  have "{16..<32} \<union> ({0..<16} \<union> {32..<256 :: int}) = {0..<256}" by auto
  moreover have "spaced [rg 0 16, rg 32 256]" by (simp add: touch_def)
  ultimately show ?thesis
    using free_spec [of "caller0\<lparr>mm := ?M\<rparr>" 1] M by auto
qed

end
