(* ===== verification/Vmem.thy ===== *)
theory Vmem
  imports Heap
begin

text \<open>
  The virtual memory a process sees through \<open>pg_getval\<close> and \<open>pg_setval\<close> of \<open>src/libmem.c\<close>: below
  the break it is a byte store like a device (an interpretation of the same locale), its cells
  are the cells of the process's own frames, and \<open>libwrite\<close> and \<open>libread\<close> are its operations.
  Then the page fault path, the swap entries and the return of frames at the end of a process.
\<close>

section \<open>Resident pages\<close>

lemma pgn_of_addr:
  "0 \<le> a \<Longrightarrow> a < 4194304 \<Longrightarrow> int_of_u32 (PAGING_PGN (u32_of_int a)) = a div 256"
  by (rule brk_pgn)

lemma FPN_range: "0 \<le> uint (PAGING_FPN pte) \<and> uint (PAGING_FPN pte) < 8192"
proof -
  have "int (unat (PAGING_FPN pte)) < int 8192"
    using FPN_less [of pte] by (simp only: of_nat_less_iff)
  then have "uint (PAGING_FPN pte) < 8192" unfolding uint_int_unat of_nat_numeral .
  then show ?thesis by simp
qed

lemma int_of_u32_FPN: "int_of_u32 (PAGING_FPN pte) = uint (PAGING_FPN pte)"
  using FPN_range [of pte] by (intro int_of_u32_small) simp

lemma aget_pgd:
  assumes "mm_ok M" "0 \<le> p" "p < 16384"
  shows "aget (pgd M) p = Inr (page_pte M p)"
  using assms(1) by (rule mm_okE) (use assms(2,3) in \<open>simp add: aget_def in_bounds_def page_pte_def\<close>)

lemma pg_getpage_present:
  assumes "mm_ok (mm c)" "0 \<le> p" "p < 16384" "pte_present (page_pte (mm c) p)"
  shows "pg_getpage c p = Inr (0, page_frame (mm c) p, c)"
  using assms by (simp add: pg_getpage_def aget_pgd pte_present_def int_of_u32_FPN page_frame_def)

lemma page_phyaddr_eq:
  assumes "0 \<le> f" "f < 8192" "0 \<le> a" "a < 4194304"
  shows "page_phyaddr f a = f * 256 + a mod 256"
proof -
  have "uint (u32_of_int (f * 256)) = f * 256"
    using assms by (intro uint_u32_of_int) simp_all
  moreover have "uint (PAGING_OFFST (u32_of_int a)) = a mod 256"
  proof -
    have "unat (u32_of_int a) = nat a"
      using assms by (simp add: unat_eq_nat_uint uint_u32_of_int)
    then have "unat (PAGING_OFFST (u32_of_int a)) = nat a mod 256" by (simp add: unat_OFFST)
    also have "\<dots> = nat (a mod 256)" using assms by (simp add: nat_mod_distrib)
    finally show ?thesis by (simp only: uint_int_unat int_nat_eq) simp
  qed
  moreover have "0 \<le> a mod 256" "a mod 256 < 256" by simp_all
  ultimately have "uint (u32_of_int (f * 256) + PAGING_OFFST (u32_of_int a)) = f * 256 + a mod 256"
    using assms by (simp add: uint_word_ariths)
  then show ?thesis
    using assms by (simp add: page_phyaddr_def PAGING_PAGESZ_def i32_small int_of_u32_small)
qed

text \<open>The physical address behind a virtual one.\<close>

definition vphys :: "mm_struct \<Rightarrow> int \<Rightarrow> int" where
  "vphys M a = page_frame M (a div 256) * 256 + a mod 256"

lemma page_frame_range: "0 \<le> page_frame M p \<and> page_frame M p < 8192"
  using FPN_range by (simp add: page_frame_def)

lemma vphys_phyaddr:
  assumes "0 \<le> a" "a < 4194304"
  shows "page_phyaddr (page_frame M (a div 256)) a = vphys M a"
  using page_phyaddr_eq [of "page_frame M (a div 256)" a] page_frame_range assms
  by (simp add: vphys_def)

lemma vphys_small: "i32 (vphys M a) = vphys M a"
proof -
  have "0 \<le> a mod 256" "a mod 256 < 256" by simp_all
  then show ?thesis
    using page_frame_range [of M "a div 256"] unfolding vphys_def by (intro i32_small) linarith+
qed

lemma byte_u32_byte: "byte_of_u32 (u32_of_byte v) = v"
  by simp

lemma pg_getval_present:
  assumes "mm_ok (mm c)" "0 \<le> a" "a < 4194304" "pte_present (page_pte (mm c) (a div 256))"
  shows "pg_getval c a = bindr (phy_read (mram c) (vphys (mm c) a)) (\<lambda>v. Inr (0, Some v, c))"
proof -
  have "pg_getpage c (a div 256) = Inr (0, page_frame (mm c) (a div 256), c)"
    using assms by (intro pg_getpage_present) simp_all
  then show ?thesis
    using assms(2,3)
    by (simp add: pg_getval_def pgn_of_addr Let_def sys_memmap_read vphys_phyaddr vphys_small
        bindr_assoc)
qed

lemma pg_setval_present:
  assumes "mm_ok (mm c)" "0 \<le> a" "a < 4194304" "pte_present (page_pte (mm c) (a div 256))"
  shows "pg_setval c a v = bindr (phy_write (mram c) (vphys (mm c) a) v) (\<lambda>mp. Inr (0, c\<lparr>mram := mp\<rparr>))"
proof -
  have "pg_getpage c (a div 256) = Inr (0, page_frame (mm c) (a div 256), c)"
    using assms by (intro pg_getpage_present) simp_all
  then show ?thesis
    using assms(2,3)
    by (simp add: pg_setval_def pgn_of_addr Let_def sys_memmap_write vphys_phyaddr vphys_small
        bindr_assoc)
qed

section \<open>The virtual memory is a byte store\<close>

definition vm_rd :: "caller \<Rightarrow> int \<Rightarrow> BYTE res" where
  "vm_rd c a = bindr (pg_getval c a)
    (\<lambda>(_, d, _). case d of None \<Rightarrow> Inl UninitRead | Some v \<Rightarrow> Inr v)"

definition vm_wr :: "caller \<Rightarrow> int \<Rightarrow> BYTE \<Rightarrow> caller res" where
  "vm_wr c a v = bindr (pg_setval c a v) (\<lambda>(_, c'). Inr c')"

definition vaddrs :: "caller \<Rightarrow> int set" where
  "vaddrs c = {0..<brk (mm c)}"

definition vm_ok :: "int set \<Rightarrow> caller \<Rightarrow> bool" where
  "vm_ok others c \<longleftrightarrow> mm_ok (mm c) \<and> frame_inv others c"

lemma vaddr_range: "mm_ok (mm c) \<Longrightarrow> a \<in> vaddrs c \<Longrightarrow> 0 \<le> a \<and> a < 4194304"
  using brk_range [of "mm c"] by (auto simp: vaddrs_def)

lemma vaddr_page:
  assumes "vm_ok others c" "a \<in> vaddrs c"
  shows "0 \<le> a div 256 \<and> a div 256 < npages (mm c)"
proof -
  have "256 dvd brk (mm c)" using assms(1) brk_range by (auto simp: vm_ok_def)
  then have "a div 256 < brk (mm c) div 256"
    using assms(2) by (auto elim!: dvdE simp: vaddrs_def)
  then show ?thesis using assms(2) by (simp add: npages_def vaddrs_def pos_imp_zdiv_nonneg_iff)
qed

lemma vaddr_frame:
  assumes "vm_ok others c" "a \<in> vaddrs c"
  shows "pte_present (page_pte (mm c) (a div 256))"
    "page_frame (mm c) (a div 256) \<in> set (frame_list (mm c))"
    "vphys (mm c) a \<in> page_addrs (page_frame (mm c) (a div 256))"
    "vphys (mm c) a \<in> phy_addrs (mram c)"
proof -
  note p = vaddr_page [OF assms]
  have inv: "frame_inv others c" using assms(1) by (simp add: vm_ok_def)
  have "resident (mm c) (a div 256)" using inv p by (simp add: frame_inv_def)
  then show "pte_present (page_pte (mm c) (a div 256))" by (simp add: resident_def)
  show mem: "page_frame (mm c) (a div 256) \<in> set (frame_list (mm c))"
    using p by (auto simp: frame_list_def)
  show "vphys (mm c) a \<in> page_addrs (page_frame (mm c) (a div 256))"
    by (simp add: vphys_def page_addrs_def)
  then show "vphys (mm c) a \<in> phy_addrs (mram c)"
    using inv mem by (auto simp: frame_inv_def)
qed

text \<open>Different virtual addresses of a process are different cells.\<close>

lemma vphys_inj:
  assumes "vm_ok others c" "a \<in> vaddrs c" "b \<in> vaddrs c" "vphys (mm c) a = vphys (mm c) b"
  shows "a = b"
proof -
  have m: "0 \<le> a mod 256" "a mod 256 < 256" "0 \<le> b mod 256" "b mod 256 < 256" by simp_all
  then have same: "page_frame (mm c) (a div 256) = page_frame (mm c) (b div 256)"
    using assms(4) unfolding vphys_def by linarith
  then have off: "a mod 256 = b mod 256" using assms(4) by (simp add: vphys_def)
  have "inj_on (page_frame (mm c)) {0..npages (mm c) - 1}"
    using assms(1) by (simp add: vm_ok_def frame_inv_def frame_list_def distinct_map)
  then have "a div 256 = b div 256"
    using same vaddr_page [OF assms(1,2)] vaddr_page [OF assms(1,3)] by (auto dest: inj_onD)
  then show ?thesis using off by (metis div_mod_decomp_int)
qed

lemma vm_rd_cell:
  assumes "vm_ok others c" "a \<in> vaddrs c"
  shows "vm_rd c a = phy_read (mram c) (vphys (mm c) a)"
  using assms vaddr_range [of c a] vaddr_frame(1) [OF assms]
  by (simp add: vm_rd_def pg_getval_present vm_ok_def bindr_assoc)
    (cases "phy_read (mram c) (vphys (mm c) a)"; simp)

lemma vm_wr_cell:
  assumes "vm_ok others c" "a \<in> vaddrs c"
  shows "vm_wr c a v = bindr (phy_write (mram c) (vphys (mm c) a) v) (\<lambda>mp. Inr (c\<lparr>mram := mp\<rparr>))"
  using assms vaddr_range [of c a] vaddr_frame(1) [OF assms]
  by (simp add: vm_wr_def pg_setval_present vm_ok_def bindr_assoc)

lemma phy_write_frames:
  assumes "phy_write mp a v = Inr mp'"
  shows "frames mp' = frames mp \<and> frames_ok mp' = frames_ok mp"
  using assms
  by (auto simp: phy_write_def MEMPHY_write_def MEMPHY_seq_write_def MEMPHY_mv_csr_def
      bindr_eq_Inr_iff frames_def frames_ok_def split: option.splits if_splits)

lemma vm_ok_write:
  assumes "vm_ok others c" "phy_write (mram c) a v = Inr mp" "dev_ok mp"
    "phy_addrs mp = phy_addrs (mram c)"
  shows "vm_ok others (c\<lparr>mram := mp\<rparr>)"
  using assms phy_write_frames [OF assms(2)] by (simp add: vm_ok_def frame_inv_def)

interpretation vmem: byte_store vm_rd vm_wr vaddrs "vm_ok others" for others
proof unfold_locales
  fix c a
  assume c: "vm_ok others c" and a: "a \<in> vaddrs c"
  have dev: "dev_ok (mram c)" using c by (simp add: vm_ok_def frame_inv_def)
  note cell = vaddr_frame(4) [OF c a]
  show "\<exists>v. vm_rd c a = Inr v" unfolding vm_rd_cell [OF c a] by (rule phy.rd_ok [OF dev cell])
  fix v
  obtain mp where mp: "phy_write (mram c) (vphys (mm c) a) v = Inr mp" "dev_ok mp"
    "phy_addrs mp = phy_addrs (mram c)"
    "\<forall>b \<in> phy_addrs (mram c). phy_read mp b =
       (if b = vphys (mm c) a then Inr v else phy_read (mram c) b)"
    using phy.wr_ok [OF dev cell] by blast
  let ?c' = "c\<lparr>mram := mp\<rparr>"
  have c': "vm_ok others ?c'" by (rule vm_ok_write [OF c mp(1-3)])
  have "vm_rd ?c' b = (if b = a then Inr v else vm_rd c b)" if b: "b \<in> vaddrs c" for b
  proof -
    have "b \<in> vaddrs ?c'" using b by (simp add: vaddrs_def)
    then show ?thesis
      using mp(4) vaddr_frame(4) [OF c b] vphys_inj [OF c b a] vm_rd_cell [OF c b]
        vm_rd_cell [OF c', of b] by auto
  qed
  then show "\<exists>c'. vm_wr c a v = Inr c' \<and> vm_ok others c' \<and> vaddrs c' = vaddrs c \<and>
      (\<forall>b \<in> vaddrs c. vm_rd c' b = (if b = a then Inr v else vm_rd c b))"
    using c' mp(1) vm_wr_cell [OF c a] by (intro exI [of _ ?c']) (simp add: vaddrs_def)
qed

section \<open>The library calls\<close>

text \<open>The reports change standard output only.\<close>

lemma for_loop_print:
  assumes "\<And>i c'. lo \<le> i \<Longrightarrow> i < hi \<Longrightarrow> \<exists>out. c' = c\<lparr>stdout := out\<rparr> \<Longrightarrow> \<exists>out. body i c' = Inr (c\<lparr>stdout := out\<rparr>)"
  shows "\<exists>out. for_loop lo hi body c = Inr (c\<lparr>stdout := out\<rparr>)"
proof (cases "lo \<le> hi")
  case True
  have "\<exists>c'. for_loop lo hi body c = Inr c' \<and> (\<exists>out. c' = c\<lparr>stdout := out\<rparr>)"
    using True assms by (intro for_loop_rule [where P = "\<lambda>_ c'. \<exists>out. c' = c\<lparr>stdout := out\<rparr>"])
      (metis caller.surjective caller.update_convs(5), simp, blast)
  then show ?thesis by blast
next
  case False
  then show ?thesis by (intro exI [of _ "stdout c"]) simp
qed

lemma PGN_int: "0 \<le> int_of_u32 (PAGING_PGN x) \<and> int_of_u32 (PAGING_PGN x) < 16384"
proof -
  have "int (unat (PAGING_PGN x)) < int 16384"
    using PGN_less [of x] by (simp only: of_nat_less_iff)
  then have "uint (PAGING_PGN x) < 16384" unfolding uint_int_unat of_nat_numeral .
  then show ?thesis by (simp add: int_of_u32_small)
qed

lemma print_pgtbl_ok:
  assumes "mm_ok (mm c)"
  shows "\<exists>out. print_pgtbl c s e = Inr (0, c\<lparr>stdout := out\<rparr>)"
proof -
  have lines: "\<exists>out. for_loop (int_of_u32 (PAGING_PGN s)) (int_of_u32 (PAGING_PGN e)) (\<lambda>pgit c.
      bindr (aget (pgd (mm c)) pgit) (\<lambda>pte. Inr (print_line (f pgit pte) (g pgit pte) c))) d =
      Inr (d\<lparr>stdout := out\<rparr>)"
    if "mm d = mm c" for e d f g
  proof (rule for_loop_print)
    fix i d'
    assume i: "int_of_u32 (PAGING_PGN s) \<le> i" "i < int_of_u32 (PAGING_PGN e)"
      and d': "\<exists>out. d' = d\<lparr>stdout := out\<rparr>"
    have "aget (pgd (mm c)) i = Inr (page_pte (mm c) i)"
      using PGN_int [of s] PGN_int [of e] i by (intro aget_pgd assms) linarith+
    then show "\<exists>out. bindr (aget (pgd (mm d')) i) (\<lambda>pte. Inr (print_line (f i pte) (g i pte) d')) =
        Inr (d\<lparr>stdout := out\<rparr>)"
      using d' that by (auto simp: print_line_def)
  qed
  have "\<exists>e'. (if e = u32_of_int (-1)
           then bindr (get_vma_by_num (mm c) 0) (\<lambda>p.
                bindr (vma_at (mm c) p) (\<lambda>cur_vma. Inr (u32_of_u64 (vm_end cur_vma))))
           else Inr e) = Inr e'"
    using get_vma_0 [OF assms, of 0] vma_at_0 [OF assms] by simp
  then obtain e' where e': "(if e = u32_of_int (-1)
           then bindr (get_vma_by_num (mm c) 0) (\<lambda>p.
                bindr (vma_at (mm c) p) (\<lambda>cur_vma. Inr (u32_of_u64 (vm_end cur_vma))))
           else Inr e) = Inr e'" by blast
  let ?c1 = "print_line F_pgtbl_head [AU s, AU e'] c"
  obtain o1 where o1: "for_loop (int_of_u32 (PAGING_PGN s)) (int_of_u32 (PAGING_PGN e')) (\<lambda>pgit c.
      bindr (aget (pgd (mm c)) pgit) (\<lambda>pte.
        Inr (print_line F_pgtbl_pte [AL (u64_of_int (pgit * 4)), AU pte] c))) ?c1 = Inr (?c1\<lparr>stdout := o1\<rparr>)"
    using lines [of ?c1 e' "\<lambda>_ _. F_pgtbl_pte" "\<lambda>pgit pte. [AL (u64_of_int (pgit * 4)), AU pte]"]
    by (auto simp: print_line_def)
  obtain o2 where o2: "for_loop (int_of_u32 (PAGING_PGN s)) (int_of_u32 (PAGING_PGN e')) (\<lambda>pgit c.
      bindr (aget (pgd (mm c)) pgit) (\<lambda>pte.
        Inr (print_line F_pgtbl_fpn [AI pgit, AI (int_of_u32 (PAGING_FPN pte))] c))) (?c1\<lparr>stdout := o1\<rparr>) =
      Inr (?c1\<lparr>stdout := o2\<rparr>)"
    using lines [of "?c1\<lparr>stdout := o1\<rparr>" e' "\<lambda>_ _. F_pgtbl_fpn"
        "\<lambda>pgit pte. [AI pgit, AI (int_of_u32 (PAGING_FPN pte))]"]
    by (auto simp: print_line_def)
  show ?thesis
    unfolding print_pgtbl_def e' using o1 o2 by (auto simp: Let_def print_line_def)
qed

lemma print_dump_ok:
  assumes "dev_ok (mram c)"
  shows "\<exists>out. print_dump c = Inr (c\<lparr>stdout := out\<rparr>)"
proof -
  obtain m where m: "mram c = Some m" "rdmflg m \<noteq> 0" "0 \<le> maxsz m" "int (alen (storage m)) = maxsz m"
    using assms by (rule dev_okE)
  have "\<exists>out. for_loop 0 (maxsz m)
      (\<lambda>i out. bindr (aget (storage m) i)
        (\<lambda>v. Inr (if v \<noteq> 0 then out @ [Line F_memcell [AI i, AI (int_of_byte v)]] else out)))
      (stdout c) = Inr out \<and> True"
    using m by (intro for_loop_rule [where P = "\<lambda>_ _. True"]) (auto simp: aget_def in_bounds_def)
  then show ?thesis using m(1) by (auto simp: print_dump_def MEMPHY_dump_def)
qed

lemma set_stdout_simps [simp]:
  "mm (print_line f as c) = mm c" "mram (print_line f as c) = mram c"
  "pid (print_line f as c) = pid c" "active_mswp (print_line f as c) = active_mswp c"
  by (simp_all add: print_line_def)

text \<open>The virtual address \<open>[reg] + offset\<close> the calls form; a symbol's length plays no role.\<close>

definition lib_addr :: "mm_struct \<Rightarrow> u32 \<Rightarrow> u32 \<Rightarrow> int" where
  "lib_addr M r off = uint (rg_start (symbol M (uint r))) + uint off"

definition sym_id :: "u32 \<Rightarrow> bool" where
  "sym_id r \<longleftrightarrow> uint r < 30"

lemma u32_of_u64_uint: "u32_of_u64 w = u32_of_int (uint w)"
  by (simp add: u32_of_u64_def u32_of_int_def)

lemma lib_addr_int:
  assumes "lib_addr M r off < 4194304"
  shows "int_of_u64 (rg_start (symbol M (uint r)) + u64_of_int (int_of_u32 off)) = lib_addr M r off"
    "u32_of_u64 (rg_start (symbol M (uint r)) + u64_of_u32 off) = u32_of_int (lib_addr M r off)"
    "0 \<le> lib_addr M r off"
proof -
  let ?s = "rg_start (symbol M (uint r))"
  have b: "0 \<le> uint ?s" "uint ?s < 4194304" "0 \<le> uint off" "uint off < 4194304"
    using assms uint_ge_0 [of ?s] uint_ge_0 [of off] unfolding lib_addr_def by linarith+
  show "0 \<le> lib_addr M r off" using b unfolding lib_addr_def by linarith
  have "uint (?s + u64_of_int (int_of_u32 off)) = lib_addr M r off"
    using b by (simp add: int_of_u32_small lib_addr_def uint_word_ariths uint_u64_of_int)
  then show "int_of_u64 (?s + u64_of_int (int_of_u32 off)) = lib_addr M r off"
    using assms by (simp add: int_of_u64_small)
  have "uint (u64_of_u32 off) = uint off"
    using b by (simp add: u64_of_u32_def unsigned_ucast_eq take_bit_int_eq_self)
  then have "uint (?s + u64_of_u32 off) = lib_addr M r off"
    using b by (simp add: lib_addr_def uint_word_ariths)
  then show "u32_of_u64 (?s + u64_of_u32 off) = u32_of_int (lib_addr M r off)"
    by (simp add: u32_of_u64_uint)
qed

lemma sym_id_int: "sym_id r \<Longrightarrow> int_of_u32 r = uint r \<and> 0 \<le> uint r \<and> uint r < 30"
  by (simp add: sym_id_def int_of_u32_small)

lemma vm_ok_stdout: "vm_ok others (c\<lparr>stdout := out\<rparr>) = vm_ok others c"
  by (simp add: vm_ok_def frame_inv_def)

lemma libread_run:
  assumes ok: "vm_ok others c" and r: "sym_id r" and a: "lib_addr (mm c) r off \<in> vaddrs c"
    and v: "vm_rd c (lib_addr (mm c) r off) = Inr v"
  shows "\<exists>out. libread c r off = Inr (0, Some (u32_of_byte v), c\<lparr>stdout := out\<rparr>)"
proof -
  let ?a = "lib_addr (mm c) r off"
  have M: "mm_ok (mm c)" "dev_ok (mram c)" using ok by (simp_all add: vm_ok_def frame_inv_def)
  have lt: "?a < 4194304" using vaddr_range [OF M(1) a] by simp
  note addr = lib_addr_int [OF lt]
  have pg: "pg_getval c ?a = Inr (0, Some v, c)"
    using v pg_getval_present [of c ?a] vaddr_range [OF M(1) a] vaddr_frame(1) [OF ok a] M(1)
      vm_rd_cell [OF ok a] by simp
  have "symrg_at (mm c) (Some (uint r)) = Inr (symbol (mm c) (uint r))"
    using symrg_at_in [OF M(1), of "uint r"] sym_id_int [OF r]
    by (simp add: get_symrg_byid_def PAGING_MAX_SYMTBL_SZ_def)
  then have "mm_read c 0 (int_of_u32 r) (int_of_u32 off) = Inr (0, Some v, c)"
    using sym_id_int [OF r] get_vma_0 [OF M(1), of 0] pg
    by (simp add: mm_read_def get_symrg_byid_def PAGING_MAX_SYMTBL_SZ_def addr)
  moreover obtain o1 where o1: "print_pgtbl (print_line F_read [AU r, AU off, AI (int_of_byte v)]
      (print_line F_rule [] c)) 0 (u32_of_int (-1)) = Inr (0, c\<lparr>stdout := o1\<rparr>)"
    using print_pgtbl_ok [of "print_line F_read [AU r, AU off, AI (int_of_byte v)] (print_line F_rule [] c)"
        0 "u32_of_int (-1)"] M(1) by (auto simp: print_line_def)
  moreover obtain o2 where "print_dump (print_line F_dump_start [] (c\<lparr>stdout := o1\<rparr>)) =
      Inr (c\<lparr>stdout := o2\<rparr>)"
    using print_dump_ok [of "print_line F_dump_start [] (c\<lparr>stdout := o1\<rparr>)"] M(2)
    by (auto simp: print_line_def)
  ultimately show ?thesis by (simp add: libread_def Let_def) (auto simp: print_line_def)
qed

lemma libwrite_run:
  assumes ok: "vm_ok others c" and r: "sym_id r" and a: "lib_addr (mm c) r off \<in> vaddrs c"
    and w: "vm_wr c (lib_addr (mm c) r off) v = Inr c1"
  shows "\<exists>out. libwrite c v r off = Inr (0, c1\<lparr>stdout := out\<rparr>)"
proof -
  let ?a = "lib_addr (mm c) r off"
  have M: "mm_ok (mm c)" "dev_ok (mram c)" using ok by (simp_all add: vm_ok_def frame_inv_def)
  have lt: "?a < 4194304" using vaddr_range [OF M(1) a] by simp
  note addr = lib_addr_int [OF lt]
  have sym: "symrg_at (mm c) (Some (uint r)) = Inr (symbol (mm c) (uint r))"
    "get_symrg_byid (mm c) (uint r) = Some (uint r)"
    using symrg_at_in [OF M(1), of "uint r"] sym_id_int [OF r]
    by (simp_all add: get_symrg_byid_def PAGING_MAX_SYMTBL_SZ_def)
  have wr_eq: "mm_write (c\<lparr>stdout := out\<rparr>) 0 (uint r) (int_of_u32 off) v = Inr (0, c1\<lparr>stdout := out\<rparr>)" for out
  proof -
    obtain mp where mp: "phy_write (mram c) (vphys (mm c) ?a) v = Inr mp" "c1 = c\<lparr>mram := mp\<rparr>"
      using w unfolding vm_wr_cell [OF ok a] by (auto simp: bindr_eq_Inr_iff)
    have "pg_setval (c\<lparr>stdout := out\<rparr>) ?a v = Inr (0, c1\<lparr>stdout := out\<rparr>)"
      using pg_setval_present [of "c\<lparr>stdout := out\<rparr>" ?a v] vaddr_range [OF M(1) a]
        vaddr_frame(1) [OF ok a] M(1) mp by simp
    then show ?thesis
      using sym get_vma_0 [OF M(1), of 0] by (simp add: mm_write_def addr)
  qed
  have pg: "aget (pgd (mm c)) (uint (PAGING_PGN w)) = Inr (page_pte (mm c) (uint (PAGING_PGN w)))" for w
  proof -
    have "int_of_u32 (PAGING_PGN w) = uint (PAGING_PGN w)"
    proof -
      have "int (unat (PAGING_PGN w)) < int 16384" using PGN_less [of w] by (simp only: of_nat_less_iff)
      then have "uint (PAGING_PGN w) < 16384" unfolding uint_int_unat of_nat_numeral .
      then show ?thesis by (simp add: int_of_u32_small)
    qed
    then show ?thesis using PGN_int [of w] by (intro aget_pgd M(1)) simp_all
  qed
  let ?c1 = "print_line F_write [AU r, AU off, AI (int_of_byte v)] (print_line F_rule [] c)"
  obtain o1 where o1: "print_pgtbl ?c1 0 (u32_of_int (-1)) = Inr (0, c\<lparr>stdout := o1\<rparr>)"
    using print_pgtbl_ok [of ?c1 0 "u32_of_int (-1)"] M(1) by (auto simp: print_line_def)
  let ?c2 = "print_line F_dump_before [] (print_line F_write_head [] (c\<lparr>stdout := o1\<rparr>))"
  obtain o2 where o2: "print_dump ?c2 = Inr (c\<lparr>stdout := o2\<rparr>)"
    using print_dump_ok [of ?c2] M(2) by (auto simp: print_line_def)
  show ?thesis
    using o1 o2 wr_eq sym pg sym_id_int [OF r]
    by (simp add: libwrite_def Let_def) (simp add: print_line_def, blast)
qed


section \<open>Properties\<close>

text \<open>
  C7: \<open>libwrite\<close> then \<open>libread\<close>. Below the break, with the frames owned once, writing a byte
  through a symbol and an offset succeeds, reading the same place gives the byte back
  (sign-extended into the 32-bit destination), and reading any other place below the break,
  through any symbol, gives what it gave before the call.
\<close>

theorem libwrite_libread:
  assumes "vm_ok others c" "sym_id r" "lib_addr (mm c) r off \<in> vaddrs c"
  shows "\<exists>c'. libwrite c v r off = Inr (0, c') \<and> vm_ok others c' \<and> mm c' = mm c \<and>
    (\<forall>s o'. sym_id s \<and> lib_addr (mm c) s o' \<in> vaddrs c \<longrightarrow>
       (\<exists>w out out'. libread c s o' = Inr (0, Some w, c\<lparr>stdout := out\<rparr>) \<and>
          libread c' s o' =
            Inr (0, Some (if lib_addr (mm c) s o' = lib_addr (mm c) r off then u32_of_byte v else w),
                 c'\<lparr>stdout := out'\<rparr>)))"
proof -
  let ?a = "lib_addr (mm c) r off"
  obtain c1 where c1: "vm_wr c ?a v = Inr c1" "vm_ok others c1" "vaddrs c1 = vaddrs c"
    "\<forall>b \<in> vaddrs c. vm_rd c1 b = (if b = ?a then Inr v else vm_rd c b)"
    using vmem.wr_ok [OF assms(1,3)] by blast
  have mm1: "mm c1 = mm c"
    using c1(1) unfolding vm_wr_cell [OF assms(1,3)] by (auto simp: bindr_eq_Inr_iff)
  obtain out where run: "libwrite c v r off = Inr (0, c1\<lparr>stdout := out\<rparr>)"
    using libwrite_run [OF assms c1(1)] by blast
  let ?c' = "c1\<lparr>stdout := out\<rparr>"
  have rd': "vm_rd ?c' b = vm_rd c1 b" if "b \<in> vaddrs c" for b
    using that c1(2,3) vm_rd_cell [of others ?c' b] vm_rd_cell [of others c1 b]
    by (simp add: vm_ok_stdout vaddrs_def)
  have "\<exists>w out out'. libread c s o' = Inr (0, Some w, c\<lparr>stdout := out\<rparr>) \<and>
          libread ?c' s o' =
            Inr (0, Some (if lib_addr (mm c) s o' = ?a then u32_of_byte v else w),
                 ?c'\<lparr>stdout := out'\<rparr>)"
    if s: "sym_id s" "lib_addr (mm c) s o' \<in> vaddrs c" for s o'
  proof -
    let ?b = "lib_addr (mm c) s o'"
    obtain w where w: "vm_rd c ?b = Inr w" using vmem.rd_ok [OF assms(1) s(2)] by blast
    obtain o1 where "libread c s o' = Inr (0, Some (u32_of_byte w), c\<lparr>stdout := o1\<rparr>)"
      using libread_run [OF assms(1) s w] by blast
    moreover have "vm_rd ?c' ?b = Inr (if ?b = ?a then v else w)"
      using rd' [OF s(2)] c1(4) s(2) w by simp
    moreover have "vm_ok others ?c'" "lib_addr (mm ?c') s o' \<in> vaddrs ?c'"
      using c1(2,3) s(2) by (simp_all add: vm_ok_stdout mm1 vaddrs_def)
    ultimately show ?thesis
      using libread_run [of others ?c' s o'] s(1) by (auto simp: mm1)
  qed
  then show ?thesis using run c1(2) mm1 by (intro exI [of _ ?c']) (simp add: vm_ok_stdout)
qed


text \<open>A process with two mapped pages, for the witnesses.\<close>

lemma grown_caller0:
  obtains c where "vm_ok {} c" "brk (mm c) = 512" "symrgtbl (mm c) = symrgtbl mm0"
    "frames (mram c) = [2, 3]" "active_mswp c = Some dev1k" "victim_items (mm c) = [0, 1]"
    "\<forall>p \<ge> 2. page_pte (mm c) p = 0" "phy_addrs (mram c) = {0..<1024}"
proof -
  have al: "PAGING_PAGE_ALIGNSZ 300 = 512" by (simp add: align_eq)
  have c0: "mm caller0 = mm0" "active_mswp caller0 = Some dev1k" by (simp_all add: caller0_def)
  obtain c where c: "mm_ok (mm c)" "frame_inv {} c" "grown caller0 512 c"
    using inc_vma_limit_grows [of caller0 "{}" 0 300] mm0_ok frame_inv_caller0 frames_caller0 brk_mm0
    by (auto simp: al c0)
  have np: "npages mm0 = 0" "npages (mm c) = 2"
    using c(3) brk_mm0 by (simp_all add: npages_def grown_def c0)
  have "phy_addrs (mram c) = phy_addrs (mram caller0)"
    using c(3) by (intro phy_addrs_cells) (simp add: grown_def)
  moreover have "phy_addrs (mram caller0) = {0..<1024}"
    by (auto simp: caller0_def dev1k_def phy_addrs_def)
  moreover have "victim_items (mm c) = [0, 1]"
  proof -
    have "victim_items mm0 = []" by (simp add: victim_items_def mm0_def)
    then have "victim_items (mm c) = [0..1]" using c(3) np by (simp add: grown_def c0)
    then show ?thesis by (simp add: upto_rec1)
  qed
  moreover have "\<forall>p \<ge> 2. page_pte (mm c) p = 0"
    using c(3) np by (simp add: grown_def c0) (simp add: page_pte_def mm0_def)
  ultimately show thesis
    using that [of c] brk_mm0 frames_caller0 c by (simp add: vm_ok_def grown_def c0)
qed

lemma symbol_mm0: "i < 30 \<Longrightarrow> symrgtbl M = symrgtbl mm0 \<Longrightarrow> rg_start (symbol M i) = 0"
  by (simp add: symbol_def mm0_def)

theorem libwrite_libread_witness:
  "\<exists>c c' c''. brk (mm c) = 512 \<and> libwrite c 200 3 260 = Inr (0, c') \<and>
    libread c' 3 260 = Inr (0, Some (u32_of_byte 200), c'')"
proof -
  obtain c where c: "vm_ok {} c" "brk (mm c) = 512" "symrgtbl (mm c) = symrgtbl mm0"
    by (rule grown_caller0)
  have a: "sym_id 3" "lib_addr (mm c) 3 260 \<in> vaddrs c"
    using symbol_mm0 [of 3, OF _ c(3)] by (simp_all add: sym_id_def lib_addr_def vaddrs_def c(2))
  obtain c' where c': "libwrite c 200 3 260 = Inr (0, c')"
    "\<forall>s o'. sym_id s \<and> lib_addr (mm c) s o' \<in> vaddrs c \<longrightarrow>
       (\<exists>w out out'. libread c s o' = Inr (0, Some w, c\<lparr>stdout := out\<rparr>) \<and>
          libread c' s o' =
            Inr (0, Some (if lib_addr (mm c) s o' = lib_addr (mm c) 3 260 then u32_of_byte 200 else w),
                 c'\<lparr>stdout := out'\<rparr>))"
    using libwrite_libread [OF c(1) a, of 200] by (elim exE conjE) (rule that)
  then have "\<exists>out'. libread c' 3 260 = Inr (0, Some (u32_of_byte 200), c'\<lparr>stdout := out'\<rparr>)"
    using c'(2) [rule_format, OF conjI [OF a]] by auto
  then show ?thesis using c(2) c'(1) by blast
qed

text \<open>
  Isolation. A byte written by one process through \<open>libwrite\<close> changes no cell of a frame
  that belongs to another process, and none of the free frames, whatever symbol and offset it
  uses below its break.
\<close>

theorem libwrite_isolation:
  assumes "vm_ok others c" "sym_id r" "lib_addr (mm c) r off \<in> vaddrs c"
    and "f \<in> others \<union> set (frames (mram c))" "x \<in> page_addrs f"
  shows "\<exists>c'. libwrite c v r off = Inr (0, c') \<and> phy_read (mram c') x = phy_read (mram c) x"
proof -
  let ?a = "lib_addr (mm c) r off"
  let ?g = "page_frame (mm c) (?a div 256)"
  have inv: "frame_inv others c" and dev: "dev_ok (mram c)"
    using assms(1) by (simp_all add: vm_ok_def frame_inv_def)
  note fr = vaddr_frame [OF assms(1,3)]
  obtain c1 where c1: "vm_wr c ?a v = Inr c1" using vmem.wr_ok [OF assms(1,3)] by blast
  then obtain mp where mp: "phy_write (mram c) (vphys (mm c) ?a) v = Inr mp" "c1 = c\<lparr>mram := mp\<rparr>"
    unfolding vm_wr_cell [OF assms(1,3)] by (auto simp: bindr_eq_Inr_iff)
  have "f \<noteq> ?g" using inv fr(2) assms(4) by (auto simp: frame_inv_def)
  then have "x \<noteq> vphys (mm c) ?a"
    using fr(3) assms(5) unfolding page_addrs_def atLeastLessThan_iff by linarith
  then have "phy_read mp x = phy_read (mram c) x"
    using phy_write_random [OF dev fr(4), of v] mp(1) by auto
  then show ?thesis
    using libwrite_run [OF assms(1-3) c1] mp(2) by auto
qed

theorem libwrite_isolation_witness:
  "\<exists>c c'. brk (mm c) = 512 \<and> libwrite c 7 3 260 = Inr (0, c') \<and>
    phy_read (mram c') 515 = phy_read (mram c) 515"
proof -
  obtain c where c: "vm_ok {} c" "brk (mm c) = 512" "symrgtbl (mm c) = symrgtbl mm0"
    "frames (mram c) = [2, 3]"
    by (rule grown_caller0)
  have a: "sym_id 3" "lib_addr (mm c) 3 260 \<in> vaddrs c"
    using symbol_mm0 [of 3, OF _ c(3)] by (simp_all add: sym_id_def lib_addr_def vaddrs_def c(2))
  show ?thesis
    using libwrite_isolation [OF c(1) a, of 2 515 7] c(2,4) by (auto simp: page_addrs_def)
qed

section \<open>The page fault path\<close>

lemma swap_cp_page_src:
  assumes "swap_cp_page src s dst d = Inr (rc, src', dst')"
  shows "src' = src"
  using assms unfolding swap_cp_page_loop by (auto simp: bindr_eq_Inr_iff)

lemma sys_memmap_swp_ram:
  assumes "sys_memmap c (memmap_regs SYSMEM_SWP_OP x y) = Inr (rc, regs, c')"
  shows "mram c' = mram c \<and> mm c' = mm c"
  using assms
  by (auto simp: sys_memmap_swp mm_swap_page_def bindr_eq_Inr_iff dest: swap_cp_page_src)

lemma aget_pgd_iff: "aget (pgd M) p = Inr v \<longleftrightarrow> in_bounds (pgd M) p \<and> v = page_pte M p"
  by (auto simp: aget_def page_pte_def)

lemma page_pte_fifo [simp]: "page_pte (M\<lparr>fifo_pgn := q\<rparr>) p = page_pte M p"
  by (simp add: page_pte_def)

text \<open>
  C32: the page fault path never loads the page. When \<open>pg_getpage\<close> returns for a page that was
  not present, RAM is exactly what it was: both copies go from RAM to the swap device. The page
  is then mapped to the frame of the victim, so what the process reads from it are the victim's
  bytes.
\<close>

theorem page_fault_keeps_ram:
  assumes "pg_getpage c pgn = Inr (rc, fpn, c')" "\<not> pte_present (page_pte (mm c) pgn)" "0 \<le> pgn"
  shows "\<exists>vic M. find_victim_page (mm c) = Inr (0, Some vic, M) \<and> mram c' = mram c \<and>
    rc = 0 \<and> fpn = page_frame M vic \<and> pte_present (page_pte (mm c') pgn) \<and>
    page_frame (mm c') pgn = page_frame M vic"
proof -
  have pte: "aget (pgd (mm c)) pgn = Inr (page_pte (mm c) pgn)"
    using assms(1,3) by (auto simp: pg_getpage_def bindr_eq_Inr_iff aget_def page_pte_def split: if_splits)
  have absent: "PAGING_PAGE_PRESENT (page_pte (mm c) pgn) = 0"
    using assms(2) by (simp add: pte_present_def)
  obtain r vic M r2 swpfpn swp where v: "find_victim_page (mm c) = Inr (r, Some vic, M)"
    and s: "MEMPHY_get_freefp (active_mswp c) = Inr (r2, Some swpfpn, swp)"
    using assms(1)
    by (auto simp: pg_getpage_def pte absent bindr_eq_Inr_iff Let_def split: option.splits)
  have r: "r = 0" using v by (auto simp: find_victim_page_def bindr_eq_Inr_iff split: chain.splits)
  let ?c1 = "c\<lparr>mm := M, active_mswp := swp\<rparr>"
  let ?f = "int_of_u32 (PAGING_FPN (page_pte M vic))"
  obtain c2 M2 c3 M3 regs2 regs3 rc2 rc3 where
    c2: "sys_memmap ?c1 (memmap_regs SYSMEM_SWP_OP ?f swpfpn) = Inr (rc2, regs2, c2)"
    and M2: "pgd_modify (mm c2) vic (\<lambda>pte. snd (pte_set_swap pte 0 swpfpn)) = Inr M2"
    and c3: "sys_memmap (c2\<lparr>mm := M2\<rparr>) (memmap_regs SYSMEM_SWP_OP
        (int_of_u32 (PAGING_PTE_SWP (page_pte (mm c) pgn))) ?f) = Inr (rc3, regs3, c3)"
    and M3: "pgd_modify (mm c3) pgn (\<lambda>pte. snd (pte_set_fpn pte ?f)) = Inr M3"
    and run: "rc = 0" "fpn = int_of_u32 (PAGING_FPN (page_pte M3 pgn))"
      "c' = c3\<lparr>mm := M3\<lparr>fifo_pgn := snd (enlist_pgn_node (fifo_pgn M3) pgn)\<rparr>\<rparr>"
    using assms(1)
    by (auto simp: pg_getpage_def pte absent v s bindr_eq_Inr_iff Let_def aget_pgd_iff)
  have ram: "mram c' = mram c"
    using run(3) sys_memmap_swp_ram [OF c2] sys_memmap_swp_ram [OF c3] by simp
  have new: "page_pte M3 pgn = snd (pte_set_fpn (page_pte (mm c3) pgn) ?f)"
    using M3 by (auto simp: pgd_modify_def bindr_eq_Inr_iff aget_def aset_def page_pte_def split: if_splits)
  have "?f = page_frame M vic" by (simp add: int_of_u32_FPN page_frame_def)
  moreover have "resident M3 pgn \<and> page_frame M3 pgn = page_frame M vic"
    using new page_frame_range [of M vic] unfolding calculation by (intro set_fpn_resident) simp_all
  ultimately show ?thesis
    using v r ram run(1,2) by (auto simp: run(3) page_frame_def resident_def int_of_u32_FPN page_pte_def)
qed


text \<open>When a page fault returns at all: a victim, a free swap frame, and both copies in range.\<close>

lemma page_fault_runs:
  assumes ok: "vm_ok others c" and pgn: "0 \<le> pgn" "pgn < 16384" "page_pte (mm c) pgn = 0"
    and vic: "victim_items (mm c) = vic # vs" "0 \<le> vic" "vic < 16384"
    and swp: "dev_ok (active_mswp c)" "frames_ok (active_mswp c)" "frames (active_mswp c) = sf # fs"
      "0 \<le> sf" "sf < 8192" "page_addrs sf \<subseteq> phy_addrs (active_mswp c)"
    and f: "page_addrs (page_frame (mm c) vic) \<subseteq> phy_addrs (mram c)"
      "page_addrs (page_frame (mm c) vic) \<subseteq> phy_addrs (active_mswp c)"
    and zero: "page_addrs 0 \<subseteq> phy_addrs (mram c)"
  shows "\<exists>fpn c'. pg_getpage c pgn = Inr (0, fpn, c')"
proof -
  let ?f = "page_frame (mm c) vic"
  have M: "mm_ok (mm c)" "dev_ok (mram c)" using ok by (simp_all add: vm_ok_def frame_inv_def)
  have fr: "0 \<le> ?f" "?f < 8192" using page_frame_range [of "mm c" vic] by simp_all
  have "victim_queue_ok (mm c)" using M(1) by (auto simp: victim_queue_ok_def mm_ok_def)
  then obtain ys where ys: "fifo_pgn (mm c) = chain_of ys" "nodes (fifo_pgn (mm c)) = ys"
    unfolding victim_queue_ok_def by (rule chain_okE)
  have "ys = rev vs @ [vic]" using ys vic(1) by (simp add: victim_items_def rev_swap)
  then have v: "find_victim_page (mm c) = Inr (0, Some vic, (mm c)\<lparr>fifo_pgn := chain_of (rev vs)\<rparr>)"
    using find_victim_page_chain [OF ys(1)] by simp
  obtain sw where sw: "MEMPHY_get_freefp (active_mswp c) = Inr (0, Some sf, sw)" "cells_of sw = cells_of (active_mswp c)"
    using memphy_pool.get_first [OF swp(2,3)] by blast
  have swok: "dev_ok sw" "phy_addrs sw = phy_addrs (active_mswp c)"
    using swp(1) dev_ok_cells [OF sw(2)] phy_addrs_cells [OF sw(2)] by simp_all
  obtain s1 where s1: "swap_cp_page (mram c) ?f sw sf = Inr (0, mram c, s1)" "dev_ok s1"
      "phy_addrs s1 = phy_addrs sw"
    using swap_cp_page_copies [of "mram c" sw ?f sf] M(2) swok fr swp(4-6) f(1) by auto
  obtain s2 where s2: "swap_cp_page (mram c) 0 s1 ?f = Inr (0, mram c, s2)"
    using swap_cp_page_copies [of "mram c" s1 0 ?f] M(2) s1 swok fr f(2) zero by auto
  have alen: "alen (pgd (mm c)) = 16384" using M(1) by (rule mm_okE)
  let ?M1 = "(mm c)\<lparr>fifo_pgn := chain_of (rev vs)\<rparr>"
  obtain M2 where M2: "pgd_modify ?M1 vic (\<lambda>pte. snd (pte_set_swap pte 0 sf)) = Inr M2"
    "alen (pgd M2) = 16384"
    using vic(2,3) alen by (simp add: pgd_modify_in)
  obtain M3 where M3: "pgd_modify M2 pgn (\<lambda>pte. snd (pte_set_fpn pte ?f)) = Inr M3"
    "alen (pgd M3) = 16384"
    using pgn(1,2) M2(2) by (simp add: pgd_modify_in)
  have "aget (pgd M3) pgn = Inr (page_pte M3 pgn)"
    using pgn(1,2) M3(2) by (simp add: aget_def in_bounds_def page_pte_def)
  moreover have "int_of_u32 (PAGING_FPN (page_pte (mm c) vic)) = ?f"
    by (simp add: int_of_u32_FPN page_frame_def)
  moreover have "PAGING_PAGE_PRESENT 0 = 0" "PAGING_PTE_SWP 0 = 0"
    by (simp_all add: PAGING_PAGE_PRESENT_def PAGING_PTE_SWP_def GETVAL_def)
  ultimately show ?thesis
    using aget_pgd [OF M(1) pgn(1,2)] aget_pgd [OF M(1) vic(2,3)] pgn(3) v sw(1) s1(1) s2 M2(1) M3(1)
      fr swp(4,5)
    by (simp add: pg_getpage_def Let_def sys_memmap_swp i32_small mm_swap_page_def int_of_u32_small)
qed

theorem page_fault_keeps_ram_witness:
  "\<exists>c fpn c'. pg_getpage c 5 = Inr (0, fpn, c') \<and> \<not> pte_present (page_pte (mm c) 5) \<and>
    mram c' = mram c \<and> pte_present (page_pte (mm c') 5)"
proof -
  obtain c where c: "vm_ok {} c" "active_mswp c = Some dev1k" "victim_items (mm c) = [0, 1]"
    "\<forall>p \<ge> 2. page_pte (mm c) p = 0" "phy_addrs (mram c) = {0..<1024}" "brk (mm c) = 512"
    by (rule grown_caller0)
  have swp: "dev_ok (Some dev1k)" "frames_ok (Some dev1k)" "frames (Some dev1k) = 0 # [1, 2, 3]"
    "phy_addrs (Some dev1k) = {0..<1024}"
    by (auto simp: dev_ok_def frames_ok_def frames_def dev1k_def phy_addrs_def)
  have "0 \<in> vaddrs c" using c(6) by (simp add: vaddrs_def)
  then have "page_frame (mm c) 0 \<in> set (frame_list (mm c))" using vaddr_frame(2) [OF c(1)] by force
  then have f: "page_addrs (page_frame (mm c) 0) \<subseteq> {0..<1024}"
    using c(1,5) by (auto simp: vm_ok_def frame_inv_def)
  have z: "page_addrs 0 \<subseteq> {0..<1024}" by (auto simp: page_addrs_def)
  obtain fpn c' where run: "pg_getpage c 5 = Inr (0, fpn, c')"
    using page_fault_runs [OF c(1), of 5 0 "[1]" 0 "[1, 2, 3]"] c swp f z by auto
  have "\<not> pte_present (page_pte (mm c) 5)"
    using c(4) by (simp add: pte_present_def PAGING_PAGE_PRESENT_def)
  then show ?thesis using page_fault_keeps_ram [OF run] run by auto
qed


lemma swap_entry_fpn:
  assumes "pte' = snd (pte_set_swap pte 0 off)" "0 \<le> off" "off < 2097152"
  shows "pte_present pte' \<and> uint (PAGING_FPN pte') = off mod 256 * 32"
proof -
  let ?x = "unat pte'"
  have off: "?x div 32 mod 2097152 = nat off"
  proof -
    have "unat (PAGING_SWPFPN pte') = nat off mod 2 ^ 21"
      using swp_fields.g.unat_get_put unat_u32_of_int_mod [OF assms(2), of 21] assms(1)
      by (simp add: pte_set_swap_put)
    then show ?thesis using assms(3) by (simp add: unat_SWPFPN)
  qed
  have low: "?x mod 32 = 0"
  proof -
    have "unat (PAGING_SWPTYP pte') = 0"
      using assms(1) by (simp add: pte_set_swap_put swp_fields.get1_put2 swp_fields.f.unat_get_put
          u32_of_int_def)
    moreover have "unat (PAGING_SWPTYP pte') = ?x mod 2 ^ 5"
      unfolding PAGING_SWPTYP_def paging_consts by (subst unat_GETVAL) simp_all
    ultimately show ?thesis by simp
  qed
  have "?x mod 8192 = 32 * (?x div 32 mod 256) + ?x mod 32"
    using mod_mult2_eq [of ?x 32 256] by simp
  also have "?x div 32 mod 256 = (?x div 32 mod 2097152) mod 256"
    using mod_mod_cancel [of 256 2097152 "?x div 32"] by simp
  finally have "unat (PAGING_FPN pte') = 32 * (nat off mod 256)"
    using low off by (simp add: unat_FPN)
  then have "uint (PAGING_FPN pte') = off mod 256 * 32"
    using assms(2) by (simp add: uint_int_unat zmod_int)
  then show ?thesis using assms(1) by (simp add: pte_set_swap_put)
qed

text \<open>
  A swapped page is never brought back. \<open>pte_set_swap\<close> leaves the present bit set, so
  \<open>pg_getpage\<close> takes the entry of a swapped page for a page in RAM: it returns a frame number
  cut out of the swap offset, and swaps nothing in.
\<close>

theorem swapped_page_not_fetched:
  assumes "mm_ok (mm c)" "0 \<le> p" "p < 16384" "0 \<le> off" "off < 2097152"
    and "page_pte (mm c) p = snd (pte_set_swap pte 0 off)"
  shows "pg_getpage c p = Inr (0, off mod 256 * 32, c)"
  using pg_getpage_present [OF assms(1-3)] swap_entry_fpn [OF assms(6,4,5)]
  by (simp add: page_frame_def)

theorem swapped_page_not_fetched_witness:
  "\<exists>c. resident (mm c) 0 = False \<and> pg_getpage c 0 = Inr (0, 96, c)"
proof -
  let ?M = "mm0\<lparr>pgd := CArray 16384 (\<lambda>_. snd (pte_set_swap 0 0 3))\<rparr>"
  have "mm_ok ?M" using mm0_ok by (simp add: mm_ok_def)
  moreover have "page_pte ?M 0 = snd (pte_set_swap 0 0 3)" by (simp add: page_pte_def)
  ultimately show ?thesis
    using swapped_page_not_fetched [of "caller0\<lparr>mm := ?M\<rparr>" 0 3 0]
    by (intro exI [of _ "caller0\<lparr>mm := ?M\<rparr>"]) (simp add: resident_def pte_set_swap_put)
qed

text \<open>
  C37: the first byte of a fresh process. Its only free region is the empty one \<open>init_mm\<close> lists;
  the off-by-one test accepts it for one byte. \<open>__alloc\<close> reports success with the break still 0,
  and the first write to the new region takes the page fault path with no page to evict, whose
  unset victim number it uses.
\<close>

theorem first_byte_unmapped:
  assumes "mm_ok (mm c)" "free_regions (mm c) = [\<lparr>rg_start = 0, rg_end = 0\<rparr>]" "brk (mm c) = 0"
    and "page_pte (mm c) 0 = 0" "fifo_pgn (mm c) = Null" "frames_ok (active_mswp c)"
    and "0 \<le> rgid" "rgid < 30"
  shows "\<exists>c'. mm_alloc c 0 rgid 1 = Inr (0, Some 0, c') \<and> reg (symbol (mm c') rgid) = {0..<1} \<and>
    brk (mm c') = 0 \<and> mm_write c' 0 rgid 0 v = Inl UninitRead"
proof -
  let ?z = "\<lparr>rg_start = 0, rg_end = 0\<rparr> :: vm_rg_struct"
  have fit: "\<exists>x \<in> set (free_regions (mm c)). fits 1 x"
    using assms(2) by (simp add: fits_def u64_of_int_def)
  obtain c' where c': "mm_alloc c 0 rgid 1 = Inr (0, Some 0, c')"
    "c' = c\<lparr>mm := with_sym (with_free (mm c) [rest_of 1 ?z]) rgid (taken 1 ?z)\<rparr>"
    using mm_alloc_hole [OF assms(1,7,8) fit] assms(2) by (force simp: int_of_u64_small)
  have ok: "mm_ok (mm c')" using assms(1) by (simp add: c'(2) upd_simps)
  have sym: "symbol (mm c') rgid = taken 1 ?z" using assms(7) by (simp add: c'(2) upd_simps)
  have fields: "brk (mm c') = 0" "page_pte (mm c') 0 = 0" "fifo_pgn (mm c') = Null" "active_mswp c' = active_mswp c"
    using assms(3-5) by (simp_all add: c'(2) upd_simps page_pte_def)
  obtain r w p' where get: "MEMPHY_get_freefp (active_mswp c') = Inr (r, w, p')"
    using memphy_pool.get_total [OF assms(6)] fields(4) by metis
  have "pg_getpage c' 0 = Inl UninitRead"
    using aget_pgd [OF ok, of 0] fields get
    by (simp add: pg_getpage_def PAGING_PAGE_PRESENT_def find_victim_page_def Let_def)
  then have set: "pg_setval c' 0 v = Inl UninitRead"
    using pgn_of_addr [of 0] by (simp add: pg_setval_def)
  have "get_symrg_byid (mm c') rgid = Some rgid"
    using assms(7,8) by (simp add: get_symrg_byid_def PAGING_MAX_SYMTBL_SZ_def)
  then have "mm_write c' 0 rgid 0 v = Inl UninitRead"
    using symrg_at_in [OF ok assms(7,8)] get_vma_0 [OF ok, of 0] sym set
    by (simp add: mm_write_def taken_def u64_of_int_def int_of_u64_small)
  moreover have "reg (symbol (mm c') rgid) = {0..<1}"
    by (simp add: sym taken_def reg_def u64_of_int_def)
  ultimately show ?thesis using c'(1) fields(1) by blast
qed

theorem first_byte_unmapped_witness:
  "\<exists>c'. mm_alloc caller0 0 4 1 = Inr (0, Some 0, c') \<and> mm_write c' 0 4 0 77 = Inl UninitRead"
proof -
  have "free_regions mm0 = [\<lparr>rg_start = 0, rg_end = 0\<rparr>]" "page_pte mm0 0 = 0" "fifo_pgn mm0 = Null"
    by (simp_all add: mm0_def free_regions_def area_def init_mm_area page_pte_def)
  moreover have "mm caller0 = mm0" "frames_ok (active_mswp caller0)"
    by (simp_all add: caller0_def frames_ok_def dev1k_def)
  ultimately show ?thesis
    using first_byte_unmapped [of caller0 4 77] mm0_ok brk_mm0 by auto
qed

section \<open>Returning frames\<close>

text \<open>
  The body of the loop of \<open>free_pcb_memph\<close>, and its invariant: before round \<open>i\<close>, one number has been put
  on a list for each of the pages below \<open>i\<close>.
\<close>

definition return_frame :: "int \<Rightarrow> caller \<Rightarrow> caller res" where
  "return_frame pagenum c =
    bindr (aget (pgd (mm c)) pagenum) (\<lambda>pte.
    if PAGING_PAGE_PRESENT pte = 0 then
      bindr (MEMPHY_put_freefp (mram c) (int_of_u32 (PAGING_PTE_FPN pte))) (\<lambda>(_, mp).
      Inr (c\<lparr>mram := mp\<rparr>))
    else
      bindr (MEMPHY_put_freefp (active_mswp c) (int_of_u32 (PAGING_PTE_SWP pte))) (\<lambda>(_, mp).
      Inr (c\<lparr>active_mswp := mp\<rparr>)))"

definition swap_number :: "mm_struct \<Rightarrow> int \<Rightarrow> int" where
  "swap_number M p = int_of_u32 (PAGING_PTE_SWP (page_pte M p))"

definition returned :: "caller \<Rightarrow> int \<Rightarrow> caller \<Rightarrow> bool" where
  "returned c i d \<longleftrightarrow> mm d = mm c \<and> frames_ok (mram d) \<and> frames_ok (active_mswp d) \<and>
    frames (mram d) = replicate (nat (i - npages (mm c))) 0 @ frames (mram c) \<and>
    frames (active_mswp d) = rev (map (swap_number (mm c)) [0..min i (npages (mm c)) - 1]) @ frames (active_mswp c)"

lemma return_present:
  assumes inv: "frame_inv others c" and M: "mm_ok (mm c)" and i: "0 \<le> i" "i < npages (mm c)" "i < 16384"
    and P: "returned c i d"
  shows "\<exists>d'. return_frame i d = Inr d' \<and> returned c (i + 1) d'"
proof -
  let ?n = "npages (mm c)"
  have "pte_present (page_pte (mm c) i)"
    using inv i(1,2) by (auto simp: frame_inv_def resident_def)
  moreover obtain p' where "MEMPHY_put_freefp (active_mswp d) (swap_number (mm c) i) = Inr (0, p')" "frames_ok p'"
      "frames p' = swap_number (mm c) i # frames (active_mswp d)"
    using memphy_pool.put_first [of "active_mswp d" "swap_number (mm c) i"] P by (auto simp: returned_def)
  moreover have "[0..min (i + 1) ?n - 1] = [0..min i ?n - 1] @ [i]"
    using i upto_snoc [of 0 i] by simp
  ultimately show ?thesis
    using P i aget_pgd [OF M i(1,3)] by (simp add: return_frame_def returned_def pte_present_def swap_number_def)
qed

lemma return_absent:
  assumes M: "mm_ok (mm c)" and i: "0 \<le> i" "npages (mm c) \<le> i" "i < 16384" "page_pte (mm c) i = 0"
    and P: "returned c i d"
  shows "\<exists>d'. return_frame i d = Inr d' \<and> returned c (i + 1) d'"
proof -
  have zero: "PAGING_PAGE_PRESENT 0 = 0" "int_of_u32 (PAGING_PTE_FPN 0) = 0"
    by (simp_all add: PAGING_PAGE_PRESENT_def PAGING_PTE_FPN_def GETVAL_def int_of_u32_def i32_def)
  obtain p' where "MEMPHY_put_freefp (mram d) 0 = Inr (0, p')" "frames_ok p'" "frames p' = 0 # frames (mram d)"
    using memphy_pool.put_first [of "mram d" 0] P by (auto simp: returned_def)
  moreover have "nat (i + 1 - npages (mm c)) = Suc (nat (i - npages (mm c)))" using i(2) by simp
  moreover have "min (i + 1) (npages (mm c)) = min i (npages (mm c))" using i(2) by simp
  ultimately show ?thesis
    using P aget_pgd [OF M i(1,3)] i(4) zero by (simp add: return_frame_def returned_def)
qed

text \<open>
  C36: \<open>free_pcb_memph\<close> has the test for presence the wrong way round. For a process whose pages
  above the break were never mapped it puts frame 0 on RAM's free list once for every one of
  them and puts none of the frames the process really holds there; for each resident page it
  puts a number cut out of the entry on the swap device's list.
\<close>

theorem free_pcb_memph_frames:
  assumes "vm_ok others c" "frames_ok (active_mswp c)"
    and "\<forall>p \<ge> npages (mm c). page_pte (mm c) p = 0"
  shows "\<exists>c'. free_pcb_memph c = Inr (0, c') \<and> mm c' = mm c \<and>
    frames (mram c') = replicate (16384 - nat (npages (mm c))) 0 @ frames (mram c) \<and>
    frames (active_mswp c') =
      rev (map (\<lambda>p. int_of_u32 (PAGING_PTE_SWP (page_pte (mm c) p))) [0..npages (mm c) - 1]) @
      frames (active_mswp c)"
proof -
  let ?n = "npages (mm c)"
  have M: "mm_ok (mm c)" and inv: "frame_inv others c" using assms(1) by (simp_all add: vm_ok_def)
  have n: "0 \<le> ?n" "?n \<le> 16384" using brk_range [OF M]
    by (auto simp: npages_def pos_imp_zdiv_nonneg_iff elim!: dvdE)
  have step: "\<exists>d'. return_frame i d = Inr d' \<and> returned c (i + 1) d'" if "0 \<le> i" "i < 16384" "returned c i d" for i d
    using that return_present [OF inv M] return_absent [OF M] assms(3) by (cases "i < ?n") simp_all
  have start: "returned c 0 c" using n inv assms(2) by (simp add: returned_def frame_inv_def)
  have "\<exists>s'. for_loop 0 16384 return_frame c = Inr s' \<and> returned c 16384 s'"
    by (rule for_loop_rule [where P = "returned c", OF start]) (simp, rule step)
  then obtain c' where c': "for_loop 0 16384 return_frame c = Inr c'" "returned c 16384 c'" by blast
  then have "free_pcb_memph c = Inr (0, c')"
    by (simp add: free_pcb_memph_def return_frame_def [abs_def] paging_consts)
  moreover have "nat (16384 - ?n) = 16384 - nat ?n" using n by (simp add: nat_diff_distrib)
  ultimately show ?thesis
    using c'(2) n by (intro exI [of _ c']) (simp add: returned_def swap_number_def [abs_def])
qed

theorem free_pcb_memph_frames_witness:
  "\<exists>c c'. vm_ok {} c \<and> brk (mm c) = 512 \<and> free_pcb_memph c = Inr (0, c') \<and>
    frames (mram c') = replicate 16382 0 @ [2, 3]"
proof -
  obtain c where c: "vm_ok {} c" "active_mswp c = Some dev1k" "frames (mram c) = [2, 3]"
    "\<forall>p \<ge> 2. page_pte (mm c) p = 0" "brk (mm c) = 512"
    by (rule grown_caller0)
  have "frames_ok (Some dev1k)" by (simp add: frames_ok_def dev1k_def)
  then show ?thesis
    using free_pcb_memph_frames [OF c(1)] c by (auto simp: npages_def)
qed

end
