(* ===== verification/Libcalls.thy ===== *)
theory Libcalls
  imports Heap Vmem
begin

text \<open>
  The four library calls of \<open>src/libmem.c\<close> as a process makes them, reports included: when they
  succeed, and that they keep the heap of the caller and the ownership of the frames.
\<close>

definition proc_ok :: "int set \<Rightarrow> caller \<Rightarrow> bool" where
  "proc_ok others c \<longleftrightarrow> heap_inv (mm c) \<and> frame_inv others c"

text \<open>A call that keeps the invariants and the size of RAM, and writes no page of its own.\<close>

definition keeps :: "int set \<Rightarrow> caller \<Rightarrow> caller \<Rightarrow> bool" where
  "keeps others c c' \<longleftrightarrow> proc_ok others c' \<and> phy_addrs (mram c') = phy_addrs (mram c)"

lemma proc_ok_vm_ok: "proc_ok others c \<Longrightarrow> vm_ok others c"
  by (simp add: proc_ok_def vm_ok_def heap_inv_def)

lemma proc_ok_stdout [simp]: "proc_ok others (c\<lparr>stdout := out\<rparr>) = proc_ok others c"
  by (simp add: proc_ok_def frame_inv_def)

lemma keeps_stdout [simp]:
  "keeps others c (c'\<lparr>stdout := out\<rparr>) = keeps others c c'"
  "keeps others (c\<lparr>stdout := out\<rparr>) c' = keeps others c c'"
  by (simp_all add: keeps_def)

lemma print_line_stdout: "print_line f as c = c\<lparr>stdout := stdout c @ [Line f as]\<rparr>"
  by (simp add: print_line_def)

lemma print_free_list_ok: "\<exists>out. print_free_list (chain_of rs) c = Inr (c\<lparr>stdout := out\<rparr>)"
proof (induction rs arbitrary: c)
  case Nil
  show ?case by (intro exI [of _ "stdout c"]) simp
next
  case (Cons r rs)
  then show ?case by (simp add: print_line_def) (metis (no_types) caller.cases caller.update_convs(5))
qed

lemma print_heap_ok:
  assumes "mm_ok (mm c)"
  shows "\<exists>out. print_heap c = Inr (c\<lparr>stdout := out\<rparr>)"
proof -
  obtain o1 where o1: "print_pgtbl c 0 (u32_of_int (-1)) = Inr (0, c\<lparr>stdout := o1\<rparr>)"
    using print_pgtbl_ok [OF assms] by blast
  have "\<exists>out. print_free_list (vm_freerg_list (area (mm c))) (c\<lparr>stdout := u\<rparr>) = Inr (c\<lparr>stdout := out\<rparr>)" for u
    using print_free_list_ok [of "free_regions (mm c)" "c\<lparr>stdout := u\<rparr>"] free_chain(1) [OF assms] by simp
  then obtain F where
    "\<And>u. print_free_list (vm_freerg_list (area (mm c))) (c\<lparr>stdout := u\<rparr>) = Inr (c\<lparr>stdout := F u\<rparr>)"
    by metis
  then show ?thesis
    using o1 get_vma_0 [OF assms, of 0] vma_at_0 [OF assms]
    by (simp add: print_heap_def Let_def print_line_def) (rule exI, rule refl)
qed

section \<open>Allocating\<close>

text \<open>When an allocation of \<open>sz\<close> bytes is neither hit by the off-by-one test nor out of space.\<close>

definition can_alloc :: "caller \<Rightarrow> int \<Rightarrow> bool" where
  "can_alloc c sz \<longleftrightarrow> 0 < sz \<and> sz \<le> 4194304 \<and>
    (\<forall>r \<in> set (free_regions (mm c)). rlen r \<noteq> sz - 1) \<and>
    ((\<exists>r \<in> set (free_regions (mm c)). sz \<le> rlen r) \<or>
     brk (mm c) + PAGING_PAGE_ALIGNSZ sz \<le> 4194304 \<and>
     nat (PAGING_PAGE_ALIGNSZ sz div 256) \<le> length (frames (mram c)))"

lemma liballoc_run:
  assumes ok: "proc_ok others c" and r: "sym_id r" and sz: "can_alloc c (uint sz)"
  shows "\<exists>c' a. liballoc c sz r = Inr (0, c') \<and> keeps others c c' \<and>
    cells_of (mram c') = cells_of (mram c) \<and> reg (symbol (mm c') (uint r)) = {a..<a + uint sz}"
proof -
  note id = sym_id_int [OF r]
  have len: "int_of_u32 sz = uint sz" using sz by (intro int_of_u32_small) (simp add: can_alloc_def)
  obtain a c1 where c1: "mm_alloc c 0 (uint r) (uint sz) = Inr (0, Some a, c1)"
    "heap_inv (mm c1)" "frame_inv others c1" "reg (symbol (mm c1) (uint r)) = {a..<a + uint sz}"
    "cells_of (mram c1) = cells_of (mram c)"
    using mm_alloc_ok [of c others "uint r" "uint sz"] ok id sz
    unfolding proc_ok_def can_alloc_def by blast
  have ok1: "mm_ok (mm c1)" using c1(2) by (simp add: heap_inv_def)
  have cell: "aget (symrgtbl (mm c1)) (uint r) = Inr (symbol (mm c1) (uint r))"
    using symrg_at_in [OF ok1, of "uint r"] id
    by (simp add: symrg_at_def get_symrg_byid_def PAGING_MAX_SYMTBL_SZ_def)
  have "\<exists>out. print_heap (c1\<lparr>stdout := u\<rparr>) = Inr (c1\<lparr>stdout := out\<rparr>)" for u
    using print_heap_ok [of "c1\<lparr>stdout := u\<rparr>"] ok1 by simp
  then obtain F where F: "\<And>u. print_heap (c1\<lparr>stdout := u\<rparr>) = Inr (c1\<lparr>stdout := F u\<rparr>)"
    by metis
  have "\<exists>out. liballoc c sz r = Inr (0, c1\<lparr>stdout := out\<rparr>)"
    using c1(1) id len cell F
    by (simp add: liballoc_def Let_def print_line_def) (rule exI, rule refl)
  then show ?thesis
    using c1(2-5) phy_addrs_cells [OF c1(5)] by (auto simp: keeps_def proc_ok_def frame_inv_def)
qed

section \<open>Freeing\<close>

lemma no_sym_id:
  assumes "\<not> sym_id r"
  shows "\<not> (0 \<le> int_of_u32 r \<and> int_of_u32 r < 30)"
proof
  assume a: "0 \<le> int_of_u32 r \<and> int_of_u32 r < 30"
  have "take_bit 32 (int_of_u32 r) = uint r"
    using uint_lt2p [of r]
    by (simp add: int_of_u32_def i32_def take_bit_signed_take_bit take_bit_int_eq_self_iff)
  then have "uint r = int_of_u32 r" using a by (simp add: take_bit_int_eq_self)
  then show False using a assms by (simp add: sym_id_def)
qed

lemma mm_free_any:
  assumes "heap_inv (mm c)"
  shows "\<exists>M'. mm_free (c\<lparr>stdout := u\<rparr>) 0 (int_of_u32 r) =
      Inr (if sym_id r \<and> reg (symbol (mm c) (uint r)) \<noteq> {} then 0 else -1, c\<lparr>stdout := u, mm := M'\<rparr>) \<and>
    heap_inv M' \<and> brk M' = brk (mm c) \<and> pgd M' = pgd (mm c)"
proof (cases "sym_id r")
  case True
  have "heap_inv (mm (c\<lparr>stdout := u\<rparr>))" using assms by simp
  note free = mm_free_ok [OF this, of "uint r"]
  show ?thesis
  proof (cases "reg (symbol (mm c) (uint r)) = {}")
    case True
    then show ?thesis
      using free sym_id_int [OF \<open>sym_id r\<close>] assms by (intro exI [of _ "mm c"]) simp
  next
    case False
    then show ?thesis using free sym_id_int [OF True] True by auto
  qed
next
  case False
  then show ?thesis
    using no_sym_id [OF False] assms by (intro exI [of _ "mm c"]) (auto simp: mm_free_def PAGING_MAX_SYMTBL_SZ_def)
qed

lemma libfree_any:
  assumes "heap_inv (mm c)"
  shows "\<exists>M' out. libfree c r =
      Inr (if sym_id r \<and> reg (symbol (mm c) (uint r)) \<noteq> {} then 0 else -1, c\<lparr>mm := M', stdout := out\<rparr>) \<and>
    heap_inv M' \<and> brk M' = brk (mm c) \<and> pgd M' = pgd (mm c)"
proof -
  let ?c = "\<lambda>u. c\<lparr>stdout := u\<rparr>"
  let ?v = "if sym_id r \<and> reg (symbol (mm c) (uint r)) \<noteq> {} then 0 else -1 :: int"
  obtain M' where M': "mm_free (?c (stdout c @ [Line F_rule []] @ [Line F_dealloc_head [AU (pid c), AU r]])) 0 (int_of_u32 r)
      = Inr (?v, (?c (stdout c @ [Line F_rule []] @ [Line F_dealloc_head [AU (pid c), AU r]]))\<lparr>mm := M'\<rparr>)"
    "heap_inv M'" "brk M' = brk (mm c)" "pgd M' = pgd (mm c)"
    using mm_free_any [OF assms] by blast
  have "\<exists>out. print_heap (c\<lparr>mm := M', stdout := u\<rparr>) = Inr (c\<lparr>mm := M', stdout := out\<rparr>)" for u
    using print_heap_ok [of "c\<lparr>mm := M', stdout := u\<rparr>"] M'(2) by (simp add: heap_inv_def)
  then obtain F where F: "\<And>u. print_heap (c\<lparr>mm := M', stdout := u\<rparr>) = Inr (c\<lparr>mm := M', stdout := F u\<rparr>)"
    by metis
  define rc where "rc = ?v"
  have "\<exists>out. libfree c r = Inr (rc, c\<lparr>mm := M', stdout := out\<rparr>)"
    using M'(1) [folded rc_def] F
    by (simp add: libfree_def Let_def print_line_def) (rule exI, rule refl)
  then show ?thesis using M'(2-4) unfolding rc_def by blast
qed

lemma libfree_run:
  assumes "proc_ok others c"
  shows "\<exists>rc c'. libfree c r = Inr (rc, c') \<and> keeps others c c' \<and> cells_of (mram c') = cells_of (mram c)"
proof -
  obtain M' out rc where M': "libfree c r = Inr (rc, c\<lparr>mm := M', stdout := out\<rparr>)"
    "heap_inv M'" "brk M' = brk (mm c)" "pgd M' = pgd (mm c)"
    using libfree_any [of c r] assms unfolding proc_ok_def by blast
  have "frame_inv others (c\<lparr>mm := M', stdout := out\<rparr>) = frame_inv others c"
    using M'(3,4) by (intro frame_inv_cong) simp_all
  then show ?thesis using M' assms by (auto simp: keeps_def proc_ok_def)
qed

section \<open>Reading and writing\<close>

definition in_heap :: "caller \<Rightarrow> u32 \<Rightarrow> u32 \<Rightarrow> bool" where
  "in_heap c r off \<longleftrightarrow> sym_id r \<and> lib_addr (mm c) r off \<in> vaddrs c"

lemma libread_keeps:
  assumes "proc_ok others c" "in_heap c r off"
  shows "\<exists>v out. vm_rd c (lib_addr (mm c) r off) = Inr v \<and>
    libread c r off = Inr (0, Some (u32_of_byte v), c\<lparr>stdout := out\<rparr>)"
proof -
  note ok = proc_ok_vm_ok [OF assms(1)]
  have h: "sym_id r" "lib_addr (mm c) r off \<in> vaddrs c" using assms(2) by (simp_all add: in_heap_def)
  obtain v where "vm_rd c (lib_addr (mm c) r off) = Inr v" using vmem.rd_ok [OF ok h(2)] by blast
  with libread_run [OF ok h this] show ?thesis by blast
qed

lemma libwrite_keeps:
  assumes "proc_ok others c" "in_heap c r off"
  shows "\<exists>mp out. phy_write (mram c) (vphys (mm c) (lib_addr (mm c) r off)) v = Inr mp \<and>
    libwrite c v r off = Inr (0, c\<lparr>mram := mp, stdout := out\<rparr>) \<and>
    keeps others c (c\<lparr>mram := mp, stdout := out\<rparr>)"
proof -
  note ok = proc_ok_vm_ok [OF assms(1)]
  have h: "sym_id r" "lib_addr (mm c) r off \<in> vaddrs c" using assms(2) by (simp_all add: in_heap_def)
  have dev: "dev_ok (mram c)" using assms(1) by (simp add: proc_ok_def frame_inv_def)
  obtain mp where mp: "phy_write (mram c) (vphys (mm c) (lib_addr (mm c) r off)) v = Inr mp"
    "dev_ok mp" "phy_addrs mp = phy_addrs (mram c)"
    using phy.wr_ok [OF dev vaddr_frame(4) [OF ok h(2)]] by blast
  have "vm_wr c (lib_addr (mm c) r off) v = Inr (c\<lparr>mram := mp\<rparr>)"
    using vm_wr_cell [OF ok h(2)] mp(1) by simp
  from libwrite_run [OF ok h this] obtain out
    where "libwrite c v r off = Inr (0, c\<lparr>mram := mp, stdout := out\<rparr>)" by auto
  moreover have "vm_ok others (c\<lparr>mram := mp\<rparr>)" by (rule vm_ok_write [OF ok mp])
  ultimately show ?thesis
    using mp assms(1) by (auto simp: keeps_def proc_ok_def vm_ok_def frame_inv_def)
qed

text \<open>What a write leaves alone: every frame the caller does not own.\<close>

lemma libwrite_others:
  assumes ok: "proc_ok others c" and h: "in_heap c r off"
    and mp: "phy_write (mram c) (vphys (mm c) (lib_addr (mm c) r off)) v = Inr mp"
    and g: "g \<in> others" "a \<in> page_addrs g"
  shows "phy_read mp a = phy_read (mram c) a"
proof -
  note vm = proc_ok_vm_ok [OF ok]
  have a: "lib_addr (mm c) r off \<in> vaddrs c" using h by (simp add: in_heap_def)
  note fr = vaddr_frame [OF vm a]
  have inv: "frame_inv others c" "dev_ok (mram c)" using ok by (simp_all add: proc_ok_def frame_inv_def)
  have "g \<noteq> page_frame (mm c) (lib_addr (mm c) r off div 256)"
    using inv(1) fr(2) g(1) by (auto simp: frame_inv_def)
  then have "a \<noteq> vphys (mm c) (lib_addr (mm c) r off)"
    using fr(3) g(2) unfolding page_addrs_def atLeastLessThan_iff by linarith
  then show ?thesis using phy_write_random [OF inv(2) fr(4), of v] mp by auto
qed

end
