(* ===== verification/Queue.thy ===== *)
theory Queue
  imports Prelude Fifo
begin

text \<open>
  Process queues, \<open>src/queue.c\<close>: an array of \<open>MAX_QUEUE_SIZE\<close> process pointers and a size. The
  type of pointers is a parameter; \<open>prio_of\<close> reads the \<open>prio\<close> field behind one and can fault (a
  pointer to a process that was freed). A queue pointer is an option (\<open>None\<close> is NULL).
\<close>

section \<open>The structure and its operations\<close>

definition MAX_QUEUE_SIZE :: int where
  "MAX_QUEUE_SIZE = 10"

definition MAX_PRIO :: int where
  "MAX_PRIO = 140"

record 'p queue_t =
  proc :: "'p option carray"
  qsize :: int

definition empty_queue :: "'p queue_t option \<Rightarrow> int" where
  "empty_queue q = (case q of None \<Rightarrow> 1 | Some q \<Rightarrow> if qsize q = 0 then 1 else 0)"

definition enqueue :: "'p queue_t option \<Rightarrow> 'p option \<Rightarrow> 'p queue_t option res" where
  "enqueue q pr = (case (q, pr) of
      (Some q, Some x) \<Rightarrow>
        if qsize q < MAX_QUEUE_SIZE then
          bindr (aset (proc q) (qsize q) (Some x)) (\<lambda>a.
          Inr (Some (q\<lparr>proc := a, qsize := qsize q + 1\<rparr>)))
        else Inr (Some q)
    | _ \<Rightarrow> Inr q)"

text \<open>The search of \<open>dequeue\<close>: \<open>highest_prio\<close> and \<open>highest_num\<close>.\<close>

definition dequeue_scan :: "('p \<Rightarrow> u32 res) \<Rightarrow> 'p queue_t \<Rightarrow> (u64 \<times> int) res" where
  "dequeue_scan prio_of q =
    for_loop 0 (qsize q) (\<lambda>i (highest_prio, highest_num).
      bindr (aget (proc q) i) (\<lambda>p.
      case p of
        None \<Rightarrow> Inr (highest_prio, highest_num)
      | Some x \<Rightarrow>
          bindr (prio_of x) (\<lambda>prio.
          if u64_of_u32 prio < highest_prio then Inr (u64_of_u32 prio, i)
          else Inr (highest_prio, highest_num))))
      (u64_of_int MAX_PRIO, -1)"

definition dequeue ::
    "('p \<Rightarrow> u32 res) \<Rightarrow> 'p queue_t option \<Rightarrow> ('p option \<times> 'p queue_t option) res" where
  "dequeue prio_of q = (case q of
      None \<Rightarrow> Inr (None, None)
    | Some q \<Rightarrow>
        if qsize q = 0 then Inr (None, Some q)
        else
          bindr (dequeue_scan prio_of q) (\<lambda>(_, highest_num).
          bindr (aget (proc q) highest_num) (\<lambda>prio_proc.
            let n = qsize q - 1 in
          bindr (for_loop highest_num n (\<lambda>i a. bindr (aget a (i + 1)) (aset a i)) (proc q)) (\<lambda>a.
          bindr (aset a n None) (\<lambda>a.
          Inr (prio_proc, Some (q\<lparr>proc := a, qsize := n\<rparr>)))))))"

section \<open>Well-formed queues and their content\<close>

definition queue_items :: "'p queue_t \<Rightarrow> 'p list" where
  "queue_items q = map (\<lambda>i. the (acell (proc q) i)) [0..<nat (qsize q)]"

definition queue_ok :: "'p queue_t \<Rightarrow> bool" where
  "queue_ok q \<longleftrightarrow> alen (proc q) = 10 \<and> 0 \<le> qsize q \<and> qsize q \<le> 10 \<and>
    (\<forall>i < nat (qsize q). acell (proc q) i \<noteq> None)"

lemma length_queue_items [simp]: "length (queue_items q) = nat (qsize q)"
  by (simp add: queue_items_def)

lemma queue_cell:
  assumes "queue_ok q" "0 \<le> i" "i < qsize q"
  shows "aget (proc q) i = Inr (Some (queue_items q ! nat i))"
  using assms by (auto simp: queue_ok_def aget_def in_bounds_def queue_items_def)

lemma queue_items_eqI:
  assumes "nat (qsize q) = length xs" "\<And>i. i < length xs \<Longrightarrow> acell (proc q) i = Some (xs ! i)"
  shows "queue_items q = xs"
  using assms by (intro nth_equalityI) (simp_all add: queue_items_def)

lemma queue_okI:
  assumes "alen (proc q) = 10" "qsize q = int (length xs)" "length xs \<le> 10"
    "\<And>i. i < length xs \<Longrightarrow> acell (proc q) i = Some (xs ! i)"
  shows "queue_ok q \<and> queue_items q = xs"
  using assms queue_items_eqI [of q xs] by (auto simp: queue_ok_def)

lemma queue_item:
  assumes "queue_ok q" "i < length (queue_items q)"
  shows "acell (proc q) i = Some (queue_items q ! i)"
  using assms by (auto simp: queue_ok_def queue_items_def)

lemma empty_queue_iff: "queue_ok q \<Longrightarrow> empty_queue (Some q) = (if queue_items q = [] then 1 else 0)"
  by (auto simp: empty_queue_def queue_ok_def queue_items_def)

lemma enqueue_room:
  assumes "queue_ok q" "length (queue_items q) < 10"
  shows "\<exists>q'. enqueue (Some q) (Some x) = Inr (Some q') \<and> queue_ok q' \<and>
    queue_items q' = queue_items q @ [x]"
proof -
  let ?a = "CArray 10 ((acell (proc q))(nat (qsize q) := Some x))"
  let ?q' = "q\<lparr>proc := ?a, qsize := qsize q + 1\<rparr>"
  have b: "alen (proc q) = 10" "0 \<le> qsize q" "qsize q < 10" using assms by (auto simp: queue_ok_def)
  have "enqueue (Some q) (Some x) = Inr (Some ?q')"
    using b by (simp add: enqueue_def MAX_QUEUE_SIZE_def aset_def in_bounds_def)
  moreover have "queue_ok ?q' \<and> queue_items ?q' = queue_items q @ [x]"
    using b queue_item [OF assms(1)]
    by (intro queue_okI) (auto simp: nth_append not_less less_Suc_eq le_less_Suc_eq)
  ultimately show ?thesis by blast
qed

lemma enqueue_full:
  assumes "queue_ok q" "\<not> length (queue_items q) < 10"
  shows "enqueue (Some q) (Some x) = Inr (Some q)"
  using assms by (auto simp: enqueue_def MAX_QUEUE_SIZE_def queue_ok_def)

section \<open>Which process leaves\<close>

text \<open>
  The first of the items whose priority is least and below \<open>MAX_PRIO\<close>, as a position.
\<close>

definition first_least :: "('p \<Rightarrow> u32) \<Rightarrow> 'p list \<Rightarrow> nat \<Rightarrow> bool" where
  "first_least pr xs n \<longleftrightarrow> n < length xs \<and> pr (xs ! n) < 140 \<and>
    (\<forall>i < length xs. pr (xs ! n) \<le> pr (xs ! i)) \<and> (\<forall>i < n. pr (xs ! n) < pr (xs ! i))"

lemma u64_of_u32_less: "u64_of_u32 a < u64_of_u32 b \<longleftrightarrow> a < b"
  by (simp add: word_less_def uint_u64_of_u32)

lemma first_least_exists:
  assumes "\<exists>i < length xs. pr (xs ! i) < 140"
  shows "\<exists>n. first_least pr xs n"
proof -
  define P where "P n \<longleftrightarrow> n < length xs \<and> (\<forall>i < length xs. pr (xs ! n) \<le> pr (xs ! i))" for n
  have "\<exists>n. P n"
  proof -
    have "xs \<noteq> []" using assms by auto
    then obtain x where x: "x \<in> set xs" "\<forall>y \<in> set xs. pr x \<le> pr y"
      using ex_has_least_nat [of "\<lambda>x. x \<in> set xs" "hd xs" "\<lambda>x. unat (pr x)"] by (force simp: word_le_nat_alt)
    from x(1) obtain n where "n < length xs" "xs ! n = x" by (auto simp: in_set_conv_nth)
    then show ?thesis using x(2) by (auto simp: P_def)
  qed
  then have least: "P (LEAST n. P n)" "\<forall>i < (LEAST n. P n). \<not> P i"
    using not_less_Least by (auto intro: LeastI_ex)
  let ?n = "LEAST n. P n"
  have "pr (xs ! ?n) < pr (xs ! i)" if "i < ?n" for i
  proof (rule ccontr)
    assume "\<not> pr (xs ! ?n) < pr (xs ! i)"
    then have "P i" using least(1) that by (fastforce simp: P_def)
    then show False using least(2) that by blast
  qed
  moreover have "pr (xs ! ?n) < 140" using assms least(1) by (auto simp: P_def intro: le_less_trans)
  ultimately have "first_least pr xs ?n" using least(1) by (simp add: first_least_def P_def)
  then show ?thesis ..
qed

text \<open>The scan keeps the first least element of the part it has seen.\<close>

definition scanned :: "('p \<Rightarrow> u32) \<Rightarrow> 'p list \<Rightarrow> u64 \<times> int \<Rightarrow> bool" where
  "scanned pr xs s \<longleftrightarrow>
    (s = (140, -1) \<and> (\<forall>i < length xs. \<not> pr (xs ! i) < 140)) \<or>
    (\<exists>n. s = (u64_of_u32 (pr (xs ! n)), int n) \<and> first_least pr xs n)"

lemma u64_of_u32_less_140: "u64_of_u32 a < 140 \<longleftrightarrow> a < 140"
  by (simp add: word_less_def uint_u64_of_u32)

lemma scanned_snoc:
  assumes "scanned pr xs (hp, hn)"
  shows "scanned pr (xs @ [x])
    (if u64_of_u32 (pr x) < hp then (u64_of_u32 (pr x), int (length xs)) else (hp, hn))"
proof (cases "hn = -1")
  case True
  then have none: "hp = 140" "\<forall>i < length xs. \<not> pr (xs ! i) < 140"
    using assms by (auto simp: scanned_def)
  show ?thesis
  proof (cases "pr x < 140")
    case lt: True
    have big: "pr x < pr (xs ! i)" if "i < length xs" for i
      using none(2) lt that by (meson le_less_trans not_le_imp_less order_less_le_trans)
    have "first_least pr (xs @ [x]) (length xs)"
      using lt big by (auto simp: first_least_def nth_append less_Suc_eq intro: less_imp_le)
    then show ?thesis
      using none(1) lt by (auto simp: scanned_def u64_of_u32_less_140)
  next
    case False
    then show ?thesis using none True
      by (auto simp: scanned_def u64_of_u32_less_140 nth_append less_Suc_eq)
  qed
next
  case False
  then obtain n where n: "hp = u64_of_u32 (pr (xs ! n))" "hn = int n" "first_least pr xs n"
    using assms by (auto simp: scanned_def)
  show ?thesis
  proof (cases "pr x < pr (xs ! n)")
    case True
    then have "first_least pr (xs @ [x]) (length xs)"
      using n(3) by (auto simp: first_least_def nth_append less_Suc_eq
          intro: less_imp_le order_less_le_trans)
    then show ?thesis
      using n(1) True by (auto simp: scanned_def u64_of_u32_less)
  next
    case False
    then have "first_least pr (xs @ [x]) n"
      using n(3) by (auto simp: first_least_def nth_append less_Suc_eq)
    moreover have "(xs @ [x]) ! n = xs ! n" using n(3) by (simp add: first_least_def nth_append)
    ultimately show ?thesis
      using n False by (auto simp: scanned_def u64_of_u32_less)
  qed
qed

lemma dequeue_scan_spec:
  assumes ok: "queue_ok q" and pr: "\<forall>x \<in> set (queue_items q). prio_of x = Inr (pr x)"
  shows "\<exists>s. dequeue_scan prio_of q = Inr s \<and> scanned pr (queue_items q) s"
proof -
  let ?xs = "queue_items q"
  have sz: "0 \<le> qsize q" "length ?xs = nat (qsize q)" using ok by (simp_all add: queue_ok_def)
  have "\<exists>s. dequeue_scan prio_of q = Inr s \<and> scanned pr (take (nat (qsize q)) ?xs) s"
    unfolding dequeue_scan_def
  proof (rule for_loop_rule [where P = "\<lambda>i s. scanned pr (take (nat i) ?xs) s"])
    show "scanned pr (take (nat 0) ?xs) (u64_of_int MAX_PRIO, -1)"
      by (simp add: scanned_def MAX_PRIO_def u64_of_int_def)
    fix i s
    assume i: "0 \<le> i" "i < qsize q" and P: "scanned pr (take (nat i) ?xs) s"
    obtain hp hn where s: "s = (hp, hn)" by (cases s)
    have lt: "nat i < length ?xs" using i by (simp add: sz)
    have "take (nat (i + 1)) ?xs = take (nat i) ?xs @ [?xs ! nat i]"
      using lt i(1) by (simp add: take_Suc_conv_app_nth nat_add_distrib)
    moreover have "prio_of (?xs ! nat i) = Inr (pr (?xs ! nat i))" using pr lt by simp
    moreover have "int (length (take (nat i) ?xs)) = i" using lt i(1) by simp
    ultimately show "\<exists>s'. (case s of (highest_prio, highest_num) \<Rightarrow>
        bindr (aget (proc q) i) (\<lambda>p.
        case p of
          None \<Rightarrow> Inr (highest_prio, highest_num)
        | Some x \<Rightarrow>
            bindr (prio_of x) (\<lambda>prio.
            if u64_of_u32 prio < highest_prio then Inr (u64_of_u32 prio, i)
            else Inr (highest_prio, highest_num)))) = Inr s' \<and>
        scanned pr (take (nat (i + 1)) ?xs) s'"
      using scanned_snoc [of pr "take (nat i) ?xs" hp hn "?xs ! nat i"] P queue_cell [OF ok i]
      by (auto simp: s split: if_splits)
  qed (rule sz)
  then show ?thesis by (simp add: sz)
qed

lemma shift_loop:
  assumes "0 \<le> k" "k \<le> n" "n < int (alen a)"
  shows "\<exists>b. for_loop k n (\<lambda>i a. bindr (aget a (i + 1)) (aset a i)) a = Inr b \<and> alen b = alen a \<and>
    (\<forall>j. acell b j = (if k \<le> int j \<and> int j < n then acell a (Suc j) else acell a j))"
proof (rule for_loop_rule [where P = "\<lambda>i b. alen b = alen a \<and>
    (\<forall>j. acell b j = (if k \<le> int j \<and> int j < i then acell a (Suc j) else acell a j))"])
  fix i b
  assume i: "k \<le> i" "i < n" and P: "alen b = alen a \<and>
    (\<forall>j. acell b j = (if k \<le> int j \<and> int j < i then acell a (Suc j) else acell a j))"
  have "aget b (i + 1) = Inr (acell a (Suc (nat i)))"
    using i assms P by (auto simp: aget_def in_bounds_def nat_add_distrib)
  moreover have "aset b i v = Inr (CArray (alen a) ((acell b)(nat i := v)))" for v
    using i assms P by (simp add: aset_def in_bounds_def)
  ultimately show "\<exists>b'. bindr (aget b (i + 1)) (aset b i) = Inr b' \<and> alen b' = alen a \<and>
      (\<forall>j. acell b' j = (if k \<le> int j \<and> int j < i + 1 then acell a (Suc j) else acell a j))"
    using i assms(1) P by (auto simp: nat_eq_iff)
qed (use assms in auto)

lemma dequeue_spec:
  assumes ok: "queue_ok q" and pr: "\<forall>x \<in> set (queue_items q). prio_of x = Inr (pr x)"
    and ne: "queue_items q \<noteq> []"
  shows "if \<exists>x \<in> set (queue_items q). pr x < 140
    then \<exists>n q'. first_least pr (queue_items q) n \<and> queue_ok q' \<and>
      dequeue prio_of (Some q) = Inr (Some (queue_items q ! n), Some q') \<and>
      queue_items q' = without n (queue_items q)
    else dequeue prio_of (Some q) = Inl OutOfBounds"
proof -
  let ?xs = "queue_items q"
  have sz: "0 < qsize q" "qsize q \<le> 10" "alen (proc q) = 10" "length ?xs = nat (qsize q)"
    using ok ne by (auto simp: queue_ok_def queue_items_def)
  obtain s where scan: "dequeue_scan prio_of q = Inr s" "scanned pr ?xs s"
    using dequeue_scan_spec [OF ok pr] by blast
  show ?thesis
  proof (cases "\<exists>x \<in> set ?xs. pr x < 140")
    case True
    then obtain n where n: "s = (u64_of_u32 (pr (?xs ! n)), int n)" "first_least pr ?xs n"
      using scan(2) by (auto simp: scanned_def in_set_conv_nth)
    have lt: "n < nat (qsize q)" using n(2) sz(4) by (simp add: first_least_def)
    then have lt': "int n < qsize q" by arith
    obtain b where b: "for_loop (int n) (qsize q - 1) (\<lambda>i a. bindr (aget a (i + 1)) (aset a i)) (proc q) = Inr b"
      "alen b = 10"
      "\<And>j. acell b j = (if int n \<le> int j \<and> int j < qsize q - 1 then acell (proc q) (Suc j) else acell (proc q) j)"
      using shift_loop [of "int n" "qsize q - 1" "proc q"] lt' sz by auto
    let ?a = "CArray 10 ((acell b)(nat (qsize q - 1) := None))"
    let ?q' = "q\<lparr>proc := ?a, qsize := qsize q - 1\<rparr>"
    have "dequeue prio_of (Some q) = Inr (Some (?xs ! n), Some ?q')"
      using scan(1) n(1) b(1,2) lt sz queue_cell [OF ok, of "int n"]
      by (simp add: dequeue_def Let_def aset_def in_bounds_def)
    moreover have "queue_ok ?q' \<and> queue_items ?q' = without n ?xs"
    proof (rule queue_okI)
      fix j
      assume j: "j < length (without n ?xs)"
      then have "j < length ?xs - 1" using lt sz(4) by (simp add: length_without)
      then show "acell (proc ?q') j = Some (without n ?xs ! j)"
        using b(3) [of j] lt sz queue_item [OF ok, of j] queue_item [OF ok, of "Suc j"]
        by (auto simp: nth_without)
    qed (use lt sz in \<open>auto simp: length_without\<close>)
    ultimately show ?thesis using n(2) True by auto
  next
    case False
    then have "s = (140, -1)"
      using scan(2) by (auto simp: scanned_def first_least_def)
    then have "dequeue prio_of (Some q) = Inl OutOfBounds"
      using scan(1) sz by (simp add: dequeue_def aget_def in_bounds_def)
    then show ?thesis using False by simp
  qed
qed

text \<open>A queue whose processes share one priority is first-in first-out.\<close>

lemma dequeue_uniform:
  assumes ok: "queue_ok q" and pr: "\<forall>x \<in> set (queue_items q). prio_of x = Inr k" "k < 140"
    and xs: "queue_items q = x # xs"
  shows "\<exists>q'. dequeue prio_of (Some q) = Inr (Some x, Some q') \<and> queue_ok q' \<and> queue_items q' = xs"
proof -
  have ne: "queue_items q \<noteq> []" using xs by simp
  have ex: "\<exists>x \<in> set (queue_items q). k < 140" using pr(2) xs by (intro bexI [of _ x]) simp_all
  obtain n q' where n: "first_least (\<lambda>_. k) (queue_items q) n" "queue_ok q'"
      "dequeue prio_of (Some q) = Inr (Some (queue_items q ! n), Some q')"
      "queue_items q' = without n (queue_items q)"
    using dequeue_spec [OF ok pr(1)] ne unfolding if_P [OF ex] by blast
  have "n = 0"
  proof (rule ccontr)
    assume "n \<noteq> 0"
    then show False using n(1) unfolding first_least_def by fastforce
  qed
  with n xs show ?thesis by simp
qed

lemma dequeue_empty:
  assumes "queue_ok q" "queue_items q = []"
  shows "dequeue prio_of (Some q) = Inr (None, Some q)"
  using assms by (auto simp: dequeue_def queue_ok_def queue_items_def)

end
