(* ===== verification/Sched.thy ===== *)
theory Sched
  imports Queue
begin

text \<open>
  The multi-level queue scheduler, \<open>src/sched.c\<close> with \<open>MLQ_SCHED\<close>: one ready queue and one slot
  counter per priority, the legacy \<open>ready_queue\<close> and \<open>run_queue\<close>, and \<open>running_list\<close>. Each
  operation runs under \<open>queue_lock\<close> from start to end (\<open>put_proc\<close> and \<open>add_proc\<close> lock twice),
  so it is one atomic function on the state here. The pointers to the queues that \<open>put_proc\<close> and
  \<open>add_proc\<close> store in the process belong to the process table of the kernel theory.
\<close>

section \<open>State and operations\<close>

record 'p sched =
  ready_queue :: "'p queue_t"
  run_queue :: "'p queue_t"
  running_list :: "'p queue_t"
  mlq_ready_queue :: "'p queue_t carray"
  slot :: "int carray"

definition queue_empty :: "'p sched \<Rightarrow> int res" where
  "queue_empty s =
    bindr (find_loop 0 MAX_PRIO (\<lambda>prio.
      bindr (aget (mlq_ready_queue s) prio) (\<lambda>q. Inr (empty_queue (Some q) = 0)))) (\<lambda>found.
    case found of
      Some _ \<Rightarrow> Inr (-1)
    | None \<Rightarrow> Inr (if empty_queue (Some (ready_queue s)) \<noteq> 0 \<and> empty_queue (Some (run_queue s)) \<noteq> 0
                   then 1 else 0))"

definition init_scheduler :: "'p sched \<Rightarrow> 'p sched res" where
  "init_scheduler s =
    bindr (for_loop 0 MAX_PRIO (\<lambda>i s.
      bindr (aget (mlq_ready_queue s) i) (\<lambda>q.
      bindr (aset (mlq_ready_queue s) i (q\<lparr>qsize := 0\<rparr>)) (\<lambda>a.
      bindr (aset (slot s) i (MAX_PRIO - i)) (\<lambda>sl.
      Inr (s\<lparr>mlq_ready_queue := a, slot := sl\<rparr>))))) s) (\<lambda>s.
    Inr (s\<lparr>ready_queue := (ready_queue s)\<lparr>qsize := 0\<rparr>, run_queue := (run_queue s)\<lparr>qsize := 0\<rparr>\<rparr>))"

definition reset_slots :: "'p sched \<Rightarrow> 'p sched res" where
  "reset_slots s =
    bindr (for_loop 0 MAX_PRIO (\<lambda>prio sl. aset sl prio (MAX_PRIO - prio)) (slot s)) (\<lambda>sl.
    Inr (s\<lparr>slot := sl\<rparr>))"

definition get_mlq_proc :: "('p \<Rightarrow> u32 res) \<Rightarrow> 'p sched \<Rightarrow> ('p option \<times> 'p sched) res" where
  "get_mlq_proc prio_of s =
    bindr (queue_empty s) (\<lambda>e.
    if e \<noteq> -1 then Inr (None, s)
    else
      bindr (find_loop 0 MAX_PRIO (\<lambda>prio.
        bindr (aget (mlq_ready_queue s) prio) (\<lambda>q.
        if empty_queue (Some q) = 0 then bindr (aget (slot s) prio) (\<lambda>n. Inr (0 < n))
        else Inr False))) (\<lambda>found.
      bindr
        (case found of
           None \<Rightarrow> Inr (None, s)
         | Some prio \<Rightarrow>
             bindr (aget (mlq_ready_queue s) prio) (\<lambda>q.
             bindr (dequeue prio_of (Some q)) (\<lambda>(proc, q').
             bindr (aset (mlq_ready_queue s) prio (case q' of Some q' \<Rightarrow> q' | None \<Rightarrow> q)) (\<lambda>a.
             bindr (aget (slot s) prio) (\<lambda>n.
             bindr (aset (slot s) prio (n - 1)) (\<lambda>sl.
             Inr (proc, s\<lparr>mlq_ready_queue := a, slot := sl\<rparr>)))))))
        (\<lambda>(proc, s).
         case proc of
           None \<Rightarrow> bindr (reset_slots s) (\<lambda>s. Inr (None, s))
         | Some x \<Rightarrow> Inr (Some x, s))))"

definition put_mlq_proc :: "('p \<Rightarrow> u32 res) \<Rightarrow> 'p \<Rightarrow> 'p sched \<Rightarrow> 'p sched res" where
  "put_mlq_proc prio_of p s =
    bindr (prio_of p) (\<lambda>prio.
    bindr (aget (mlq_ready_queue s) (uint prio)) (\<lambda>q.
    bindr (enqueue (Some q) (Some p)) (\<lambda>q'.
    bindr (aset (mlq_ready_queue s) (uint prio) (case q' of Some q' \<Rightarrow> q' | None \<Rightarrow> q)) (\<lambda>a.
    Inr (s\<lparr>mlq_ready_queue := a\<rparr>)))))"

definition add_mlq_proc :: "('p \<Rightarrow> u32 res) \<Rightarrow> 'p \<Rightarrow> 'p sched \<Rightarrow> 'p sched res" where
  "add_mlq_proc prio_of p s =
    bindr (prio_of p) (\<lambda>prio.
    bindr (aget (mlq_ready_queue s) (uint prio)) (\<lambda>q.
    bindr (enqueue (Some q) (Some p)) (\<lambda>q'.
    bindr (aset (mlq_ready_queue s) (uint prio) (case q' of Some q' \<Rightarrow> q' | None \<Rightarrow> q)) (\<lambda>a.
    Inr (s\<lparr>mlq_ready_queue := a\<rparr>)))))"

definition get_proc :: "('p \<Rightarrow> u32 res) \<Rightarrow> 'p sched \<Rightarrow> ('p option \<times> 'p sched) res" where
  "get_proc prio_of s = get_mlq_proc prio_of s"

definition put_proc :: "('p \<Rightarrow> u32 res) \<Rightarrow> 'p \<Rightarrow> 'p sched \<Rightarrow> 'p sched res" where
  "put_proc prio_of p s =
    bindr (enqueue (Some (ready_queue s)) (Some p)) (\<lambda>q.
    put_mlq_proc prio_of p (s\<lparr>ready_queue := (case q of Some q \<Rightarrow> q | None \<Rightarrow> ready_queue s)\<rparr>))"

definition add_proc :: "('p \<Rightarrow> u32 res) \<Rightarrow> 'p \<Rightarrow> 'p sched \<Rightarrow> 'p sched res" where
  "add_proc prio_of p s =
    bindr (enqueue (Some (running_list s)) (Some p)) (\<lambda>q.
    add_mlq_proc prio_of p (s\<lparr>running_list := (case q of Some q \<Rightarrow> q | None \<Rightarrow> running_list s)\<rparr>))"

section \<open>A queue of one priority is first-in first-out\<close>

definition level_enq :: "'p \<Rightarrow> 'p queue_t \<Rightarrow> 'p queue_t" where
  "level_enq x q = (case enqueue (Some q) (Some x) of Inr (Some q') \<Rightarrow> q' | _ \<Rightarrow> q)"

definition level_deq :: "('p \<Rightarrow> u32 res) \<Rightarrow> 'p queue_t \<Rightarrow> ('p option \<times> 'p queue_t) res" where
  "level_deq prio_of q =
    bindr (dequeue prio_of (Some q)) (\<lambda>(x, q'). Inr (x, case q' of Some q' \<Rightarrow> q' | None \<Rightarrow> q))"

definition level_ok :: "('p \<Rightarrow> u32 res) \<Rightarrow> u32 \<Rightarrow> 'p queue_t \<Rightarrow> bool" where
  "level_ok prio_of k q \<longleftrightarrow> k < 140 \<and> queue_ok q \<and> (\<forall>x \<in> set (queue_items q). prio_of x = Inr k)"

interpretation level: fifo_queue level_enq "level_deq prio_of" queue_items "level_ok prio_of k"
    "\<lambda>q. length (queue_items q) < 10" "\<lambda>x. prio_of x = Inr k" for prio_of k
proof unfold_locales
  fix q x xs
  assume q: "level_ok prio_of k q"
  { assume "length (queue_items q) < 10" "prio_of x = Inr k"
    then show "level_ok prio_of k (level_enq x q) \<and> queue_items (level_enq x q) = queue_items q @ [x]"
      using enqueue_room [of q x] q by (auto simp: level_ok_def level_enq_def) }
  { assume "queue_items q = []"
    then show "level_deq prio_of q = Inr (None, q)"
      using q by (simp add: level_ok_def level_deq_def dequeue_empty) }
  { assume "queue_items q = x # xs"
    then show "\<exists>q'. level_deq prio_of q = Inr (Some x, q') \<and> level_ok prio_of k q' \<and> queue_items q' = xs"
      using dequeue_uniform [of q prio_of k x xs] q by (auto simp: level_ok_def level_deq_def) }
qed

section \<open>Well-formed schedulers\<close>

definition level :: "'p sched \<Rightarrow> int \<Rightarrow> 'p list" where
  "level s p = queue_items (acell (mlq_ready_queue s) (nat p))"

definition slots :: "'p sched \<Rightarrow> int \<Rightarrow> int" where
  "slots s p = acell (slot s) (nat p)"

definition sched_ok :: "('p \<Rightarrow> u32 res) \<Rightarrow> 'p sched \<Rightarrow> bool" where
  "sched_ok prio_of s \<longleftrightarrow> alen (mlq_ready_queue s) = 140 \<and> alen (slot s) = 140 \<and>
    queue_ok (ready_queue s) \<and> queue_ok (run_queue s) \<and> queue_ok (running_list s) \<and>
    (\<forall>p. 0 \<le> p \<and> p < 140 \<longrightarrow>
       level_ok prio_of (u32_of_int p) (acell (mlq_ready_queue s) (nat p)) \<and>
       0 \<le> slots s p \<and> slots s p \<le> 140 - p)"

lemma sched_level:
  assumes "sched_ok prio_of s" "0 \<le> p" "p < 140"
  shows "aget (mlq_ready_queue s) p = Inr (acell (mlq_ready_queue s) (nat p))"
    "aget (slot s) p = Inr (slots s p)"
    "queue_ok (acell (mlq_ready_queue s) (nat p))"
    "level_ok prio_of (u32_of_int p) (acell (mlq_ready_queue s) (nat p))"
    "empty_queue (Some (acell (mlq_ready_queue s) (nat p))) = (if level s p = [] then 1 else 0)"
    "0 \<le> slots s p" "slots s p \<le> 140 - p"
proof -
  show lv: "level_ok prio_of (u32_of_int p) (acell (mlq_ready_queue s) (nat p))"
    using assms by (simp add: sched_ok_def)
  then show q: "queue_ok (acell (mlq_ready_queue s) (nat p))" by (simp add: level_ok_def)
  show "empty_queue (Some (acell (mlq_ready_queue s) (nat p))) = (if level s p = [] then 1 else 0)"
    using empty_queue_iff [OF q] by (simp add: level_def)
  show "aget (mlq_ready_queue s) p = Inr (acell (mlq_ready_queue s) (nat p))"
    "aget (slot s) p = Inr (slots s p)" "0 \<le> slots s p" "slots s p \<le> 140 - p"
    using assms by (simp_all add: sched_ok_def aget_def in_bounds_def slots_def)
qed

lemma queue_empty_eq:
  assumes "sched_ok prio_of s"
  shows "\<exists>e. queue_empty s = Inr e \<and> (e = -1 \<longleftrightarrow> (\<exists>p. 0 \<le> p \<and> p < 140 \<and> level s p \<noteq> []))"
proof -
  let ?test = "\<lambda>prio. bindr (aget (mlq_ready_queue s) prio) (\<lambda>q. Inr (empty_queue (Some q) = 0))"
  have "find_loop 0 140 ?test = Inr None \<and> (\<forall>i. 0 \<le> i \<and> i < 140 \<longrightarrow> \<not> level s i \<noteq> []) \<or>
    (\<exists>k. find_loop 0 140 ?test = Inr (Some k) \<and> 0 \<le> k \<and> k < 140 \<and> level s k \<noteq> [] \<and>
       (\<forall>i. 0 \<le> i \<and> i < k \<longrightarrow> \<not> level s i \<noteq> []))"
    using sched_level(1,5) [OF assms]
    by (intro find_loop_pure [where P = "\<lambda>i. level s i \<noteq> []"]) simp
  then show ?thesis by (auto simp: queue_empty_def MAX_PRIO_def)
qed

text \<open>The level \<open>get_mlq_proc\<close> serves.\<close>

definition serves :: "'p sched \<Rightarrow> int \<Rightarrow> bool" where
  "serves s p \<longleftrightarrow> 0 \<le> p \<and> p < 140 \<and> level s p \<noteq> [] \<and> 0 < slots s p \<and>
    (\<forall>i. 0 \<le> i \<and> i < p \<longrightarrow> level s i = [] \<or> slots s i = 0)"

lemma find_level:
  assumes "sched_ok prio_of s"
  shows "(\<exists>p. serves s p \<and> find_loop 0 140 (\<lambda>prio.
        bindr (aget (mlq_ready_queue s) prio) (\<lambda>q.
        if empty_queue (Some q) = 0 then bindr (aget (slot s) prio) (\<lambda>n. Inr (0 < n))
        else Inr False)) = Inr (Some p)) \<or>
    (\<forall>p. 0 \<le> p \<and> p < 140 \<longrightarrow> level s p = [] \<or> slots s p = 0) \<and> find_loop 0 140 (\<lambda>prio.
        bindr (aget (mlq_ready_queue s) prio) (\<lambda>q.
        if empty_queue (Some q) = 0 then bindr (aget (slot s) prio) (\<lambda>n. Inr (0 < n))
        else Inr False)) = Inr None" (is "(\<exists>p. _ \<and> find_loop 0 140 ?test = _) \<or> _")
proof -
  let ?P = "\<lambda>i. level s i \<noteq> [] \<and> 0 < slots s i"
  have "find_loop 0 140 ?test = Inr None \<and> (\<forall>i. 0 \<le> i \<and> i < 140 \<longrightarrow> \<not> ?P i) \<or>
    (\<exists>k. find_loop 0 140 ?test = Inr (Some k) \<and> 0 \<le> k \<and> k < 140 \<and> ?P k \<and>
       (\<forall>i. 0 \<le> i \<and> i < k \<longrightarrow> \<not> ?P i))"
    using sched_level(1,2,5) [OF assms] by (intro find_loop_pure [where P = ?P]) simp
  moreover have idle: "\<not> ?P i \<longleftrightarrow> level s i = [] \<or> slots s i = 0" if "0 \<le> i" "i < 140" for i
    using sched_level(6) [OF assms that] by auto
  ultimately show ?thesis
  proof (elim disjE exE conjE)
    assume "find_loop 0 140 ?test = Inr None" "\<forall>i. 0 \<le> i \<and> i < 140 \<longrightarrow> \<not> ?P i"
    then show ?thesis using idle by blast
  next
    fix k
    assume k: "find_loop 0 140 ?test = Inr (Some k)" "0 \<le> k" "k < 140" "level s k \<noteq> []" "0 < slots s k"
      "\<forall>i. 0 \<le> i \<and> i < k \<longrightarrow> \<not> ?P i"
    have "level s i = [] \<or> slots s i = 0" if "0 \<le> i" "i < k" for i
      using k(3,6) that idle [of i] by simp
    then have "serves s k" using k(2-5) by (simp add: serves_def)
    then show ?thesis using k(1) by blast
  qed
qed

section \<open>What the operations do\<close>

definition same_queues :: "'p sched \<Rightarrow> 'p sched \<Rightarrow> bool" where
  "same_queues s s' \<longleftrightarrow> ready_queue s' = ready_queue s \<and> run_queue s' = run_queue s \<and>
    running_list s' = running_list s"

text \<open>\<open>x\<close> left level \<open>p\<close> and used up one of its slots.\<close>

definition served :: "'p sched \<Rightarrow> int \<Rightarrow> 'p \<Rightarrow> 'p sched \<Rightarrow> bool" where
  "served s p x s' \<longleftrightarrow> level s p = x # level s' p \<and> slots s' p = slots s p - 1 \<and>
    (\<forall>i. 0 \<le> i \<and> i < 140 \<and> i \<noteq> p \<longrightarrow> level s' i = level s i \<and> slots s' i = slots s i) \<and>
    same_queues s s'"

definition slots_reset :: "'p sched \<Rightarrow> 'p sched \<Rightarrow> bool" where
  "slots_reset s s' \<longleftrightarrow>
    (\<forall>i. 0 \<le> i \<and> i < 140 \<longrightarrow> level s' i = level s i \<and> slots s' i = 140 - i) \<and> same_queues s s'"

lemma sched_ok_upd:
  assumes ok: "sched_ok prio_of s" and p: "0 \<le> p" "p < 140"
    and q: "level_ok prio_of (u32_of_int p) q" and n: "0 \<le> n" "n \<le> 140 - p"
  defines "s' \<equiv> s\<lparr>mlq_ready_queue := CArray 140 ((acell (mlq_ready_queue s))(nat p := q)),
      slot := CArray 140 ((acell (slot s))(nat p := n))\<rparr>"
  shows "sched_ok prio_of s' \<and> level s' p = queue_items q \<and> slots s' p = n \<and>
    (\<forall>i. 0 \<le> i \<and> i \<noteq> p \<longrightarrow> level s' i = level s i \<and> slots s' i = slots s i) \<and> same_queues s s'"
proof -
  have at: "level s' i = (if i = p then queue_items q else level s i)"
    "slots s' i = (if i = p then n else slots s i)"
    "acell (mlq_ready_queue s') (nat i) = (if i = p then q else acell (mlq_ready_queue s) (nat i))"
    if "0 \<le> i" for i
    using that p by (auto simp: s'_def level_def slots_def nat_eq_iff)
  then have "sched_ok prio_of s'"
    using ok q n at p by (simp add: sched_ok_def) (simp add: s'_def)
  then show ?thesis using at p by (auto simp: same_queues_def s'_def)
qed

lemma get_mlq_proc_idle:
  assumes "sched_ok prio_of s" "\<forall>p. 0 \<le> p \<and> p < 140 \<longrightarrow> level s p = []"
  shows "get_mlq_proc prio_of s = Inr (None, s)"
  using queue_empty_eq [OF assms(1)] assms(2) by (auto simp: get_mlq_proc_def)

lemma get_mlq_proc_serves:
  assumes ok: "sched_ok prio_of s" and p: "serves s p"
  shows "\<exists>x s'. get_mlq_proc prio_of s = Inr (Some x, s') \<and> served s p x s' \<and> sched_ok prio_of s'"
proof -
  have p': "0 \<le> p" "p < 140" "level s p \<noteq> []" "0 < slots s p" using p by (simp_all add: serves_def)
  let ?q = "acell (mlq_ready_queue s) (nat p)"
  note lv = sched_level [OF ok p'(1,2)]
  obtain x xs where xs: "queue_items ?q = x # xs" "level s p = x # xs"
    using p'(3) by (cases "level s p") (auto simp: level_def)
  obtain q' where q': "dequeue prio_of (Some ?q) = Inr (Some x, Some q')" "queue_ok q'" "queue_items q' = xs"
    using dequeue_uniform [OF lv(3) _ _ xs(1), of prio_of "u32_of_int p"] lv(4) by (auto simp: level_ok_def)
  have lq': "level_ok prio_of (u32_of_int p) q'" using lv(4) q'(2,3) xs(1) by (simp add: level_ok_def)
  have uniq: "k = p" if "serves s k" for k
    using that p unfolding serves_def by (metis linorder_neqE_linordered_idom order_less_irrefl)
  have found: "find_loop 0 140 (\<lambda>prio. bindr (aget (mlq_ready_queue s) prio) (\<lambda>q.
        if empty_queue (Some q) = 0 then bindr (aget (slot s) prio) (\<lambda>n. Inr (0 < n))
        else Inr False)) = Inr (Some p)"
    using find_level [OF ok] uniq p' by auto
  have al: "alen (mlq_ready_queue s) = 140" "alen (slot s) = 140" using ok by (simp_all add: sched_ok_def)
  obtain e where e: "queue_empty s = Inr e" "e = -1" using queue_empty_eq [OF ok] p' by auto
  let ?s' = "s\<lparr>mlq_ready_queue := CArray 140 ((acell (mlq_ready_queue s))(nat p := q')),
      slot := CArray 140 ((acell (slot s))(nat p := slots s p - 1))\<rparr>"
  have "get_mlq_proc prio_of s = Inr (Some x, ?s')"
    using e found q'(1) lv(1,2) al p'(1,2)
    by (simp add: get_mlq_proc_def MAX_PRIO_def aset_def in_bounds_def)
  moreover have "sched_ok prio_of ?s' \<and> level ?s' p = queue_items q' \<and> slots ?s' p = slots s p - 1 \<and>
      (\<forall>i. 0 \<le> i \<and> i \<noteq> p \<longrightarrow> level ?s' i = level s i \<and> slots ?s' i = slots s i) \<and> same_queues s ?s'"
    using lv(6,7) p'(4) by (intro sched_ok_upd [OF ok p'(1,2) lq']) simp_all
  ultimately show ?thesis
    using xs(2) q'(3) by (intro exI [of _ x] exI [of _ ?s']) (simp add: served_def)
qed

lemma reset_slots_ok:
  assumes "sched_ok prio_of s"
  shows "\<exists>s'. reset_slots s = Inr s' \<and> slots_reset s s' \<and> sched_ok prio_of s'"
proof -
  have al: "alen (slot s) = 140" using assms by (simp add: sched_ok_def)
  have "\<exists>sl. for_loop 0 140 (\<lambda>prio sl. aset sl prio (140 - prio)) (slot s) = Inr sl \<and>
      alen sl = 140 \<and> (\<forall>i. 0 \<le> i \<and> i < 140 \<longrightarrow> acell sl (nat i) = 140 - i)"
    by (rule for_loop_rule [where P = "\<lambda>k sl. alen sl = 140 \<and> (\<forall>i. 0 \<le> i \<and> i < k \<longrightarrow> acell sl (nat i) = 140 - i)"])
      (auto simp: al aset_def in_bounds_def nat_eq_iff)
  then obtain sl where sl: "for_loop 0 140 (\<lambda>prio sl. aset sl prio (140 - prio)) (slot s) = Inr sl"
    "alen sl = 140" "\<forall>i. 0 \<le> i \<and> i < 140 \<longrightarrow> acell sl (nat i) = 140 - i" by blast
  let ?s' = "s\<lparr>slot := sl\<rparr>"
  have "reset_slots s = Inr ?s'" using sl(1) by (simp add: reset_slots_def MAX_PRIO_def)
  moreover have "slots_reset s ?s'" using sl(3) by (simp add: slots_reset_def same_queues_def level_def slots_def)
  moreover have "sched_ok prio_of ?s'" using assms sl(2,3) by (auto simp: sched_ok_def slots_def)
  ultimately show ?thesis by blast
qed

lemma get_mlq_proc_resets:
  assumes ok: "sched_ok prio_of s" and p: "0 \<le> p" "p < 140" "level s p \<noteq> []"
    and none: "\<forall>k. \<not> serves s k"
  shows "\<exists>s'. get_mlq_proc prio_of s = Inr (None, s') \<and> slots_reset s s' \<and> sched_ok prio_of s'"
proof -
  obtain e where e: "queue_empty s = Inr e" "e = -1" using queue_empty_eq [OF ok] p by auto
  obtain s' where s': "reset_slots s = Inr s'" "slots_reset s s'" "sched_ok prio_of s'"
    using reset_slots_ok [OF ok] by blast
  show ?thesis
    using e s' find_level [OF ok] none by (auto simp: get_mlq_proc_def MAX_PRIO_def)
qed

text \<open>After a reset the highest level with a process is served.\<close>

lemma serves_after_reset:
  assumes "sched_ok prio_of s" "slots_reset s s'" "0 \<le> p" "p < 140" "level s p \<noteq> []"
    "\<forall>i. 0 \<le> i \<and> i < p \<longrightarrow> level s i = []"
  shows "serves s' p"
  using assms by (auto simp: serves_def slots_reset_def)

lemma put_mlq_proc_ok:
  assumes ok: "sched_ok prio_of s" and pr: "prio_of x = Inr pr" "pr < 140"
  shows "\<exists>s'. put_mlq_proc prio_of x s = Inr s' \<and> sched_ok prio_of s' \<and>
    level s' (uint pr) = level s (uint pr) @ (if length (level s (uint pr)) < 10 then [x] else []) \<and>
    (\<forall>i. 0 \<le> i \<and> i \<noteq> uint pr \<longrightarrow> level s' i = level s i) \<and> (\<forall>i \<ge> 0. slots s' i = slots s i) \<and>
    same_queues s s'"
proof -
  let ?p = "uint pr" and ?q = "acell (mlq_ready_queue s) (nat (uint pr))"
  have p: "0 \<le> ?p" "?p < 140" using pr(2) by (simp_all add: word_less_def)
  note lv = sched_level [OF ok p]
  have pw: "u32_of_int ?p = pr" by (simp add: u32_of_int_def)
  define q' where "q' = (if length (queue_items ?q) < 10 then level_enq x ?q else ?q)"
  have run: "enqueue (Some ?q) (Some x) = Inr (Some q')"
  proof (cases "length (queue_items ?q) < 10")
    case True
    then show ?thesis using enqueue_room [OF lv(3) True, of x] by (auto simp: q'_def level_enq_def)
  next
    case False
    then show ?thesis using enqueue_full [OF lv(3) False] by (simp add: q'_def)
  qed
  have q': "level_ok prio_of (u32_of_int ?p) q'"
    "queue_items q' = queue_items ?q @ (if length (queue_items ?q) < 10 then [x] else [])"
    using level.enq_back [of prio_of "u32_of_int ?p" ?q x] lv(4) pr(1) by (auto simp: q'_def pw)
  let ?s' = "s\<lparr>mlq_ready_queue := CArray 140 ((acell (mlq_ready_queue s))(nat ?p := q')),
      slot := CArray 140 ((acell (slot s))(nat ?p := slots s ?p))\<rparr>"
  have al: "alen (mlq_ready_queue s) = 140" "alen (slot s) = 140" using ok by (simp_all add: sched_ok_def)
  have "CArray 140 ((acell (slot s))(nat ?p := slots s ?p)) = slot s"
    using al(2) by (cases "slot s") (simp add: slots_def)
  then have "put_mlq_proc prio_of x s = Inr ?s'"
    using run lv(1) al p pr(1) by (simp add: put_mlq_proc_def aset_def in_bounds_def)
  moreover have "sched_ok prio_of ?s' \<and> level ?s' ?p = queue_items q' \<and> slots ?s' ?p = slots s ?p \<and>
      (\<forall>i. 0 \<le> i \<and> i \<noteq> ?p \<longrightarrow> level ?s' i = level s i \<and> slots ?s' i = slots s i) \<and> same_queues s ?s'"
    using lv(6,7) by (intro sched_ok_upd [OF ok p q'(1)]) simp_all
  ultimately show ?thesis
    using q'(2) by (intro exI [of _ ?s']) (auto simp: level_def slots_def)
qed

lemma add_is_put: "add_mlq_proc = put_mlq_proc"
  by (intro ext) (simp add: add_mlq_proc_def put_mlq_proc_def)

lemma enqueue_any:
  assumes "queue_ok q"
  shows "\<exists>q'. enqueue (Some q) (Some x) = Inr (Some q') \<and> queue_ok q' \<and>
    queue_items q' = queue_items q @ (if length (queue_items q) < 10 then [x] else [])"
proof (cases "length (queue_items q) < 10")
  case True
  then show ?thesis using enqueue_room [OF assms True, of x] by simp
next
  case False
  then show ?thesis using enqueue_full [OF assms False] assms by simp
qed

lemma sched_ok_legacy:
  assumes "sched_ok prio_of s" "queue_ok q"
  shows "sched_ok prio_of (s\<lparr>ready_queue := q\<rparr>)" "sched_ok prio_of (s\<lparr>running_list := q\<rparr>)"
  using assms by (simp_all add: sched_ok_def slots_def)

text \<open>What \<open>put_proc\<close> and \<open>add_proc\<close> share: the process joins its level if there is room.\<close>

definition joined :: "'p \<Rightarrow> u32 \<Rightarrow> 'p sched \<Rightarrow> 'p sched \<Rightarrow> bool" where
  "joined x pr s s' \<longleftrightarrow>
    level s' (uint pr) = level s (uint pr) @ (if length (level s (uint pr)) < 10 then [x] else []) \<and>
    (\<forall>i. 0 \<le> i \<and> i \<noteq> uint pr \<longrightarrow> level s' i = level s i) \<and> (\<forall>i \<ge> 0. slots s' i = slots s i)"

lemma put_proc_ok:
  assumes ok: "sched_ok prio_of s" and pr: "prio_of x = Inr pr" "pr < 140"
  shows "\<exists>s'. put_proc prio_of x s = Inr s' \<and> sched_ok prio_of s' \<and> joined x pr s s' \<and>
    running_list s' = running_list s"
proof -
  obtain q where q: "enqueue (Some (ready_queue s)) (Some x) = Inr (Some q)" "queue_ok q"
    using enqueue_any [of "ready_queue s" x] ok by (auto simp: sched_ok_def)
  obtain s' where s': "put_mlq_proc prio_of x (s\<lparr>ready_queue := q\<rparr>) = Inr s'" "sched_ok prio_of s'"
    "joined x pr (s\<lparr>ready_queue := q\<rparr>) s'" "same_queues (s\<lparr>ready_queue := q\<rparr>) s'"
    using put_mlq_proc_ok [OF sched_ok_legacy(1) [OF ok q(2)] pr] by (auto simp: joined_def)
  moreover have "joined x pr (s\<lparr>ready_queue := q\<rparr>) s' = joined x pr s s'"
    by (simp add: joined_def level_def slots_def)
  ultimately show ?thesis using q(1) by (simp add: put_proc_def same_queues_def)
qed

lemma add_proc_ok:
  assumes ok: "sched_ok prio_of s" and pr: "prio_of x = Inr pr" "pr < 140"
  shows "\<exists>s'. add_proc prio_of x s = Inr s' \<and> sched_ok prio_of s' \<and> joined x pr s s' \<and>
    ready_queue s' = ready_queue s \<and>
    queue_items (running_list s') = queue_items (running_list s) @
      (if length (queue_items (running_list s)) < 10 then [x] else [])"
proof -
  obtain q where q: "enqueue (Some (running_list s)) (Some x) = Inr (Some q)" "queue_ok q"
    "queue_items q = queue_items (running_list s) @
      (if length (queue_items (running_list s)) < 10 then [x] else [])"
    using enqueue_any [of "running_list s" x] ok by (auto simp: sched_ok_def)
  obtain s' where s': "put_mlq_proc prio_of x (s\<lparr>running_list := q\<rparr>) = Inr s'" "sched_ok prio_of s'"
    "joined x pr (s\<lparr>running_list := q\<rparr>) s'" "same_queues (s\<lparr>running_list := q\<rparr>) s'"
    using put_mlq_proc_ok [OF sched_ok_legacy(2) [OF ok q(2)] pr] by (auto simp: joined_def)
  moreover have "joined x pr (s\<lparr>running_list := q\<rparr>) s' = joined x pr s s'"
    by (simp add: joined_def level_def slots_def)
  ultimately show ?thesis using q(1,3) by (simp add: add_proc_def same_queues_def add_is_put)
qed

lemma get_proc_cases:
  assumes ok: "sched_ok prio_of s"
  obtains (idle) "\<forall>p. 0 \<le> p \<and> p < 140 \<longrightarrow> level s p = []" "get_proc prio_of s = Inr (None, s)"
  | (serve) p x s' where "serves s p" "get_proc prio_of s = Inr (Some x, s')" "served s p x s'"
      "sched_ok prio_of s'"
  | (reset) q s' where "0 \<le> q" "q < 140" "level s q \<noteq> []" "\<forall>i. 0 \<le> i \<and> i < q \<longrightarrow> level s i = []"
      "\<forall>k. \<not> serves s k" "get_proc prio_of s = Inr (None, s')" "slots_reset s s'" "sched_ok prio_of s'"
proof (cases "\<forall>p. 0 \<le> p \<and> p < 140 \<longrightarrow> level s p = []")
  case True
  then show thesis using that(1) get_mlq_proc_idle [OF ok] by (simp add: get_proc_def)
next
  case False
  let ?P = "\<lambda>n. n < 140 \<and> level s (int n) \<noteq> []"
  obtain p where p: "0 \<le> p" "p < 140" "level s p \<noteq> []" using False by blast
  then have "?P (nat p)" by (simp add: nat_less_iff)
  then have least: "?P (LEAST n. ?P n)" by (rule LeastI)
  define q where "q = int (LEAST n. ?P n)"
  have q: "0 \<le> q" "q < 140" "level s q \<noteq> []" using least by (simp_all add: q_def)
  have below: "\<forall>i. 0 \<le> i \<and> i < q \<longrightarrow> level s i = []"
  proof (intro allI impI)
    fix i assume i: "0 \<le> i \<and> i < q"
    then have "nat i < (LEAST n. ?P n)" by (simp add: q_def nat_less_iff)
    then show "level s i = []" using not_less_Least [of "nat i" ?P] i q(2) by auto
  qed
  show thesis
  proof (cases "\<exists>k. serves s k")
    case True
    then obtain k where k: "serves s k" ..
    then show thesis using that(2) get_mlq_proc_serves [OF ok k] by (auto simp: get_proc_def)
  next
    case none: False
    then obtain s' where "get_mlq_proc prio_of s = Inr (None, s')" "slots_reset s s'" "sched_ok prio_of s'"
      using get_mlq_proc_resets [OF ok q] by blast
    then show thesis using that(3) [OF q below] none by (simp add: get_proc_def)
  qed
qed

section \<open>The scheduler as a state machine\<close>

text \<open>
  Sequences of operations from a scheduler with full slots, with a ghost count of how often each
  level was served since the slots were last filled.
\<close>

inductive sched_run :: "('p \<Rightarrow> u32 res) \<Rightarrow> 'p sched \<Rightarrow> (int \<Rightarrow> int) \<Rightarrow> bool" for prio_of where
  start: "sched_ok prio_of s \<Longrightarrow> \<forall>p. 0 \<le> p \<and> p < 140 \<longrightarrow> slots s p = 140 - p \<Longrightarrow> sched_run prio_of s (\<lambda>_. 0)"
| get_some: "sched_run prio_of s n \<Longrightarrow> get_proc prio_of s = Inr (Some x, s') \<Longrightarrow> prio_of x = Inr pr \<Longrightarrow>
    sched_run prio_of s' (n(uint pr := n (uint pr) + 1))"
| get_none: "sched_run prio_of s n \<Longrightarrow> get_proc prio_of s = Inr (None, s') \<Longrightarrow>
    sched_run prio_of s' (if queue_empty s = Inr (-1) then (\<lambda>_. 0) else n)"
| put: "sched_run prio_of s n \<Longrightarrow> prio_of x = Inr pr \<Longrightarrow> pr < 140 \<Longrightarrow> put_proc prio_of x s = Inr s' \<Longrightarrow>
    sched_run prio_of s' n"
| add: "sched_run prio_of s n \<Longrightarrow> prio_of x = Inr pr \<Longrightarrow> pr < 140 \<Longrightarrow> add_proc prio_of x s = Inr s' \<Longrightarrow>
    sched_run prio_of s' n"

lemma served_prio:
  assumes "sched_ok prio_of s" "serves s p" "served s p x s'"
  shows "prio_of x = Inr (u32_of_int p) \<and> uint (u32_of_int p) = p"
proof -
  have p: "0 \<le> p" "p < 140" using assms(2) by (simp_all add: serves_def)
  have "x \<in> set (level s p)" using assms(3) by (simp add: served_def)
  then show ?thesis
    using sched_level(4) [OF assms(1) p] p by (auto simp: level_ok_def level_def uint_u32_of_int)
qed

lemma sched_run_inv:
  assumes "sched_run prio_of s n"
  shows "sched_ok prio_of s \<and> (\<forall>p. 0 \<le> p \<and> p < 140 \<longrightarrow> slots s p + n p = 140 - p)"
  using assms
proof induction
  case (get_some s n x s' pr)
  then have ok: "sched_ok prio_of s" by simp
  then show ?case
  proof (cases rule: get_proc_cases)
    case (serve p y t)
    then have t: "y = x" "t = s'" using get_some.hyps(2) by simp_all
    have "prio_of x = Inr (u32_of_int p) \<and> uint (u32_of_int p) = p"
      using served_prio [OF ok serve(1)] serve(3) t by simp
    then have "uint pr = p" using get_some.hyps(3) by simp
    then show ?thesis using serve(3,4) t get_some.IH by (auto simp: served_def)
  qed (use get_some.hyps(2) in auto)
next
  case (get_none s n s')
  then have ok: "sched_ok prio_of s" by simp
  then show ?case
  proof (cases rule: get_proc_cases)
    case idle
    then have "queue_empty s \<noteq> Inr (-1)" using queue_empty_eq [OF ok] by auto
    then show ?thesis using idle get_none by auto
  next
    case (reset q t)
    then have "queue_empty s = Inr (-1)" using queue_empty_eq [OF ok] by auto
    then show ?thesis using reset get_none.hyps(2) by (auto simp: slots_reset_def)
  qed (use get_none.hyps(2) in auto)
next
  case (put s n x pr s')
  then show ?case using put_proc_ok [of prio_of s x pr] by (auto simp: joined_def)
next
  case (add s n x pr s')
  then show ?case using add_proc_ok [of prio_of s x pr] by (auto simp: joined_def)
qed simp

section \<open>Properties\<close>

text \<open>For the witnesses: processes are their priorities, one waits at level 3.\<close>

definition queue_of :: "'p list \<Rightarrow> 'p queue_t" where
  "queue_of xs = \<lparr>proc = CArray 10 (\<lambda>i. if i < length xs then Some (xs ! i) else None), qsize = int (length xs)\<rparr>"

definition sched_of :: "u32 list \<Rightarrow> int \<Rightarrow> u32 sched" where
  "sched_of xs n = \<lparr>ready_queue = queue_of [], run_queue = queue_of [], running_list = queue_of [],
     mlq_ready_queue = CArray 140 (\<lambda>i. if i = 3 then queue_of xs else queue_of []),
     slot = CArray 140 (\<lambda>i. if i = 3 then n else 140 - int i)\<rparr>"

text \<open>A scheduler with full slots: \<open>zs\<close> wait at level 0 and \<open>rl\<close> is the running list.\<close>

definition boot_sched :: "'p list \<Rightarrow> 'p list \<Rightarrow> 'p sched" where
  "boot_sched zs rl = \<lparr>ready_queue = queue_of [], run_queue = queue_of [], running_list = queue_of rl,
     mlq_ready_queue = CArray 140 (\<lambda>i. if i = 0 then queue_of zs else queue_of []),
     slot = CArray 140 (\<lambda>i. 140 - int i)\<rparr>"

lemma queue_of_ok: "length xs \<le> 10 \<Longrightarrow> queue_ok (queue_of xs) \<and> queue_items (queue_of xs) = xs"
  by (intro queue_okI) (simp_all add: queue_of_def)

lemma sched_of_level: "length xs \<le> 10 \<Longrightarrow> 0 \<le> p \<Longrightarrow> level (sched_of xs n) p = (if p = 3 then xs else [])"
  using queue_of_ok [of xs] queue_of_ok [of "[]"] by (auto simp: level_def sched_of_def nat_eq_iff)

lemma sched_of_ok:
  assumes "length xs \<le> 10" "\<forall>x \<in> set xs. x = 3" "0 \<le> n" "n \<le> 137"
  shows "sched_ok Inr (sched_of xs n)"
proof -
  have "u32_of_int p < 140" if "0 \<le> p" "p < 140" for p
    using that by (simp add: word_less_def uint_u32_of_int)
  then have "level_ok Inr (u32_of_int p) (acell (mlq_ready_queue (sched_of xs n)) (nat p))"
    if "0 \<le> p" "p < 140" for p
    using that assms(2) queue_of_ok [of "[] :: u32 list"] queue_of_ok [OF assms(1)]
    by (auto simp: level_ok_def sched_of_def nat_eq_iff u32_of_int_def)
  then show ?thesis
    using queue_of_ok [of "[] :: u32 list"] assms(3,4)
    by (auto simp: sched_ok_def) (auto simp: sched_of_def slots_def nat_eq_iff)
qed

text \<open>
  C23: \<open>get_proc\<close> on a well-formed scheduler. It returns the oldest process of the first level
  that has both a process and a slot left, and charges that level one slot; NULL when no process
  is ready, with nothing changed; and NULL as well when processes are ready but their levels
  have used up their slots, in which case all slots are filled up again.
\<close>

theorem get_proc_spec:
  assumes "sched_ok prio_of s"
  shows "\<exists>r s'. get_proc prio_of s = Inr (r, s') \<and> sched_ok prio_of s' \<and>
    (case r of
       Some x \<Rightarrow> \<exists>p. serves s p \<and> served s p x s'
     | None \<Rightarrow> if \<forall>p. 0 \<le> p \<and> p < 140 \<longrightarrow> level s p = [] then s' = s
               else (\<forall>p. \<not> serves s p) \<and> slots_reset s s')"
using assms proof (cases rule: get_proc_cases)
  case idle
  then show ?thesis using assms by (intro exI [of _ None] exI [of _ s]) simp
next
  case (serve p x s')
  then show ?thesis by (intro exI [of _ "Some x"] exI [of _ s']) auto
next
  case (reset q s')
  then have busy: "\<not> (\<forall>p. 0 \<le> p \<and> p < 140 \<longrightarrow> level s p = [])" by blast
  show ?thesis
    using reset by (intro exI [of _ None] exI [of _ s']) (simp only: option.case if_not_P [OF busy], simp)
qed

theorem get_proc_spec_witness:
  "\<exists>r s'. get_proc Inr (sched_of [3, 3] 5) = Inr (r, s') \<and> sched_ok Inr s'"
  using get_proc_spec [OF sched_of_ok [of "[3, 3]" 5]] by auto

text \<open>
  No ready process waits behind more than one NULL. When a process is ready, either
  \<open>get_proc\<close> returns a process, or it returns NULL once, refilling the slots, and the next call
  returns the oldest process of the highest non-empty level.
\<close>

theorem get_proc_two_calls:
  assumes "sched_ok prio_of s" "0 \<le> p" "p < 140" "level s p \<noteq> []"
  shows "\<exists>r s1. get_proc prio_of s = Inr (r, s1) \<and>
    (r = None \<longrightarrow> (\<exists>q s2. 0 \<le> q \<and> q \<le> p \<and> (\<forall>i. 0 \<le> i \<and> i < q \<longrightarrow> level s i = []) \<and>
       level s q \<noteq> [] \<and> get_proc prio_of s1 = Inr (Some (hd (level s q)), s2)))"
using assms(1) proof (cases rule: get_proc_cases)
  case idle
  then show ?thesis using assms(2-4) by blast
next
  case (serve q x s')
  then show ?thesis by (intro exI [of _ "Some x"] exI [of _ s']) simp
next
  case (reset q s')
  have "serves s' q" using serves_after_reset [OF assms(1) reset(7,1,2,3,4)] .
  then obtain y s2 where "get_mlq_proc prio_of s' = Inr (Some y, s2)" "served s' q y s2"
    using get_mlq_proc_serves [OF reset(8)] by blast
  moreover have "level s' q = level s q" using reset(1,2,7) by (simp add: slots_reset_def)
  moreover have "q \<le> p" using reset(4) assms(2,4) by (meson not_le)
  ultimately show ?thesis
    using reset by (intro exI [of _ None] exI [of _ s'])
      (auto simp: get_proc_def served_def intro!: exI [of _ q] exI [of _ s2])
qed

theorem get_proc_two_calls_witness:
  "\<exists>s1 s2. get_proc Inr (sched_of [3] 0) = Inr (None, s1) \<and> get_proc Inr s1 = Inr (Some 3, s2)"
proof -
  let ?s = "sched_of [3] 0"
  have ok: "sched_ok Inr ?s" by (rule sched_of_ok) simp_all
  have lv: "level ?s p = (if p = 3 then [3] else [])" if "0 \<le> p" for p
    using that by (intro sched_of_level) simp_all
  have none: "\<not> serves ?s k" for k
    using lv [of k] by (auto simp: serves_def slots_def sched_of_def)
  obtain r s1 where r: "get_proc Inr ?s = Inr (r, s1)"
    "r = None \<longrightarrow> (\<exists>q s2. 0 \<le> q \<and> q \<le> 3 \<and> (\<forall>i. 0 \<le> i \<and> i < q \<longrightarrow> level ?s i = []) \<and>
       level ?s q \<noteq> [] \<and> get_proc Inr s1 = Inr (Some (hd (level ?s q)), s2))"
    using get_proc_two_calls [OF ok, of 3] lv by auto
  have "r = None"
    using none r(1) by (cases rule: get_proc_cases [OF ok]) auto
  then show ?thesis using r lv by (auto split: if_splits)
qed

text \<open>
  C35: a returned process joins the back of its level and its turn comes after exactly those
  already there; the slots stay. A level that already holds \<open>MAX_QUEUE_SIZE\<close> processes keeps them
  and the new one is dropped without any report: it is on no ready level afterwards.
\<close>

theorem put_proc_spec:
  assumes "sched_ok prio_of s" "prio_of x = Inr pr" "pr < 140"
  shows "\<exists>s'. put_proc prio_of x s = Inr s' \<and> sched_ok prio_of s' \<and>
    (\<forall>i \<ge> 0. slots s' i = slots s i) \<and> (\<forall>i. 0 \<le> i \<and> i \<noteq> uint pr \<longrightarrow> level s' i = level s i) \<and>
    (let q' = acell (mlq_ready_queue s') (nat (uint pr)); n = length (level s (uint pr)) in
     if n < 10
     then \<exists>q1 q2. level.drain prio_of n q' = Inr (level s (uint pr), q1) \<and>
       level_deq prio_of q1 = Inr (Some x, q2) \<and> queue_items q2 = []
     else level s' (uint pr) = level s (uint pr))"
proof -
  let ?p = "uint pr"
  obtain s' where s': "put_proc prio_of x s = Inr s'" "sched_ok prio_of s'" "joined x pr s s'"
    using put_proc_ok [OF assms] by blast
  have p: "0 \<le> ?p" "?p < 140" using assms(3) by (simp_all add: word_less_def)
  let ?q' = "acell (mlq_ready_queue s') (nat ?p)" and ?n = "length (level s ?p)"
  have lv: "level_ok prio_of pr ?q'"
    using sched_level(4) [OF s'(2) p] by (simp add: u32_of_int_def)
  have "\<exists>q1 q2. level.drain prio_of ?n ?q' = Inr (level s ?p, q1) \<and>
       level_deq prio_of q1 = Inr (Some x, q2) \<and> queue_items q2 = []" if n: "?n < 10"
  proof -
    have items: "queue_items ?q' = level s ?p @ [x]"
      using s'(3) n by (simp add: joined_def level_def)
    obtain q1 where q1: "level.drain prio_of ?n ?q' = Inr (level s ?p, q1)" "level_ok prio_of pr q1"
      "queue_items q1 = [x]"
      using level.drain_items [OF lv, of ?n] items by auto
    then show ?thesis using level.deq_front [OF q1(2,3)] by auto
  qed
  then show ?thesis using s' by (auto simp: Let_def joined_def)
qed

theorem put_proc_spec_witness:
  "\<exists>s'. put_proc Inr 3 (sched_of (replicate 10 3) 0) = Inr s' \<and> level s' 3 = replicate 10 3"
proof -
  have ok: "sched_ok Inr (sched_of (replicate 10 3) 0)" by (rule sched_of_ok) simp_all
  have lv: "level (sched_of (replicate 10 3) 0) 3 = replicate 10 (3 :: u32)"
    using sched_of_level [of "replicate 10 3" 3 0] by simp
  show ?thesis using put_proc_spec [OF ok, of 3 3] lv by (auto simp: Let_def)
qed

text \<open>
  C25: the weight of a priority. In every sequence of scheduler operations the processes of
  priority \<open>p\<close> are handed out at most \<open>MAX_PRIO - p\<close> times between two refills of the slots, and
  the slot counter is exactly what is left of that budget.
\<close>

theorem slot_budget:
  assumes "sched_run prio_of s n" "0 \<le> p" "p < 140"
  shows "slots s p = 140 - p - n p \<and> 0 \<le> n p \<and> n p \<le> 140 - p"
  using sched_run_inv [OF assms(1)] sched_level(6,7) [of prio_of s p] assms(2,3) by force

theorem slot_budget_witness:
  "\<exists>s n. sched_run Inr s n \<and> n 3 = 1 \<and> slots s 3 = 136"
proof -
  let ?s = "sched_of [3] 137"
  have ok: "sched_ok Inr ?s" by (rule sched_of_ok) simp_all
  have run: "sched_run Inr ?s (\<lambda>_. 0)"
    using ok by (intro sched_run.start) (auto simp: slots_def sched_of_def)
  have lv: "level ?s p = (if p = 3 then [3] else [])" if "0 \<le> p" for p
    using that by (intro sched_of_level) simp_all
  have "serves ?s 3" using lv by (simp add: serves_def slots_def sched_of_def)
  then obtain x s' where s': "get_proc Inr ?s = Inr (Some x, s')" "served ?s 3 x s'"
    using get_mlq_proc_serves [OF ok, of 3] by (auto simp: get_proc_def)
  have "x = 3" using s'(2) lv [of 3] by (simp add: served_def)
  then have "sched_run Inr s' ((\<lambda>_. 0)(3 := 1))"
    using sched_run.get_some [OF run s'(1), of 3] by simp
  then show ?thesis using slot_budget [of Inr s' _ 3] by force
qed

end
