(* ===== verification/Scan.thy ===== *)
theory Scan
  imports Prelude "HOL-Library.Char_ord"
begin

text \<open>
  Formatted input as \<open>src/loader.c\<close> and \<open>src/os.c\<close> use it: the conversions \<open>%u\<close>, \<open>%d\<close>, \<open>%lu\<close>
  and \<open>%s\<close> of \<open>fscanf\<close> and \<open>sscanf\<close>, white space in a format, and \<open>fgets\<close>. A stream is the
  characters not yet read. A conversion yields \<open>None\<close> when it does not match, in which case C
  assigns nothing. Numbers follow \<open>strtoul\<close> and \<open>strtol\<close> (64 bits, saturating) and are then cut
  to the type of the variable. This models the C library; no line of the source defines it.
\<close>

section \<open>Characters\<close>

definition is_space :: "char \<Rightarrow> bool" where
  "is_space c \<longleftrightarrow> (of_char c :: nat) \<in> {9, 10, 11, 12, 13, 32}"

definition is_digit :: "char \<Rightarrow> bool" where
  "is_digit c \<longleftrightarrow> 48 \<le> (of_char c :: nat) \<and> (of_char c :: nat) \<le> 57"

definition digit_val :: "char \<Rightarrow> nat" where
  "digit_val c = of_char c - 48"

definition skip_ws :: "string \<Rightarrow> string" where
  "skip_ws s = dropWhile is_space s"

section \<open>Conversions\<close>

definition digits_val :: "string \<Rightarrow> nat" where
  "digits_val ds = foldl (\<lambda>a c. a * 10 + digit_val c) 0 ds"

definition scan_sign :: "string \<Rightarrow> bool \<times> string" where
  "scan_sign s = (case s of
      [] \<Rightarrow> (False, [])
    | c # cs \<Rightarrow> if c = CHR ''-'' then (True, cs) else if c = CHR ''+'' then (False, cs) else (False, s))"

definition scan_number :: "string \<Rightarrow> (bool \<times> nat) option \<times> string" where
  "scan_number s =
    (let (neg, s) = scan_sign (skip_ws s);
         ds = takeWhile is_digit s;
         s = dropWhile is_digit s
     in if ds = [] then (None, s) else (Some (neg, digits_val ds), s))"

definition ulong_of :: "bool \<times> nat \<Rightarrow> int" where
  "ulong_of x = (case x of (neg, n) \<Rightarrow>
    if 2 ^ 64 \<le> n then 2 ^ 64 - 1 else if neg then - int n else int n)"

definition long_of :: "bool \<times> nat \<Rightarrow> int" where
  "long_of x = (case x of (neg, n) \<Rightarrow>
    if neg then max (- (2 ^ 63)) (- int n) else min (2 ^ 63 - 1) (int n))"

definition scan_u :: "string \<Rightarrow> u32 option \<times> string" where
  "scan_u s = (case scan_number s of (x, s) \<Rightarrow> (map_option (\<lambda>x. word_of_int (ulong_of x)) x, s))"

definition scan_lu :: "string \<Rightarrow> u64 option \<times> string" where
  "scan_lu s = (case scan_number s of (x, s) \<Rightarrow> (map_option (\<lambda>x. word_of_int (ulong_of x)) x, s))"

definition scan_d :: "string \<Rightarrow> int option \<times> string" where
  "scan_d s = (case scan_number s of (x, s) \<Rightarrow> (map_option (\<lambda>x. i32 (long_of x)) x, s))"

definition scan_s :: "string \<Rightarrow> string option \<times> string" where
  "scan_s s =
    (let s = skip_ws s;
         tok = takeWhile (\<lambda>c. \<not> is_space c) s
     in (if tok = [] then None else Some tok, drop (length tok) s))"

text \<open>A format of several conversions stops at the first one that does not match.\<close>

fun scan_list :: "(string \<Rightarrow> 'a option \<times> string) \<Rightarrow> nat \<Rightarrow> string \<Rightarrow> 'a list \<times> string" where
  "scan_list sc 0 s = ([], s)"
| "scan_list sc (Suc n) s = (case sc s of
      (None, s) \<Rightarrow> ([], s)
    | (Some x, s) \<Rightarrow> (case scan_list sc n s of (xs, s) \<Rightarrow> (x # xs, s)))"

text \<open>The same with white space at the end of the format, reached when all matched.\<close>

definition scan_line :: "(string \<Rightarrow> 'a option \<times> string) \<Rightarrow> nat \<Rightarrow> string \<Rightarrow> 'a list \<times> string" where
  "scan_line sc n s = (case scan_list sc n s of (xs, s) \<Rightarrow>
    (xs, if length xs = n then skip_ws s else s))"

text \<open>\<open>fgets (buf, n, file)\<close>: what it stores (\<open>None\<close> at the end of the file) and what remains.\<close>

fun fgets :: "nat \<Rightarrow> string \<Rightarrow> string \<times> string" where
  "fgets 0 s = ([], s)"
| "fgets (Suc n) [] = ([], [])"
| "fgets (Suc n) (c # cs) =
     (if c = CHR 0x0A then ([c], cs) else (case fgets n cs of (l, s) \<Rightarrow> (c # l, s)))"

section \<open>Decimal notation\<close>

fun show_nat :: "nat \<Rightarrow> string" where
  "show_nat n = (if n < 10 then [char_of (48 + n)] else show_nat (n div 10) @ [char_of (48 + n mod 10)])"

declare show_nat.simps [simp del]

lemma digit_char: "d < 10 \<Longrightarrow> is_digit (char_of (48 + d)) \<and> digit_val (char_of (48 + d)) = d"
  by (simp add: is_digit_def digit_val_def of_char_of)

lemma show_nat_digits: "\<forall>c \<in> set (show_nat n). is_digit c"
proof (induction n rule: show_nat.induct)
  case (1 n)
  then show ?case using digit_char [of n] digit_char [of "n mod 10"] by (subst show_nat.simps) auto
qed

lemma show_nat_ne: "show_nat n \<noteq> []"
  by (subst show_nat.simps) simp

lemma digits_val_show: "digits_val (show_nat n) = n"
proof (induction n rule: show_nat.induct)
  case (1 n)
  then show ?case
    using digit_char [of n] digit_char [of "n mod 10"]
    by (subst show_nat.simps) (auto simp: digits_val_def)
qed

lemma digit_not_space: "is_digit c \<Longrightarrow> \<not> is_space c \<and> c \<noteq> CHR ''-'' \<and> c \<noteq> CHR ''+''"
  by (auto simp: is_digit_def is_space_def)

text \<open>A stream that cannot continue a number.\<close>

definition no_digit :: "string \<Rightarrow> bool" where
  "no_digit s \<longleftrightarrow> (case s of [] \<Rightarrow> True | c # _ \<Rightarrow> \<not> is_digit c)"

definition spaces :: "string \<Rightarrow> bool" where
  "spaces ws \<longleftrightarrow> (\<forall>c \<in> set ws. is_space c)"

lemma skip_ws_spaces: "spaces ws \<Longrightarrow> skip_ws (ws @ s) = skip_ws s"
  by (simp add: spaces_def skip_ws_def)

lemma skip_ws_ink: "s \<noteq> [] \<Longrightarrow> \<not> is_space (hd s) \<Longrightarrow> skip_ws s = s"
  by (cases s) (simp_all add: skip_ws_def)

lemma scan_number_show:
  assumes "spaces ws" "no_digit s"
  shows "scan_number (ws @ show_nat n @ s) = (Some (False, n), s)"
proof -
  obtain c cs where c: "show_nat n = c # cs" using show_nat_ne by (cases "show_nat n") auto
  have dig: "\<forall>x \<in> set (c # cs). is_digit x" using show_nat_digits [of n] c by simp
  have "skip_ws (ws @ show_nat n @ s) = c # cs @ s"
    using dig digit_not_space [of c] by (simp add: skip_ws_spaces [OF assms(1)] c skip_ws_ink)
  moreover have "scan_sign (c # cs @ s) = (False, c # cs @ s)"
    using dig digit_not_space [of c] by (simp add: scan_sign_def)
  moreover have "takeWhile is_digit (c # cs @ s) = c # cs" "dropWhile is_digit (c # cs @ s) = s"
    using dig assms(2) by (auto simp: takeWhile_append no_digit_def split: list.splits)
  ultimately show ?thesis
    using digits_val_show [of n] c by (simp add: scan_number_def Let_def)
qed

lemma scan_u_show:
  assumes "spaces ws" "no_digit s"
  shows "scan_u (ws @ show_nat (unat w) @ s) = (Some w, s)"
proof -
  have "unat w < 2 ^ 32" using unsigned_less [of w] by simp
  then have "unat w < 2 ^ 64" by simp
  then show ?thesis using scan_number_show [OF assms, of "unat w"] by (simp add: scan_u_def ulong_of_def)
qed

lemma scan_d_show:
  assumes "spaces ws" "no_digit s"
  shows "scan_d (ws @ show_nat (unat w) @ s) = (Some (int_of_u32 w), s)"
proof -
  have "uint w < 4294967296" using uint_lt2p [of w] by simp
  then have "int (unat w) \<le> 2 ^ 63 - 1" by simp
  then show ?thesis
    using scan_number_show [OF assms, of "unat w"]
    by (simp add: scan_d_def long_of_def int_of_u32_def)
qed

lemma scan_s_word:
  assumes "spaces ws" "tok \<noteq> []" "\<forall>c \<in> set tok. \<not> is_space c" "s = [] \<or> is_space (hd s)"
  shows "scan_s (ws @ tok @ s) = (Some tok, s)"
proof -
  obtain c cs where c: "tok = c # cs" using assms(2) by (cases tok) auto
  have "skip_ws (ws @ tok @ s) = tok @ s"
    using assms(3) by (simp add: skip_ws_spaces [OF assms(1)] c skip_ws_ink)
  moreover have "takeWhile (\<lambda>c. \<not> is_space c) (tok @ s) = tok"
    using assms(3,4) by (cases s) (auto simp: takeWhile_append)
  ultimately show ?thesis using assms(2) by (simp add: scan_s_def Let_def)
qed

lemma skip_ws_twice [simp]: "skip_ws (skip_ws s) = skip_ws s"
  by (induction s) (simp_all add: skip_ws_def)

lemma scan_s_skip: "scan_s (skip_ws s) = scan_s s"
  by (simp add: scan_s_def)

lemma length_show_nat: "n < 10 ^ Suc k \<Longrightarrow> length (show_nat n) \<le> Suc k"
proof (induction k arbitrary: n)
  case 0
  then show ?case by (subst show_nat.simps) simp
next
  case (Suc k)
  show ?case
  proof (cases "n < 10")
    case True
    then show ?thesis by (subst show_nat.simps) simp
  next
    case False
    have "n div 10 < 10 ^ Suc k" using Suc.prems by (intro less_mult_imp_div_less) (simp add: mult.commute)
    from Suc.IH [OF this] False show ?thesis by (subst show_nat.simps) simp
  qed
qed

lemma length_show_u32: "length (show_nat (unat (w :: u32))) \<le> 10"
proof -
  have "unat w < 2 ^ 32" using unsigned_less [of w] by simp
  then have "unat w < 10 ^ Suc 9" by simp
  from length_show_nat [OF this] show ?thesis by simp
qed

lemma fgets_line:
  assumes "length l < n" "CHR 0x0A \<notin> set l"
  shows "fgets n (l @ CHR 0x0A # s) = (l @ [CHR 0x0A], s)"
  using assms
proof (induction l arbitrary: n)
  case Nil
  then show ?case by (cases n) simp_all
next
  case (Cons c cs)
  then show ?case by (cases n) auto
qed

end
