(* ===== verification/Loader.thy ===== *)
theory Loader
  imports Scan Vmspace
begin

text \<open>
  Process images, \<open>src/loader.c\<close> with the instruction and process structures of
  \<open>include/common.h\<close>. The file system is a parameter: a path has a content or cannot be opened.
  What \<open>malloc\<close> leaves in the process block, the code block and the instruction array are
  arguments. The opcode buffer and the line buffer are not initialised (\<open>None\<close>) and keep their
  content from one instruction to the next.
\<close>

section \<open>Structures\<close>

datatype ins_opcode_t = CALC | ALLOC | FREE | READ | WRITE | SYSCALL

record inst_t =
  opcode :: ins_opcode_t
  arg_0 :: u32
  arg_1 :: u32
  arg_2 :: u32
  arg_3 :: u32

text \<open>
  \<open>struct pcb_t\<close> with its code segment. \<open>p_mm\<close> is \<open>None\<close> until \<open>ld_routine\<close> sets the memory
  descriptor and the devices; \<open>linked\<close> says that \<open>put_proc\<close> or \<open>add_proc\<close> stored the pointers to
  the scheduler's queues.
\<close>

record pcb_t =
  p_pid :: u32
  priority :: u32
  path :: string
  code_text :: "inst_t carray"
  code_size :: u32
  regs :: "u32 carray"
  pc :: u32
  prio :: u32
  bp :: u32
  p_mm :: "mm_struct option"
  linked :: bool

section \<open>Loading\<close>

definition get_opcode :: "string \<Rightarrow> ins_opcode_t res" where
  "get_opcode opt =
    (if opt = ''calc'' then Inr CALC
     else if opt = ''alloc'' then Inr ALLOC
     else if opt = ''free'' then Inr FREE
     else if opt = ''read'' then Inr READ
     else if opt = ''write'' then Inr WRITE
     else if opt = ''syscall'' then Inr SYSCALL
     else Inl (ProcExit 1))"

text \<open>Assigning the values a \<open>scanf\<close> matched to the first arguments of an instruction.\<close>

fun set_args :: "inst_t \<Rightarrow> u32 list \<Rightarrow> inst_t" where
  "set_args ins [] = ins"
| "set_args ins [a] = ins\<lparr>arg_0 := a\<rparr>"
| "set_args ins [a, b] = ins\<lparr>arg_0 := a, arg_1 := b\<rparr>"
| "set_args ins [a, b, c] = ins\<lparr>arg_0 := a, arg_1 := b, arg_2 := c\<rparr>"
| "set_args ins (a # b # c # d # _) = ins\<lparr>arg_0 := a, arg_1 := b, arg_2 := c, arg_3 := d\<rparr>"

type_synonym load_state = "string \<times> string option \<times> string option \<times> inst_t carray"

definition load_inst :: "int \<Rightarrow> load_state \<Rightarrow> load_state res" where
  "load_inst i st = (case st of (file, opc, buf, text) \<Rightarrow>
    let (tok, file) = scan_s file in
    bindr (case tok of
             None \<Rightarrow> (case opc of None \<Rightarrow> Inl UninitRead | Some s \<Rightarrow> Inr s)
           | Some s \<Rightarrow> if length s < 10 then Inr s else Inl OutOfBounds) (\<lambda>opc.
    bindr (get_opcode opc) (\<lambda>op.
    bindr (aget text i) (\<lambda>ins.
      let ins = ins\<lparr>opcode := op\<rparr> in
    bindr (case op of
        CALC \<Rightarrow> Inr (ins, file, buf)
      | ALLOC \<Rightarrow> (case scan_line scan_u 2 file of (xs, file) \<Rightarrow> Inr (set_args ins xs, file, buf))
      | FREE \<Rightarrow> (case scan_line scan_u 1 file of (xs, file) \<Rightarrow> Inr (set_args ins xs, file, buf))
      | READ \<Rightarrow> (case scan_line scan_u 3 file of (xs, file) \<Rightarrow> Inr (set_args ins xs, file, buf))
      | WRITE \<Rightarrow> (case scan_line scan_u 3 file of (xs, file) \<Rightarrow> Inr (set_args ins xs, file, buf))
      | SYSCALL \<Rightarrow>
          (case fgets 199 file of (l, file) \<Rightarrow>
           let buf = (if l = [] then buf else Some l) in
           case buf of
             None \<Rightarrow> Inl UninitRead
           | Some b \<Rightarrow> Inr (set_args ins (map u32_of_int (fst (scan_list scan_d 4 b))), file, buf)))
      (\<lambda>(ins, file, buf).
    bindr (aset text i ins) (\<lambda>text.
    Inr (file, Some opc, buf, text)))))))"

text \<open>
  \<open>load\<close> takes the next process number and returns it advanced. \<open>sizeof (path)\<close> in the
  \<open>snprintf\<close> is the size of a pointer: at most 16 characters of the path are kept.
\<close>

definition load ::
    "(string \<Rightarrow> string option) \<Rightarrow> pcb_t \<Rightarrow> (nat \<Rightarrow> inst_t) \<Rightarrow> string \<Rightarrow> u32 \<Rightarrow> (pcb_t \<times> u32) res" where
  "load fs raw raw_text pth avail_pid =
    (let proc = raw\<lparr>p_pid := avail_pid, bp := 1024, pc := 0\<rparr> in
     case fs pth of
       None \<Rightarrow> Inl (ProcExit 1)
     | Some file \<Rightarrow>
         (let proc = proc\<lparr>path := take 16 pth\<rparr>;
              (hdr, file) = scan_list scan_u 2 file;
              proc = (case hdr of
                  [] \<Rightarrow> proc
                | [a] \<Rightarrow> proc\<lparr>priority := a\<rparr>
                | a # b # _ \<Rightarrow> proc\<lparr>priority := a, code_size := b\<rparr>);
              n = code_size proc
          in bindr (for_loop 0 (uint n) load_inst (file, None, None, CArray (unat n) raw_text))
               (\<lambda>(_, _, _, text). Inr (proc\<lparr>code_text := text\<rparr>, avail_pid + 1))))"

section \<open>The text of a program\<close>

text \<open>The format of the files under \<open>input/proc\<close>: a header and one line per instruction.\<close>

definition nl :: string where
  "nl = [CHR 0x0A]"

definition op_name :: "ins_opcode_t \<Rightarrow> string" where
  "op_name op = (case op of CALC \<Rightarrow> ''calc'' | ALLOC \<Rightarrow> ''alloc'' | FREE \<Rightarrow> ''free''
    | READ \<Rightarrow> ''read'' | WRITE \<Rightarrow> ''write'' | SYSCALL \<Rightarrow> ''syscall'')"

definition op_args :: "inst_t \<Rightarrow> u32 list" where
  "op_args ins = (case opcode ins of
      CALC \<Rightarrow> [] | ALLOC \<Rightarrow> [arg_0 ins, arg_1 ins] | FREE \<Rightarrow> [arg_0 ins]
    | READ \<Rightarrow> [arg_0 ins, arg_1 ins, arg_2 ins] | WRITE \<Rightarrow> [arg_0 ins, arg_1 ins, arg_2 ins]
    | SYSCALL \<Rightarrow> [arg_0 ins, arg_1 ins, arg_2 ins, arg_3 ins])"

fun show_args :: "u32 list \<Rightarrow> string" where
  "show_args [] = []"
| "show_args (w # ws) = '' '' @ show_nat (unat w) @ show_args ws"

definition show_inst :: "inst_t \<Rightarrow> string" where
  "show_inst ins = op_name (opcode ins) @ show_args (op_args ins) @ nl"

definition program_text :: "u32 \<Rightarrow> inst_t list \<Rightarrow> string" where
  "program_text pr insts =
    show_nat (unat pr) @ '' '' @ show_nat (length insts) @ nl @ concat (map show_inst insts)"

text \<open>Two instructions the CPU cannot tell apart.\<close>

definition same_inst :: "inst_t \<Rightarrow> inst_t \<Rightarrow> bool" where
  "same_inst i j \<longleftrightarrow> opcode i = opcode j \<and> op_args i = op_args j"

section \<open>Reading back\<close>

lemma spaces_simps [simp]: "spaces []" "spaces '' ''" "spaces nl"
  by (simp_all add: spaces_def nl_def is_space_def)

lemma nl_ne: "nl \<noteq> []"
  by (simp add: nl_def)

lemma no_digit_simps [simp]: "no_digit ('' '' @ s)" "no_digit (nl @ s)"
  by (simp_all add: no_digit_def nl_def is_digit_def)

lemma no_digit_args [simp]: "no_digit (show_args xs @ nl @ s)"
  by (cases xs) (simp_all add: no_digit_def nl_def is_digit_def)

lemma scan_args:
  assumes "\<And>w s. no_digit s \<Longrightarrow> sc ('' '' @ show_nat (unat w) @ s) = (Some (f w), s)"
  shows "scan_list sc (length xs) (show_args xs @ nl @ s) = (map f xs, nl @ s)"
  using assms by (induction xs) simp_all

lemma scan_args_line:
  "scan_line scan_u (length xs) (show_args xs @ nl @ s) = (xs, skip_ws s)"
proof -
  have "scan_list scan_u (length xs) (show_args xs @ nl @ s) = (map id xs, nl @ s)"
    by (rule scan_args) (simp only: scan_u_show spaces_simps id_apply)
  then show ?thesis by (simp add: scan_line_def skip_ws_spaces)
qed

lemma scan_args_d:
  "scan_list scan_d (length xs) (show_args xs @ nl @ s) = (map int_of_u32 xs, nl @ s)"
  by (rule scan_args) (rule scan_d_show, simp_all)

lemma length_show_args: "length (show_args xs) \<le> 11 * length xs"
proof (induction xs)
  case (Cons w ws)
  then show ?case using length_show_u32 [of w] by simp
qed simp

lemma digit_not_nl: "\<not> is_digit (CHR 0x0A)"
  by (simp add: is_digit_def)

lemma show_args_one_line: "CHR 0x0A \<notin> set (show_args xs)"
proof (induction xs)
  case (Cons w ws)
  then show ?case using show_nat_digits [of "unat w"] digit_not_nl by auto
qed simp

lemma fgets_args:
  assumes "length xs \<le> 4"
  shows "fgets 199 (show_args xs @ nl @ s) = (show_args xs @ nl, s)"
proof -
  have "length (show_args xs) < 199" using length_show_args [of xs] assms by simp
  from fgets_line [OF this show_args_one_line] show ?thesis by (simp add: nl_def)
qed

lemma u32_of_int_of_u32 [simp]: "u32_of_int (int_of_u32 w) = w"
proof (rule bit_word_eqI)
  fix n assume "n < LENGTH(32)"
  then have "min n 31 = n" by simp
  with \<open>n < LENGTH(32)\<close> show "bit (u32_of_int (int_of_u32 w)) n = bit w n"
    by (simp add: u32_of_int_def int_of_u32_def i32_def bit_word_of_int_iff bit_signed_take_bit_iff
        bit_uint_iff min.commute)
qed

lemma op_name_word:
  "op_name op \<noteq> []" "\<forall>c \<in> set (op_name op). \<not> is_space c" "length (op_name op) < 10"
  "get_opcode (op_name op) = Inr op"
proof -
  show "op_name op \<noteq> []" "length (op_name op) < 10" by (cases op; simp add: op_name_def)+
  show "\<forall>c \<in> set (op_name op). \<not> is_space c" by (cases op) (simp_all add: op_name_def is_space_def)
  show "get_opcode (op_name op) = Inr op" by (cases op) (simp_all add: op_name_def get_opcode_def)
qed

lemma space_head_args: "is_space (hd (show_args xs @ nl @ s))"
  by (cases xs) (simp_all add: nl_def is_space_def)

lemma skip_ws_inst: "skip_ws (show_inst x @ s) = show_inst x @ s"
  using op_name_word(1,2) [of "opcode x"]
  by (cases "op_name (opcode x)") (auto simp: show_inst_def intro: skip_ws_ink)

lemma scan_s_inst:
  assumes "skip_ws file = show_inst x @ rest"
  shows "scan_s file = (Some (op_name (opcode x)), show_args (op_args x) @ nl @ rest)"
proof -
  have "scan_s file = scan_s (show_inst x @ rest)"
    using scan_s_skip [of "file"] assms by simp
  also have "\<dots> = scan_s ([] @ op_name (opcode x) @ show_args (op_args x) @ nl @ rest)"
    by (simp add: show_inst_def)
  also have "\<dots> = (Some (op_name (opcode x)), show_args (op_args x) @ nl @ rest)"
    by (rule scan_s_word) (use op_name_word [of "opcode x"] space_head_args in simp_all)
  finally show ?thesis .
qed

lemma same_inst_set_args: "same_inst (set_args (ins\<lparr>opcode := opcode x\<rparr>) (op_args x)) x"
  by (cases "opcode x") (simp_all add: same_inst_def op_args_def)

text \<open>One turn of the loop reads one line of the program text.\<close>

lemma load_inst_step:
  assumes fl: "skip_ws fl0 = show_inst x @ rest" and cell: "aget text i = Inr ins"
    and text': "\<And>v. aset text i v = Inr (text' v)"
  shows "\<exists>file' opc' buf' ins'.
    load_inst i (fl0, opc, buf, text) = Inr (file', opc', buf', text' ins') \<and>
    skip_ws file' = skip_ws rest \<and> same_inst ins' x"
proof -
  have line: "scan_line scan_u n (show_args (op_args x) @ nl @ rest) = (op_args x, skip_ws rest)"
    if "n = length (op_args x)" for n
    using that scan_args_line by simp
  have skip: "skip_ws (nl @ rest) = skip_ws rest" by (simp add: skip_ws_spaces)
  let ?ins = "set_args (ins\<lparr>opcode := opcode x\<rparr>) (op_args x)"
  have "\<exists>file' opc' buf'. load_inst i (fl0, opc, buf, text) = Inr (file', opc', buf', text' ?ins) \<and>
    skip_ws file' = skip_ws rest"
  proof (cases "opcode x")
    case CALC
    then have "op_args x = []" by (simp add: op_args_def)
    then show ?thesis using op_name_word [of CALC] skip
      by (simp add: load_inst_def scan_s_inst [OF fl] CALC cell text')
  next
    case ALLOC
    then have "length (op_args x) = 2" by (simp add: op_args_def)
    then show ?thesis using op_name_word [of ALLOC] line [of 2]
      by (simp add: load_inst_def scan_s_inst [OF fl] ALLOC cell text')
  next
    case FREE
    then have "length (op_args x) = 1" by (simp add: op_args_def)
    then show ?thesis using op_name_word [of FREE] line [of 1]
      by (simp add: load_inst_def scan_s_inst [OF fl] FREE cell text')
  next
    case READ
    then have "length (op_args x) = 3" by (simp add: op_args_def)
    then show ?thesis using op_name_word [of READ] line [of 3]
      by (simp add: load_inst_def scan_s_inst [OF fl] READ cell text')
  next
    case WRITE
    then have "length (op_args x) = 3" by (simp add: op_args_def)
    then show ?thesis using op_name_word [of WRITE] line [of 3]
      by (simp add: load_inst_def scan_s_inst [OF fl] WRITE cell text')
  next
    case SYSCALL
    then have len: "length (op_args x) = 4" by (simp add: op_args_def)
    then have "fgets 199 (show_args (op_args x) @ nl @ rest) = (show_args (op_args x) @ nl, rest)"
      by (intro fgets_args) simp
    moreover have "fst (scan_list scan_d 4 (show_args (op_args x) @ nl)) = map int_of_u32 (op_args x)"
      using scan_args_d [of "op_args x" "[]"] len by simp
    ultimately show ?thesis
      using op_name_word [of SYSCALL]
      by (simp add: load_inst_def scan_s_inst [OF fl] SYSCALL cell text' nl_ne o_def)
  qed
  then show ?thesis using same_inst_set_args by blast
qed

text \<open>The invariant of the loop: the first \<open>i\<close> instructions are stored, the rest is in the file.\<close>

definition loaded :: "inst_t list \<Rightarrow> int \<Rightarrow> load_state \<Rightarrow> bool" where
  "loaded insts i st = (case st of (file, opc, buf, text) \<Rightarrow>
    skip_ws file = skip_ws (concat (map show_inst (drop (nat i) insts))) \<and>
    alen text = length insts \<and> (\<forall>j < nat i. same_inst (acell text j) (insts ! j)))"

lemma load_loop:
  assumes "loaded insts 0 st"
  shows "\<exists>st'. for_loop 0 (int (length insts)) load_inst st = Inr st' \<and>
    loaded insts (int (length insts)) st'"
proof (rule for_loop_rule [where P = "loaded insts"])
  show "loaded insts 0 st" by (rule assms)
  fix i s assume i: "0 \<le> i" "i < int (length insts)" and inv: "loaded insts i s"
  obtain fl opc buf code where s: "s = (fl, opc, buf, code)" by (cases s) auto
  define x where "x = insts ! nat i"
  define rest where "rest = concat (map show_inst (drop (Suc (nat i)) insts))"
  have dr: "drop (nat i) insts = x # drop (Suc (nat i)) insts"
    using i by (simp add: x_def Cons_nth_drop_Suc)
  have fl: "skip_ws fl = show_inst x @ rest"
    using inv by (simp add: loaded_def s dr rest_def skip_ws_inst)
  have ib: "in_bounds code i" using inv i by (simp add: loaded_def s in_bounds_def)
  obtain fl' opc' buf' ins' where step:
    "load_inst i (fl, opc, buf, code) = Inr (fl', opc', buf', CArray (alen code) ((acell code)(nat i := ins')))"
    "skip_ws fl' = skip_ws rest" "same_inst ins' x"
    using load_inst_step [OF fl aget_in [OF ib] aset_in [OF ib]] by blast
  have "loaded insts (i + 1) (fl', opc', buf', CArray (alen code) ((acell code)(nat i := ins')))"
    using inv i step(2,3) by (auto simp: loaded_def s rest_def nat_add_distrib x_def less_Suc_eq)
  with step(1) s show "\<exists>s'. load_inst i s = Inr s' \<and> loaded insts (i + 1) s'" by blast
qed simp

section \<open>Properties\<close>

text \<open>
  Whatever the file holds, a loaded process starts at its first instruction, its code array has
  the size the header says, and its memory descriptor and queue pointers are not set.
\<close>

lemma load_inst_alen:
  assumes "load_inst i (fl0, opc, buf, text) = Inr (fl1, opc', buf', text')"
  shows "alen text' = alen text"
proof -
  obtain l r where "fgets 199 (snd (scan_s fl0)) = (l, r)" by (cases "fgets 199 (snd (scan_s fl0))")
  then show ?thesis
    using assms by (auto simp: load_inst_def Let_def bindr_eq_Inr_iff dest: alen_aset split: prod.splits)
qed

lemma load_result:
  assumes "load fs raw raw_text pth n = Inr (p, n')"
  shows "pc p = 0 \<and> alen (code_text p) = unat (code_size p) \<and> p_mm p = p_mm raw \<and> linked p = linked raw"
proof -
  obtain fl where fl: "fs pth = Some fl" using assms by (auto simp: load_def split: option.splits)
  have loop: "alen (snd (snd (snd st'))) = alen (snd (snd (snd st)))"
    if "for_loop 0 m load_inst st = Inr st'" "0 \<le> m" for m st st'
    by (rule for_loop_partial [OF that(1) _ that(2), where P = "\<lambda>_ u. alen (snd (snd (snd u))) = alen (snd (snd (snd st)))"])
      (use load_inst_alen in \<open>fastforce+\<close>)
  obtain hdr fl' where hdr: "scan_list scan_u 2 fl = (hdr, fl')" by (cases "scan_list scan_u 2 fl")
  define proc where "proc = (case hdr of
      [] \<Rightarrow> raw\<lparr>p_pid := n, bp := 1024, pc := 0, path := take 16 pth\<rparr>
    | [a] \<Rightarrow> raw\<lparr>p_pid := n, bp := 1024, pc := 0, path := take 16 pth, priority := a\<rparr>
    | a # b # _ \<Rightarrow> raw\<lparr>p_pid := n, bp := 1024, pc := 0, path := take 16 pth, priority := a, code_size := b\<rparr>)"
  have proc: "pc proc = 0" "p_mm proc = p_mm raw" "linked proc = linked raw"
    by (simp_all add: proc_def split: list.splits)
  obtain f o1 b code where "for_loop 0 (uint (code_size proc)) load_inst
      (fl', None, None, CArray (unat (code_size proc)) raw_text) = Inr (f, o1, b, code)" "p = proc\<lparr>code_text := code\<rparr>"
    using assms fl hdr by (auto simp: load_def Let_def bindr_eq_Inr_iff proc_def split: list.splits)
  then show ?thesis using loop [of "uint (code_size proc)"] proc by force
qed

lemma load_text:
  assumes "fs pth = Some (program_text pr insts)" and "length insts < 2 ^ 32"
  shows "\<exists>p. load fs raw raw_text pth n = Inr (p, n + 1) \<and> p_pid p = n \<and> pc p = 0 \<and>
    priority p = pr \<and> unat (code_size p) = length insts \<and> alen (code_text p) = length insts \<and>
    (\<forall>j < length insts. same_inst (acell (code_text p) j) (insts ! j))"
proof -
  define sz where "sz = (of_nat (length insts) :: u32)"
  define body where "body = concat (map show_inst insts)"
  have sz: "unat sz = length insts"
    using assms(2) by (simp add: sz_def unsigned_of_nat take_bit_nat_eq_self)
  have "scan_u (program_text pr insts) = (Some pr, '' '' @ show_nat (unat sz) @ nl @ body)"
    using scan_u_show [of "[]" "'' '' @ show_nat (unat sz) @ nl @ body" pr]
    by (simp only: program_text_def append_Nil spaces_simps no_digit_simps sz body_def append_assoc)
  moreover have "scan_u ('' '' @ show_nat (unat sz) @ nl @ body) = (Some sz, nl @ body)"
    by (rule scan_u_show) (simp_all only: spaces_simps no_digit_simps)
  ultimately have hdr: "scan_list scan_u 2 (program_text pr insts) = ([pr, sz], nl @ body)"
    by (simp only: numeral_2_eq_2 scan_list.simps prod.case option.case)
  have "loaded insts 0 (nl @ body, None, None, CArray (length insts) raw_text)"
    by (simp add: loaded_def body_def skip_ws_spaces)
  from load_loop [OF this] obtain fl opc buf code where loop:
    "for_loop 0 (int (length insts)) load_inst (nl @ body, None, None, CArray (length insts) raw_text)
       = Inr (fl, opc, buf, code)"
    "loaded insts (int (length insts)) (fl, opc, buf, code)"
    by (metis prod_cases4)
  have usz: "uint sz = int (length insts)" using sz by (simp add: uint_nat)
  define p where "p = raw\<lparr>p_pid := n, bp := 1024, pc := 0, path := take 16 pth, priority := pr,
    code_size := sz, code_text := code\<rparr>"
  have "load fs raw raw_text pth n = Inr (p, n + 1)"
    unfolding load_def assms(1) option.case hdr Let_def prod.case list.case p_def
    by (simp add: sz usz loop(1))
  moreover have "p_pid p = n \<and> pc p = 0 \<and> priority p = pr \<and> code_size p = sz \<and> code_text p = code"
    by (simp add: p_def)
  ultimately show ?thesis using loop(2) sz by (auto simp: loaded_def)
qed

text \<open>
  C26: \<open>load\<close> is the inverse of writing a program down. If the file at the path holds the text of a
  priority and a list of instructions (fewer than \<open>2 ^ 32\<close>), \<open>load\<close> returns a process with that
  priority, that code size and those instructions, whatever the heap memory it got held, at the
  program counter 0, under the next process number.
\<close>

theorem load_program:
  assumes "fs pth = Some (program_text pr insts)" and "length insts < 2 ^ 32"
  shows "\<exists>p. load fs raw raw_text pth n = Inr (p, n + 1) \<and> p_pid p = n \<and> pc p = 0 \<and>
    priority p = pr \<and> unat (code_size p) = length insts \<and> alen (code_text p) = length insts \<and>
    (\<forall>j < length insts. same_inst (acell (code_text p) j) (insts ! j))"
  using load_text [of fs, OF assms] .

text \<open>\<open>input/proc/s1\<close>-like text: one allocation, one write, one system call.\<close>

definition blank_inst :: inst_t where
  "blank_inst = \<lparr>opcode = FREE, arg_0 = 0, arg_1 = 0, arg_2 = 0, arg_3 = 0\<rparr>"

definition blank_pcb :: pcb_t where
  "blank_pcb = \<lparr>p_pid = 0, priority = 0, path = [], code_text = CArray 0 (\<lambda>_. blank_inst),
    code_size = 0, regs = CArray 10 (\<lambda>_. 0), pc = 0, prio = 0, bp = 0, p_mm = None, linked = False\<rparr>"

definition sample_insts :: "inst_t list" where
  "sample_insts = [blank_inst\<lparr>opcode := ALLOC, arg_0 := 300, arg_1 := 4\<rparr>,
     blank_inst\<lparr>opcode := WRITE, arg_0 := 100, arg_1 := 1, arg_2 := 20\<rparr>,
     blank_inst\<lparr>opcode := SYSCALL, arg_0 := 101, arg_1 := 1\<rparr>]"

theorem load_program_witness:
  "\<exists>p. load (\<lambda>_. Some (program_text 3 sample_insts)) blank_pcb (\<lambda>_. blank_inst) ''s1'' 7
      = Inr (p, 8) \<and> priority p = 3 \<and> unat (code_size p) = 3 \<and>
    same_inst (acell (code_text p) 2) (sample_insts ! 2)"
proof -
  have len: "length sample_insts = 3" by (simp add: sample_insts_def)
  show ?thesis
    using load_program [of "\<lambda>_. Some (program_text 3 sample_insts)" "''s1''" 3 sample_insts blank_pcb
        "\<lambda>_. blank_inst" 7] len
    by auto
qed

end
