(* ===== verification/Kernel.thy ===== *)
theory Kernel
  imports Libcalls Sched Loader
begin

text \<open>
  The shared state of the simulator: the process blocks \<open>load\<close> allocates, the scheduler, the two
  memory devices every process points to, standard output and the counter of process numbers. A
  process is named by the address of its block (a number here); a block that was freed is
  \<open>None\<close>, and reaching it is the fault \<open>UseAfterFree\<close>. The operations of the memory library work
  on the view \<open>caller\<close> of one process; \<open>as_caller\<close> builds that view and stores the result.
\<close>

section \<open>State\<close>

record kernel =
  procs :: "nat \<Rightarrow> pcb_t option"
  next_block :: nat
  ksched :: "nat sched"
  ram :: memphy_struct
  swp :: memphy_struct
  kout :: log
  avail_pid :: u32

definition pcb_at :: "kernel \<Rightarrow> nat \<Rightarrow> pcb_t res" where
  "pcb_at k p = (case procs k p of None \<Rightarrow> Inl UseAfterFree | Some x \<Rightarrow> Inr x)"

definition prio_at :: "kernel \<Rightarrow> nat \<Rightarrow> u32 res" where
  "prio_at k p = bindr (pcb_at k p) (\<lambda>x. Inr (prio x))"

definition set_pcb :: "nat \<Rightarrow> pcb_t \<Rightarrow> kernel \<Rightarrow> kernel" where
  "set_pcb p x k = k\<lparr>procs := (procs k)(p := Some x)\<rparr>"

definition kprint :: "fmt \<Rightarrow> arg list \<Rightarrow> kernel \<Rightarrow> kernel" where
  "kprint f as k = k\<lparr>kout := kout k @ [Line f as]\<rparr>"

section \<open>Running a library function for a process\<close>

definition caller_of :: "pcb_t \<Rightarrow> mm_struct \<Rightarrow> kernel \<Rightarrow> caller" where
  "caller_of x M k = \<lparr>pid = p_pid x, mm = M, mram = Some (ram k), active_mswp = Some (swp k),
    stdout = kout k\<rparr>"

definition dev_of :: "memphy_struct \<Rightarrow> memphy_ptr \<Rightarrow> memphy_struct" where
  "dev_of d p = (case p of None \<Rightarrow> d | Some m \<Rightarrow> m)"

definition store_caller :: "nat \<Rightarrow> pcb_t \<Rightarrow> caller \<Rightarrow> kernel \<Rightarrow> kernel" where
  "store_caller p x c k =
    k\<lparr>procs := (procs k)(p := Some (x\<lparr>p_mm := Some (mm c)\<rparr>)),
      ram := dev_of (ram k) (mram c), swp := dev_of (swp k) (active_mswp c), kout := stdout c\<rparr>"

definition as_caller :: "kernel \<Rightarrow> nat \<Rightarrow> (caller \<Rightarrow> ('a \<times> caller) res) \<Rightarrow> ('a \<times> kernel) res" where
  "as_caller k p f =
    bindr (pcb_at k p) (\<lambda>x.
    case p_mm x of
      None \<Rightarrow> Inl WildDeref
    | Some M \<Rightarrow> bindr (f (caller_of x M k)) (\<lambda>(r, c). Inr (r, store_caller p x c k)))"

named_theorems kernel_simps "field access after the elementary updates of the kernel state"

lemma pcb_at_Inr [simp]: "pcb_at k p = Inr x \<longleftrightarrow> procs k p = Some x"
  by (simp add: pcb_at_def split: option.splits)

lemma prio_at_Inr: "prio_at k p = Inr w \<longleftrightarrow> (\<exists>x. procs k p = Some x \<and> prio x = w)"
  by (simp add: prio_at_def bindr_eq_Inr_iff)

lemma set_pcb_simps [kernel_simps]:
  "procs (set_pcb p x k) = (procs k)(p := Some x)" "next_block (set_pcb p x k) = next_block k"
  "ksched (set_pcb p x k) = ksched k" "ram (set_pcb p x k) = ram k" "swp (set_pcb p x k) = swp k"
  "kout (set_pcb p x k) = kout k" "avail_pid (set_pcb p x k) = avail_pid k"
  by (simp_all add: set_pcb_def)

lemma kprint_simps [kernel_simps]:
  "procs (kprint f as k) = procs k" "next_block (kprint f as k) = next_block k"
  "ksched (kprint f as k) = ksched k" "ram (kprint f as k) = ram k" "swp (kprint f as k) = swp k"
  "avail_pid (kprint f as k) = avail_pid k"
  by (simp_all add: kprint_def)

lemma store_caller_simps [kernel_simps]:
  "procs (store_caller p x c k) = (procs k)(p := Some (x\<lparr>p_mm := Some (mm c)\<rparr>))"
  "next_block (store_caller p x c k) = next_block k" "ksched (store_caller p x c k) = ksched k"
  "ram (store_caller p x c k) = dev_of (ram k) (mram c)"
  "swp (store_caller p x c k) = dev_of (swp k) (active_mswp c)"
  "kout (store_caller p x c k) = stdout c" "avail_pid (store_caller p x c k) = avail_pid k"
  by (simp_all add: store_caller_def)

lemma caller_of_simps [kernel_simps]:
  "pid (caller_of x M k) = p_pid x" "mm (caller_of x M k) = M" "mram (caller_of x M k) = Some (ram k)"
  "active_mswp (caller_of x M k) = Some (swp k)" "stdout (caller_of x M k) = kout k"
  by (simp_all add: caller_of_def)

lemma dev_of_simps [simp]: "dev_of d None = d" "dev_of d (Some m) = m"
  by (simp_all add: dev_of_def)

lemma as_caller_Inr_iff:
  "as_caller k p f = Inr (r, k') \<longleftrightarrow>
    (\<exists>x M c. procs k p = Some x \<and> p_mm x = Some M \<and> f (caller_of x M k) = Inr (r, c) \<and>
      k' = store_caller p x c k)"
  by (auto simp: as_caller_def bindr_eq_Inr_iff split: option.splits)

text \<open>
  What a library call cannot touch: other processes, the scheduler, the counters; of its own
  process block it changes the memory descriptor alone.
\<close>

definition same_but :: "nat \<Rightarrow> kernel \<Rightarrow> kernel \<Rightarrow> bool" where
  "same_but p k k' \<longleftrightarrow>
    (\<forall>q. q \<noteq> p \<longrightarrow> procs k' q = procs k q) \<and> ksched k' = ksched k \<and>
    next_block k' = next_block k \<and> avail_pid k' = avail_pid k"

lemma same_but_refl [simp]: "same_but p k k"
  by (simp add: same_but_def)

lemma same_but_trans: "same_but p k k' \<Longrightarrow> same_but p k' k'' \<Longrightarrow> same_but p k k''"
  by (simp add: same_but_def)

lemma as_caller_same_but: "as_caller k p f = Inr (r, k') \<Longrightarrow> same_but p k k'"
  by (auto simp: as_caller_Inr_iff same_but_def kernel_simps)

lemma as_caller_block:
  assumes "as_caller k p f = Inr (r, k')"
  obtains x M where "procs k p = Some x" "procs k' p = Some (x\<lparr>p_mm := Some M\<rparr>)"
  using assms by (auto simp: as_caller_Inr_iff kernel_simps)

section \<open>Who owns which memory\<close>

text \<open>
  The invariant of the memory of all processes together: every process has a well-formed heap
  and resident pages, and the frames of the processes and the free frames of RAM are pairwise
  different frames of the device.
\<close>

definition holds :: "kernel \<Rightarrow> nat \<Rightarrow> mm_struct \<Rightarrow> bool" where
  "holds k p M \<longleftrightarrow> (\<exists>x. procs k p = Some x \<and> p_mm x = Some M)"

definition others_of :: "kernel \<Rightarrow> nat \<Rightarrow> int set" where
  "others_of k p = (\<Union>{set (frame_list N) | q N. q \<noteq> p \<and> holds k q N})"

definition good_frame :: "memphy_ptr \<Rightarrow> int \<Rightarrow> bool" where
  "good_frame mp f \<longleftrightarrow> 0 \<le> f \<and> f < 8192 \<and> page_addrs f \<subseteq> phy_addrs mp"

definition memory_ok :: "memphy_struct \<Rightarrow> mm_struct \<Rightarrow> bool" where
  "memory_ok r M \<longleftrightarrow> heap_inv M \<and> (\<forall>pg. 0 \<le> pg \<and> pg < npages M \<longrightarrow> resident M pg) \<and>
    distinct (frame_list M) \<and> (\<forall>f \<in> set (frame_list M). good_frame (Some r) f) \<and>
    set (frame_list M) \<inter> set (frames (Some r)) = {}"

definition kernel_ok :: "kernel \<Rightarrow> bool" where
  "kernel_ok k \<longleftrightarrow> dev_ok (Some (ram k)) \<and> frames_ok (Some (ram k)) \<and>
    distinct (frames (Some (ram k))) \<and> (\<forall>f \<in> set (frames (Some (ram k))). good_frame (Some (ram k)) f) \<and>
    (\<forall>p M. holds k p M \<longrightarrow> memory_ok (ram k) M) \<and>
    (\<forall>p q M N. p \<noteq> q \<and> holds k p M \<and> holds k q N \<longrightarrow> set (frame_list M) \<inter> set (frame_list N) = {})"

lemma holds_iff: "procs k p = Some x \<Longrightarrow> holds k p M \<longleftrightarrow> p_mm x = Some M"
  by (simp add: holds_def)

lemma holds_kprint [simp]: "holds (kprint f as k) = holds k"
  by (simp add: holds_def kernel_simps fun_eq_iff)

lemma kernel_ok_kprint [simp]: "kernel_ok (kprint f as k) = kernel_ok k"
  by (simp add: kernel_ok_def kernel_simps)

lemma kernel_ok_view:
  assumes "kernel_ok k" "holds k p M"
  shows "proc_ok (others_of k p) (caller_of x M k)"
proof -
  have M: "memory_ok (ram k) M" using assms by (auto simp: kernel_ok_def)
  have "set (frame_list M) \<inter> set (frame_list N) = {}" if "q \<noteq> p" "holds k q N" for q N
    using assms that unfolding kernel_ok_def by blast
  then have "set (frame_list M) \<inter> others_of k p = {}" unfolding others_of_def by blast
  moreover have "set (frames (Some (ram k))) \<inter> others_of k p = {}"
    using assms(1) by (fastforce simp: kernel_ok_def others_of_def memory_ok_def)
  ultimately show ?thesis
    using M assms(1)
    by (auto simp: proc_ok_def frame_inv_def kernel_simps memory_ok_def kernel_ok_def good_frame_def)
qed

text \<open>The call of one process keeps the invariant when it keeps its own view of it.\<close>

lemma kernel_ok_store:
  assumes ok: "kernel_ok k" and p: "holds k p M"
    and keep: "keeps (others_of k p) (caller_of x' M k) c"
  shows "kernel_ok (store_caller p x c k)"
proof -
  let ?k = "store_caller p x c k"
  have inv: "heap_inv (mm c)" "frame_inv (others_of k p) c" "phy_addrs (mram c) = phy_addrs (Some (ram k))"
    using keep by (simp_all add: keeps_def proc_ok_def kernel_simps)
  have dev: "mram c = Some (ram ?k)"
    using inv(2) by (auto simp: frame_inv_def kernel_simps elim!: dev_okE)
  have other: "holds ?k q N \<longleftrightarrow> (if q = p then N = mm c else holds k q N)" for q N
    by (auto simp: holds_def kernel_simps)
  have mine: "memory_ok (ram ?k) (mm c)"
    using inv dev by (auto simp: memory_ok_def frame_inv_def good_frame_def)
  have theirs: "memory_ok (ram ?k) N" and apart: "set (frame_list N) \<inter> set (frame_list (mm c)) = {}"
    if "q \<noteq> p" "holds k q N" for q N
  proof -
    have N: "memory_ok (ram k) N" using ok that(2) by (auto simp: kernel_ok_def)
    have "set (frame_list N) \<subseteq> others_of k p" using that by (auto simp: others_of_def)
    then have "set (frame_list N) \<inter> set (frame_list (mm c) @ frames (mram c)) = {}"
      using inv(2) by (auto simp: frame_inv_def)
    then show "set (frame_list N) \<inter> set (frame_list (mm c)) = {}" by auto
    show "memory_ok (ram ?k) N"
      using N \<open>set (frame_list N) \<inter> set (frame_list (mm c) @ frames (mram c)) = {}\<close> inv(3) dev
      by (auto simp: memory_ok_def good_frame_def)
  qed
  have "set (frame_list N) \<inter> set (frame_list N') = {}"
    if "q \<noteq> q'" "holds ?k q N" "holds ?k q' N'" for q q' N N'
    using that apart [of q N] apart [of q' N'] ok unfolding other kernel_ok_def
    by (auto split: if_splits)
  moreover have "memory_ok (ram ?k) N" if "holds ?k q N" for q N
    using that mine theirs [of q N] unfolding other by (auto split: if_splits)
  moreover have "dev_ok (Some (ram ?k)) \<and> frames_ok (Some (ram ?k)) \<and> distinct (frames (Some (ram ?k))) \<and>
      (\<forall>f \<in> set (frames (Some (ram ?k))). good_frame (Some (ram ?k)) f)"
    using inv(2) unfolding frame_inv_def dev good_frame_def by auto
  ultimately show ?thesis unfolding kernel_ok_def by blast
qed

text \<open>Freeing the block of a process, and anything that leaves blocks and RAM alone.\<close>

definition free_pcb :: "nat \<Rightarrow> kernel \<Rightarrow> kernel res" where
  "free_pcb p k = bindr (pcb_at k p) (\<lambda>_. Inr (k\<lparr>procs := (procs k)(p := None)\<rparr>))"

lemma kernel_ok_mono:
  assumes "kernel_ok k" "ram k' = ram k" "\<And>p M. holds k' p M \<Longrightarrow> holds k p M"
  shows "kernel_ok k'"
  using assms unfolding kernel_ok_def by metis

lemma kernel_ok_drop: "kernel_ok k \<Longrightarrow> kernel_ok (k\<lparr>procs := (procs k)(p := None)\<rparr>)"
  by (rule kernel_ok_mono) (auto simp: holds_def split: if_splits)

lemma kernel_ok_sched [simp]: "kernel_ok (k\<lparr>ksched := s\<rparr>) = kernel_ok k"
  by (simp add: kernel_ok_def holds_def)

end
