(* ===== verification/Syscalls.thy ===== *)
theory Syscalls
  imports Kernel
begin

text \<open>
  System calls: \<open>src/syscall.c\<close> with the table \<open>src/syscalltbl.lst\<close>, \<open>src/libstd.c\<close>, and the
  handlers \<open>src/sys_listsyscall.c\<close>, \<open>src/sys_xxxhandler.c\<close> and \<open>src/sys_killall.c\<close>
  (\<open>src/sys_mem.c\<close> has its own theory).
\<close>

section \<open>The simple handlers\<close>

text \<open>The strings \<open>#nr "-" #sym\<close> that the preprocessor builds from the table.\<close>

definition sys_call_table :: "string list" where
  "sys_call_table = [''0-sys_listsyscall'', ''17-sys_memmap'', ''101-sys_killall'',
    ''440-sys_xxxhandler'']"

definition syscall_table_size :: int where
  "syscall_table_size = int (length sys_call_table)"

definition sys_ni_syscall :: "kernel \<Rightarrow> nat \<Rightarrow> sc_regs \<Rightarrow> (int \<times> kernel) res" where
  "sys_ni_syscall k p rs = Inr (0, k)"

definition sys_listsyscall :: "kernel \<Rightarrow> nat \<Rightarrow> sc_regs \<Rightarrow> (int \<times> kernel) res" where
  "sys_listsyscall k p rs =
    bindr (for_loop 0 syscall_table_size (\<lambda>i k.
      bindr (aget (array_of sys_call_table) i) (\<lambda>s. Inr (kprint F_sysname [AS s] k))) k)
    (\<lambda>k. Inr (0, k))"

definition sys_xxxhandler :: "kernel \<Rightarrow> nat \<Rightarrow> sc_regs \<Rightarrow> (int \<times> kernel) res" where
  "sys_xxxhandler k p rs = Inr (0, kprint F_xxx [AU (a1 rs)] k)"

section \<open>killall\<close>

definition remove_from_queue :: "'p queue_t \<Rightarrow> int \<Rightarrow> 'p queue_t res" where
  "remove_from_queue q idx =
    bindr (for_loop idx (qsize q - 1) (\<lambda>i a. bindr (aget a (i + 1)) (aset a i)) (proc q)) (\<lambda>a.
    bindr (aset a (qsize q - 1) None) (\<lambda>a.
    Inr (q\<lparr>proc := a, qsize := qsize q - 1\<rparr>)))"

text \<open>
  The loop that collects the name. \<open>cs\<close> is what it has stored in \<open>proc_name\<close>, so \<open>i\<close> is its
  length; the array has 100 cells.
\<close>

function name_loop :: "nat \<Rightarrow> u32 \<Rightarrow> u32 \<Rightarrow> BYTE list \<Rightarrow> kernel \<Rightarrow> (BYTE list \<times> kernel) res" where
  "name_loop p memrg data cs k =
    (if data = -1 then Inr (cs, k)
     else
       bindr (as_caller k p (\<lambda>c. bindr (libread c memrg (u32_of_int (int (length cs))))
                (\<lambda>(val, dst, c). Inr (dst, c)))) (\<lambda>(dst, k).
         let data = (case dst of None \<Rightarrow> data | Some d \<Rightarrow> d) in
         if 100 \<le> length cs then Inl OutOfBounds
         else
           (let cs = cs @ [if data = -1 then 0 else byte_of_u32 data] in
            bindr (pcb_at k p) (\<lambda>x.
            if code_size x < u32_of_int (int (length cs)) then
              (if 100 \<le> length cs then Inl OutOfBounds else Inr (cs @ [0], k))
            else name_loop p memrg data cs k))))"
  by pat_completeness auto
termination
  by (relation "measure (\<lambda>(p, memrg, data, cs, k). 101 - length cs)") auto

declare name_loop.simps [simp del]

text \<open>The C string at the start of a buffer.\<close>

definition c_string :: "BYTE list \<Rightarrow> string" where
  "c_string cs = map (\<lambda>b. char_of (unat b)) (takeWhile (\<lambda>b. b \<noteq> 0) cs)"

text \<open>\<open>sprintf (name, "P%d", p->pid)\<close>.\<close>

definition show_int :: "int \<Rightarrow> string" where
  "show_int n = (if n < 0 then CHR ''-'' # show_nat (nat (- n)) else show_nat (nat n))"

definition kill_name :: "pcb_t \<Rightarrow> string" where
  "kill_name x = CHR ''P'' # show_int (int_of_u32 (p_pid x))"

definition kill_memory :: "nat \<Rightarrow> u32 \<Rightarrow> kernel \<Rightarrow> kernel res" where
  "kill_memory p memrg k =
    bindr (as_caller k p (\<lambda>c. libfree c memrg)) (\<lambda>(_, k).
    bindr (as_caller k p free_pcb_memph) (\<lambda>(_, k). Inr k))"

lemma remove_from_queue_size: "remove_from_queue q idx = Inr q' \<Longrightarrow> qsize q' = qsize q - 1"
  by (auto simp: remove_from_queue_def bindr_eq_Inr_iff)

text \<open>
  The two loops over a queue differ in the message alone. The queue is passed beside the rest of
  the state; no call in the body reaches a queue.
\<close>

function kill_loop ::
    "fmt \<Rightarrow> u32 \<Rightarrow> string \<Rightarrow> int \<Rightarrow> nat queue_t \<Rightarrow> kernel \<Rightarrow> (nat queue_t \<times> kernel) res" where
  "kill_loop msg memrg name idx q k =
    (if idx < qsize q then
       bindr (aget (proc q) idx) (\<lambda>cell.
       case cell of
         None \<Rightarrow> Inl NullDeref
       | Some p \<Rightarrow>
           bindr (pcb_at k p) (\<lambda>x.
           if kill_name x = name then
             bindr (kill_memory p memrg (kprint F_kill_remaining [AI (qsize q)] k)) (\<lambda>k.
             bindr (remove_from_queue q idx) (\<lambda>q'.
             kill_loop msg memrg name idx q'
               (kprint F_kill_remaining [AI (qsize q')]
                  (kprint msg [AU (p_pid x), AS (path x)] k))))
           else kill_loop msg memrg name (idx + 1) q k))
     else Inr (q, k))"
  by pat_completeness auto
termination
  by (relation "measure (\<lambda>(msg, memrg, name, idx, q, k). nat (qsize q - idx))")
    (auto dest: remove_from_queue_size)

declare kill_loop.simps [simp del]

text \<open>
  \<open>caller->mlq_ready_queue\<close> is an array, so \<open>queue\<close> is its first element: the ready queue of
  priority 0.
\<close>

definition sys_killall :: "kernel \<Rightarrow> nat \<Rightarrow> sc_regs \<Rightarrow> (int \<times> kernel) res" where
  "sys_killall k p rs =
    (let memrg = a1 rs in
     bindr (name_loop p memrg 0 [] k) (\<lambda>(cs, k).
       let name = c_string cs;
           k = kprint F_kill_name [AU memrg, AS name] k in
     bindr (pcb_at k p) (\<lambda>x.
     if \<not> linked x then Inl WildDeref
     else
     bindr (aget (mlq_ready_queue (ksched k)) 0) (\<lambda>queue.
     bindr (kill_loop F_kill_ready memrg name 0 queue k) (\<lambda>(queue, k).
     bindr (aset (mlq_ready_queue (ksched k)) 0 queue) (\<lambda>a.
       let k = k\<lparr>ksched := (ksched k)\<lparr>mlq_ready_queue := a\<rparr>\<rparr> in
     bindr (kill_loop F_kill_running memrg name 0 (running_list (ksched k)) k) (\<lambda>(rlist, k).
     Inr (0, k\<lparr>ksched := (ksched k)\<lparr>running_list := rlist\<rparr>\<rparr>))))))))"

section \<open>Dispatch\<close>

definition syscall :: "kernel \<Rightarrow> nat \<Rightarrow> u32 \<Rightarrow> sc_regs \<Rightarrow> (int \<times> kernel) res" where
  "syscall k p nr rs =
    (if nr = 0 then sys_listsyscall k p rs
     else if nr = 17 then
       as_caller k p (\<lambda>c. bindr (sys_memmap c rs) (\<lambda>(r, _, c). Inr (r, c)))
     else if nr = 101 then sys_killall k p rs
     else if nr = 440 then sys_xxxhandler k p rs
     else sys_ni_syscall k p rs)"

definition libsyscall :: "kernel \<Rightarrow> nat \<Rightarrow> u32 \<Rightarrow> u32 \<Rightarrow> u32 \<Rightarrow> u32 \<Rightarrow> (int \<times> kernel) res" where
  "libsyscall k p syscall_idx x y z = syscall k p syscall_idx \<lparr>a1 = x, a2 = y, a3 = z\<rparr>"

end
