(* ===== verification/Cpu.thy ===== *)
theory Cpu
  imports Syscalls
begin

text \<open>
  The processor, \<open>src/cpu.c\<close> with \<open>MM_PAGING\<close>: one instruction of a process.
\<close>

text \<open>
  The \<open>switch\<close> of \<open>run\<close>. It works on a copy of the instruction, so the byte \<open>libread\<close> stores in
  \<open>ins.arg_2\<close> is lost when \<open>run\<close> returns. \<open>libwrite\<close> takes its first argument as a \<open>BYTE\<close>.
\<close>

definition exec_ins :: "kernel \<Rightarrow> nat \<Rightarrow> inst_t \<Rightarrow> (int \<times> kernel) res" where
  "exec_ins k p ins = (case opcode ins of
      CALC \<Rightarrow> Inr (1, k)
    | ALLOC \<Rightarrow> as_caller k p (\<lambda>c. liballoc c (arg_0 ins) (arg_1 ins))
    | FREE \<Rightarrow> as_caller k p (\<lambda>c. libfree c (arg_0 ins))
    | READ \<Rightarrow> as_caller k p (\<lambda>c. bindr (libread c (arg_0 ins) (arg_1 ins)) (\<lambda>(r, _, c). Inr (r, c)))
    | WRITE \<Rightarrow> as_caller k p (\<lambda>c. libwrite c (byte_of_u32 (arg_0 ins)) (arg_1 ins) (arg_2 ins))
    | SYSCALL \<Rightarrow> libsyscall k p (arg_0 ins) (arg_1 ins) (arg_2 ins) (arg_3 ins))"

definition run :: "kernel \<Rightarrow> nat \<Rightarrow> (int \<times> kernel) res" where
  "run k p =
    bindr (pcb_at k p) (\<lambda>x.
    if code_size x \<le> pc x then Inr (1, k)
    else
      bindr (aget (code_text x) (uint (pc x))) (\<lambda>ins.
        let k = set_pcb p (x\<lparr>pc := pc x + 1\<rparr>) k in
        exec_ins k p ins))"

section \<open>Running one instruction keeps the memory of all processes\<close>

text \<open>
  When an instruction is covered by the results on the memory library: the address lies below the
  break, the allocation is neither hit by the off-by-one test nor out of space, and the system
  call is not \<open>killall\<close>; a direct \<open>memmap\<close> may read RAM but not write it, grow the area or swap.
\<close>

definition memmap_calm :: "caller \<Rightarrow> u32 \<Rightarrow> u32 \<Rightarrow> bool" where
  "memmap_calm c memop a \<longleftrightarrow>
    (if int_of_u32 memop = SYSMEM_IO_READ then int_of_u32 a \<in> phy_addrs (mram c)
     else int_of_u32 memop \<notin> {SYSMEM_INC_OP, SYSMEM_SWP_OP, SYSMEM_IO_WRITE})"

definition ins_ok :: "caller \<Rightarrow> inst_t \<Rightarrow> bool" where
  "ins_ok c ins = (case opcode ins of
      CALC \<Rightarrow> True
    | ALLOC \<Rightarrow> can_alloc c (uint (arg_0 ins)) \<and> sym_id (arg_1 ins)
    | FREE \<Rightarrow> True
    | READ \<Rightarrow> in_heap c (arg_0 ins) (arg_1 ins)
    | WRITE \<Rightarrow> in_heap c (arg_1 ins) (arg_2 ins)
    | SYSCALL \<Rightarrow> arg_0 ins \<noteq> 101 \<and> (arg_0 ins = 17 \<longrightarrow> memmap_calm c (arg_1 ins) (arg_2 ins)))"

text \<open>A step of process \<open>p\<close> that keeps the invariant and every byte of the other processes.\<close>

definition calm :: "nat \<Rightarrow> kernel \<Rightarrow> kernel \<Rightarrow> bool" where
  "calm p k k' \<longleftrightarrow> kernel_ok k' \<and> same_but p k k' \<and>
    (\<forall>f \<in> others_of k p. \<forall>a \<in> page_addrs f. phy_read (Some (ram k')) a = phy_read (Some (ram k)) a)"

lemma kernel_ok_cong:
  assumes "holds k' = holds k" "ram k' = ram k"
  shows "kernel_ok k' = kernel_ok k" "others_of k' p = others_of k p"
  using assms by (simp_all add: kernel_ok_def others_of_def)

lemma holds_advance:
  assumes "procs k p = Some x" "p_mm x' = p_mm x"
  shows "holds (set_pcb p x' k) = holds k"
  using assms by (auto simp: holds_def kernel_simps fun_eq_iff)

lemma calm_advance:
  assumes "kernel_ok k" "procs k p = Some x" "p_mm x' = p_mm x"
  shows "calm p k (set_pcb p x' k)"
  using assms kernel_ok_cong [of "set_pcb p x' k" k] holds_advance [OF assms(2,3)]
  by (simp add: calm_def kernel_simps same_but_def)

lemma calm_as_caller:
  assumes ok: "kernel_ok k" and x: "procs k p = Some x" "p_mm x = Some M"
    and run: "f (caller_of x M k) = Inr (r, c)" and keep: "keeps (others_of k p) (caller_of x M k) c"
    and cells: "\<forall>g \<in> others_of k p. \<forall>a \<in> page_addrs g. phy_read (mram c) a = phy_read (Some (ram k)) a"
  shows "\<exists>k'. as_caller k p f = Inr (r, k') \<and> calm p k k' \<and>
    procs k' p = Some (x\<lparr>p_mm := Some (mm c)\<rparr>)"
proof -
  have p: "holds k p M" using x by (auto simp: holds_def)
  have eq: "as_caller k p f = Inr (r, store_caller p x c k)"
    using x run by (simp add: as_caller_def pcb_at_def)
  have "mram c = Some (ram (store_caller p x c k))"
    using keep by (auto simp: keeps_def proc_ok_def frame_inv_def kernel_simps elim!: dev_okE)
  then have "calm p k (store_caller p x c k)"
    using kernel_ok_store [OF ok p keep] cells as_caller_same_but [OF eq] by (simp add: calm_def)
  then show ?thesis using eq by (auto simp: kernel_simps)
qed

lemma sys_listsyscall_prints: "\<exists>out. sys_listsyscall k p rs = Inr (0, k\<lparr>kout := out\<rparr>)"
proof -
  have "\<exists>k'. for_loop 0 syscall_table_size (\<lambda>i k.
      bindr (aget (array_of sys_call_table) i) (\<lambda>s. Inr (kprint F_sysname [AS s] k))) k = Inr k' \<and>
      (\<exists>out. k' = k\<lparr>kout := out\<rparr>)"
  proof (rule for_loop_rule [where P = "\<lambda>_ k'. \<exists>out. k' = k\<lparr>kout := out\<rparr>"])
    show "\<exists>out. k = k\<lparr>kout := out\<rparr>" by (intro exI [of _ "kout k"]) simp
  qed (auto simp: aget_def in_bounds_def array_of_def syscall_table_size_def kprint_def)
  then show ?thesis by (auto simp: sys_listsyscall_def)
qed

lemma calm_syscall:
  assumes "kernel_ok k" "nr \<noteq> 17" "nr \<noteq> 101"
  shows "\<exists>k'. libsyscall k p nr x y z = Inr (0, k') \<and> calm p k k' \<and> procs k' = procs k"
proof -
  have out: "calm p k (k\<lparr>kout := out\<rparr>)" for out
  proof -
    have "holds (k\<lparr>kout := out\<rparr>) = holds k" by (simp add: holds_def fun_eq_iff)
    then show ?thesis
      using assms(1) kernel_ok_cong [of "k\<lparr>kout := out\<rparr>" k] by (simp add: calm_def same_but_def)
  qed
  obtain o1 where o1: "sys_listsyscall k p \<lparr>a1 = x, a2 = y, a3 = z\<rparr> = Inr (0, k\<lparr>kout := o1\<rparr>)"
    using sys_listsyscall_prints by blast
  have "k\<lparr>kout := kout k\<rparr> = k" by simp
  then show ?thesis
    using assms(2,3) o1 out [of o1] out [of "kout k"] out [of "kout k @ [Line F_xxx [AU x]]"]
    by (simp add: libsyscall_def syscall_def sys_xxxhandler_def sys_ni_syscall_def kprint_def)
qed

text \<open>The code segment as \<open>load\<close> builds it, and the instruction the program counter points to.\<close>

definition code_ok :: "pcb_t \<Rightarrow> bool" where
  "code_ok x \<longleftrightarrow> alen (code_text x) = unat (code_size x)"

definition next_ins :: "pcb_t \<Rightarrow> inst_t" where
  "next_ins x = acell (code_text x) (unat (pc x))"

definition run_code :: "mm_struct \<Rightarrow> inst_t \<Rightarrow> int" where
  "run_code M ins = (case opcode ins of
      CALC \<Rightarrow> 1
    | FREE \<Rightarrow> if sym_id (arg_0 ins) \<and> reg (symbol M (uint (arg_0 ins))) \<noteq> {} then 0 else -1
    | _ \<Rightarrow> 0)"

lemma run_code_syscall: "opcode i = SYSCALL \<Longrightarrow> run_code M i = 0"
  by (simp add: run_code_def)

lemma run_fetch:
  assumes "procs k p = Some x" "code_ok x" "pc x < code_size x"
  shows "pcb_at k p = Inr x" "\<not> code_size x \<le> pc x"
    "aget (code_text x) (uint (pc x)) = Inr (next_ins x)"
proof -
  show "pcb_at k p = Inr x" using assms(1) by simp
  show "\<not> code_size x \<le> pc x" using assms(3) by simp
  show "aget (code_text x) (uint (pc x)) = Inr (next_ins x)"
    using assms(2,3) by (simp add: aget_def in_bounds_def code_ok_def next_ins_def word_less_def)
qed

text \<open>The library calls as steps of a process.\<close>

definition calm_call :: "kernel \<Rightarrow> nat \<Rightarrow> (caller \<Rightarrow> (int \<times> caller) res) \<Rightarrow> int \<Rightarrow> bool" where
  "calm_call k p f r \<longleftrightarrow> (\<exists>k' M'. as_caller k p f = Inr (r, k') \<and> calm p k k' \<and>
    procs k' p = map_option (\<lambda>x. x\<lparr>p_mm := Some M'\<rparr>) (procs k p))"

lemma calm_callI:
  assumes "kernel_ok k" "procs k p = Some x" "p_mm x = Some M"
    and "f (caller_of x M k) = Inr (r, c)" "keeps (others_of k p) (caller_of x M k) c"
    and "\<forall>g \<in> others_of k p. \<forall>a \<in> page_addrs g. phy_read (mram c) a = phy_read (Some (ram k)) a"
  shows "calm_call k p f r"
  using calm_as_caller [of k p x M f r c, OF assms] assms(2) by (auto simp: calm_call_def)

text \<open>The same for a call that leaves the cells of RAM alone.\<close>

lemma calm_callI_cells:
  assumes "kernel_ok k" "procs k p = Some x" "p_mm x = Some M"
    and "f (caller_of x M k) = Inr (r, c)" "keeps (others_of k p) (caller_of x M k) c"
    and "cells_of (mram c) = cells_of (mram (caller_of x M k))"
  shows "calm_call k p f r"
  using phy_read_cells [OF assms(6)]
  by (intro calm_callI [of k p x M f r c, OF assms(1-5)]) (simp add: kernel_simps)

lemma process_view:
  assumes "kernel_ok k" "procs k p = Some x" "p_mm x = Some M"
  shows "proc_ok (others_of k p) (caller_of x M k)"
  using assms kernel_ok_view [of k p M] by (auto simp: holds_def)

lemma calm_alloc:
  assumes k: "kernel_ok k" "procs k p = Some x" "p_mm x = Some M"
    and "can_alloc (caller_of x M k) (uint sz)" "sym_id rgid"
  shows "calm_call k p (\<lambda>c. liballoc c sz rgid) 0"
proof -
  obtain c where "liballoc (caller_of x M k) sz rgid = Inr (0, c)" "keeps (others_of k p) (caller_of x M k) c"
    "cells_of (mram c) = cells_of (mram (caller_of x M k))"
    using liballoc_run [OF process_view [OF k] assms(5,4)] by blast
  then show ?thesis by (rule calm_callI_cells [of k p x M "\<lambda>c. liballoc c sz rgid", OF k])
qed

lemma calm_free:
  assumes k: "kernel_ok k" "procs k p = Some x" "p_mm x = Some M"
  shows "calm_call k p (\<lambda>c. libfree c rgid) (run_code M (ins\<lparr>opcode := FREE, arg_0 := rgid\<rparr>))"
proof -
  let ?c = "caller_of x M k" and ?r = "run_code M (ins\<lparr>opcode := FREE, arg_0 := rgid\<rparr>)"
  have "heap_inv (mm ?c)" using process_view [OF k] by (simp add: proc_ok_def)
  from libfree_any [OF this, of rgid] obtain M' out where
    r: "libfree ?c rgid = Inr (?r, ?c\<lparr>mm := M', stdout := out\<rparr>)"
    by (auto simp: run_code_def kernel_simps)
  then have "keeps (others_of k p) ?c (?c\<lparr>mm := M', stdout := out\<rparr>)"
    using libfree_run [OF process_view [OF k], of rgid] by auto
  then show ?thesis by (rule calm_callI_cells [of k p x M "\<lambda>c. libfree c rgid", OF k r]) simp
qed

lemma calm_read:
  assumes k: "kernel_ok k" "procs k p = Some x" "p_mm x = Some M"
    and "in_heap (caller_of x M k) s off"
  shows "calm_call k p (\<lambda>c. bindr (libread c s off) (\<lambda>(r, _, c). Inr (r, c))) 0"
proof -
  let ?c = "caller_of x M k"
  obtain v out where r: "libread ?c s off = Inr (0, Some (u32_of_byte v), ?c\<lparr>stdout := out\<rparr>)"
    using libread_keeps [OF process_view [OF k] assms(4)] by blast
  have "keeps (others_of k p) ?c (?c\<lparr>stdout := out\<rparr>)" using process_view [OF k] by (simp add: keeps_def)
  then show ?thesis
    by (intro calm_callI_cells [of k p x M _ 0 "?c\<lparr>stdout := out\<rparr>", OF k]) (simp_all add: r)
qed

lemma calm_write:
  assumes k: "kernel_ok k" "procs k p = Some x" "p_mm x = Some M"
    and h: "in_heap (caller_of x M k) d off"
  shows "calm_call k p (\<lambda>c. libwrite c v d off) 0"
proof -
  let ?c = "caller_of x M k"
  note view = process_view [OF k]
  obtain mp out where w: "phy_write (mram ?c) (vphys (mm ?c) (lib_addr (mm ?c) d off)) v = Inr mp"
    "libwrite ?c v d off = Inr (0, ?c\<lparr>mram := mp, stdout := out\<rparr>)"
    "keeps (others_of k p) ?c (?c\<lparr>mram := mp, stdout := out\<rparr>)"
    using libwrite_keeps [OF view h, of v] by blast
  show ?thesis
    using libwrite_others [OF view h w(1)]
    by (intro calm_callI [of k p x M "\<lambda>c. libwrite c v d off", OF k w(2,3)]) (simp add: kernel_simps)
qed

lemma libsyscall_memmap:
  "libsyscall k p 17 x y z =
    as_caller k p (\<lambda>c. bindr (sys_memmap c \<lparr>a1 = x, a2 = y, a3 = z\<rparr>) (\<lambda>(r, _, c). Inr (r, c)))"
  by (simp add: libsyscall_def syscall_def)

lemma sys_memmap_calm:
  assumes "memmap_calm c x y" "dev_ok (mram c)"
  shows "\<exists>regs out. sys_memmap c \<lparr>a1 = x, a2 = y, a3 = z\<rparr> = Inr (0, regs, c\<lparr>stdout := out\<rparr>)"
proof (cases "int_of_u32 x = SYSMEM_IO_READ")
  case True
  then have "int_of_u32 y \<in> phy_addrs (mram c)" using assms(1) by (simp add: memmap_calm_def)
  then show ?thesis
    using MEMPHY_read_random [OF assms(2)] True
    by (simp add: sys_memmap_def sysmem_ops Let_def) (intro exI [of _ "stdout c"], simp)
next
  case False
  show ?thesis
  proof (cases "int_of_u32 x = SYSMEM_MAP_OP")
    case True
    then show ?thesis by (simp add: sys_memmap_def Let_def) (intro exI [of _ "stdout c"], simp)
  next
    case other: False
    then show ?thesis
      using False assms(1) by (auto simp: sys_memmap_def memmap_calm_def Let_def print_line_def)
  qed
qed

lemma calm_memmap:
  assumes k: "kernel_ok k" "procs k p = Some x" "p_mm x = Some M" and m: "memmap_calm (caller_of x M k) op a"
  shows "calm_call k p (\<lambda>c. bindr (sys_memmap c \<lparr>a1 = op, a2 = a, a3 = v\<rparr>) (\<lambda>(r, _, c). Inr (r, c))) 0"
proof -
  let ?c = "caller_of x M k"
  have "dev_ok (mram ?c)" using k(1) by (simp add: kernel_ok_def kernel_simps)
  then obtain regs out where r: "sys_memmap ?c \<lparr>a1 = op, a2 = a, a3 = v\<rparr> = Inr (0, regs, ?c\<lparr>stdout := out\<rparr>)"
    using sys_memmap_calm [OF m] by blast
  have "keeps (others_of k p) ?c (?c\<lparr>stdout := out\<rparr>)" using process_view [OF k] by (simp add: keeps_def)
  then show ?thesis
    by (intro calm_callI_cells [of k p x M _ 0 "?c\<lparr>stdout := out\<rparr>", OF k]) (simp_all add: r)
qed

lemma exec_calm:
  assumes ok: "kernel_ok k" and x: "procs k p = Some x" "p_mm x = Some M" and ins: "ins_ok (caller_of x M k) i"
  shows "\<exists>k' M'. exec_ins k p i = Inr (run_code M i, k') \<and> calm p k k' \<and> procs k' p = Some (x\<lparr>p_mm := Some M'\<rparr>)"
proof -
  have call: ?thesis if "exec_ins k p i = as_caller k p f" "calm_call k p f (run_code M i)" for f
    using that x(1) by (auto simp: calm_call_def)
  note calls = calm_alloc [OF ok x] calm_read [OF ok x] calm_write [OF ok x]
  show ?thesis
  proof (cases "opcode i")
    case CALC
    have "x\<lparr>p_mm := Some M\<rparr> = x" using x(2) by simp
    moreover have "calm p k k" using ok by (simp add: calm_def)
    ultimately show ?thesis using CALC x by (intro exI [of _ k] exI [of _ M]) (simp add: exec_ins_def run_code_def)
  next
    case ALLOC
    then show ?thesis using call calls(1) ins by (simp add: exec_ins_def ins_ok_def run_code_def)
  next
    case FREE
    then have "run_code M (i\<lparr>opcode := FREE, arg_0 := arg_0 i\<rparr>) = run_code M i" by (simp add: run_code_def)
    then have "calm_call k p (\<lambda>c. libfree c (arg_0 i)) (run_code M i)"
      using calm_free [OF ok x, of "arg_0 i" i] by simp
    then show ?thesis using call FREE by (simp add: exec_ins_def)
  next
    case READ
    then show ?thesis using call calls(2) ins by (simp add: exec_ins_def ins_ok_def run_code_def)
  next
    case WRITE
    then show ?thesis using call calls(3) ins by (simp add: exec_ins_def ins_ok_def run_code_def)
  next
    case SYSCALL
    show ?thesis
    proof (cases "arg_0 i = 17")
      case True
      then have "memmap_calm (caller_of x M k) (arg_1 i) (arg_2 i)" using ins SYSCALL by (simp add: ins_ok_def)
      from call [OF _ calm_memmap [OF ok x this, of "arg_3 i", folded run_code_syscall [OF SYSCALL, of M]]]
      show ?thesis using True SYSCALL by (simp add: exec_ins_def libsyscall_memmap)
    next
      case False
    have "arg_0 i \<noteq> 17" "arg_0 i \<noteq> 101" using False SYSCALL ins by (simp_all add: ins_ok_def)
    then obtain k' where "libsyscall k p (arg_0 i) (arg_1 i) (arg_2 i) (arg_3 i) = Inr (0, k')" "calm p k k'" "procs k' = procs k"
      using calm_syscall [OF ok] by blast
    moreover have "x\<lparr>p_mm := Some M\<rparr> = x" using x(2) by simp
    ultimately show ?thesis using SYSCALL x(1)
      by (intro exI [of _ k'] exI [of _ M]) (simp add: exec_ins_def run_code_def)
    qed
  qed
qed

lemma run_calm:
  assumes ok: "kernel_ok k" and x: "procs k p = Some x" "p_mm x = Some M"
    and code: "code_ok x" "pc x < code_size x" and ins: "ins_ok (caller_of x M k) (next_ins x)"
  shows "\<exists>k' M'. run k p = Inr (run_code M (next_ins x), k') \<and> calm p k k' \<and>
    procs k' p = Some (x\<lparr>pc := pc x + 1, p_mm := Some M'\<rparr>)"
proof -
  define x1 where "x1 = x\<lparr>pc := pc x + 1\<rparr>"
  define k1 where "k1 = set_pcb p x1 k"
  have c1: "calm p k k1" unfolding k1_def by (rule calm_advance [OF ok x(1)]) (simp add: x1_def)
  have oth: "others_of k1 p = others_of k p"
    using kernel_ok_cong(2) [of k1 k p] holds_advance [OF x(1), of x1] by (simp_all add: k1_def x1_def kernel_simps)
  have x1: "procs k1 p = Some x1" "p_mm x1 = Some M" using x by (simp_all add: k1_def x1_def kernel_simps)
  have ok1: "kernel_ok k1" using c1 by (simp add: calm_def)
  have ins1: "ins_ok (caller_of x1 M k1) (next_ins x)" using ins
    by (auto simp: ins_ok_def can_alloc_def in_heap_def vaddrs_def memmap_calm_def kernel_simps k1_def split: ins_opcode_t.splits)
  obtain k' M' where k': "exec_ins k1 p (next_ins x) = Inr (run_code M (next_ins x), k')" "calm p k1 k'"
    "procs k' p = Some (x1\<lparr>p_mm := Some M'\<rparr>)"
    using exec_calm [OF ok1 x1 ins1] by blast
  have "run k p = Inr (run_code M (next_ins x), k')"
    using k'(1) by (simp only: run_def run_fetch [OF x(1) code] bindr_simps Let_def k1_def x1_def if_False)
  moreover have "calm p k k'" using k'(2) c1 same_but_trans oth by (auto simp: calm_def)
  ultimately show ?thesis using k'(3) by (auto simp: x1_def)
qed

text \<open>Two states in which a process has the same memory and its frames the same bytes read the same.\<close>

lemma same_reads:
  assumes ok: "kernel_ok k" "kernel_ok k'" and y: "procs k q = Some y" "p_mm y = Some N"
    and z: "procs k' q = Some z" "p_mm z = Some N" and h: "in_heap (caller_of y N k) s off"
    and same: "\<forall>f \<in> set (frame_list N). \<forall>a \<in> page_addrs f. phy_read (Some (ram k')) a = phy_read (Some (ram k)) a"
  shows "\<exists>w c c'. libread (caller_of y N k) s off = Inr (0, Some w, c) \<and> libread (caller_of z N k') s off = Inr (0, Some w, c')"
proof -
  let ?c = "caller_of y N k" and ?c' = "caller_of z N k'" and ?a = "lib_addr N s off"
  note vm = proc_ok_vm_ok [OF process_view [OF ok(1) y]] and vm' = proc_ok_vm_ok [OF process_view [OF ok(2) z]]
  have a: "sym_id s" "?a \<in> vaddrs ?c" "?a \<in> vaddrs ?c'"
    using h by (simp_all add: in_heap_def vaddrs_def kernel_simps)
  have "page_frame N (?a div 256) \<in> set (frame_list N)"
    using vaddr_frame(2) [OF vm a(2)] by (simp add: kernel_simps)
  moreover have "vphys N ?a \<in> page_addrs (page_frame N (?a div 256))"
    using vaddr_frame(3) [OF vm a(2)] by (simp add: kernel_simps)
  ultimately have "phy_read (Some (ram k')) (vphys N ?a) = phy_read (Some (ram k)) (vphys N ?a)"
    using same by blast
  then have "vm_rd ?c' ?a = vm_rd ?c ?a"
    using vm_rd_cell [OF vm a(2)] vm_rd_cell [OF vm' a(3)] by (simp add: kernel_simps)
  then obtain w where "vm_rd ?c ?a = Inr w" "vm_rd ?c' ?a = Inr w"
    using vmem.rd_ok [OF vm a(2)] by auto
  then show ?thesis
    using libread_run [OF vm a(1)] libread_run [OF vm' a(1)] a by (fastforce simp: kernel_simps)
qed

section \<open>Properties\<close>

lemma calm_reads:
  assumes "kernel_ok k" "calm p k k'" "q \<noteq> p" "procs k q = Some y" "p_mm y = Some N" "in_heap (caller_of y N k) s off"
  shows "\<exists>w c c'. libread (caller_of y N k) s off = Inr (0, Some w, c) \<and> libread (caller_of y N k') s off = Inr (0, Some w, c')"
proof -
  have q: "holds k q N" "procs k' q = Some y" "kernel_ok k'"
    using assms(2-5) by (auto simp: holds_def calm_def same_but_def)
  have "set (frame_list N) \<subseteq> others_of k p" using q(1) assms(3) by (auto simp: others_of_def)
  then have "\<forall>f \<in> set (frame_list N). \<forall>a \<in> page_addrs f. phy_read (Some (ram k')) a = phy_read (Some (ram k)) a"
    using assms(2) unfolding calm_def by blast
  from same_reads [OF assms(1) q(3) assms(4,5) q(2) assms(5,6) this] show ?thesis by blast
qed

text \<open>
  C16: one supported instruction of a process. When the memories of all processes are in order and the
  instruction is one the library can carry out (\<open>ins_ok\<close>), \<open>run\<close> returns 0 (1 for \<open>CALC\<close>, -1 for
  freeing an empty region), advances the program counter by one, and the memories are in order again:
  every heap well formed, every frame owned once. The other processes, the scheduler and the process
  numbers are untouched, and every byte another process can read below its break reads the same.
\<close>

theorem run_keeps_memory:
  assumes "kernel_ok k" "procs k p = Some x" "p_mm x = Some M" "code_ok x" "pc x < code_size x"
    and "ins_ok (caller_of x M k) (next_ins x)"
  shows "\<exists>k' M'. run k p = Inr (run_code M (next_ins x), k') \<and> kernel_ok k' \<and> same_but p k k' \<and>
    procs k' p = Some (x\<lparr>pc := pc x + 1, p_mm := Some M'\<rparr>) \<and>
    (\<forall>q y N s off. q \<noteq> p \<and> procs k q = Some y \<and> p_mm y = Some N \<and> in_heap (caller_of y N k) s off \<longrightarrow>
       (\<exists>w c c'. libread (caller_of y N k) s off = Inr (0, Some w, c) \<and>
          libread (caller_of y N k') s off = Inr (0, Some w, c')))"
proof -
  obtain k' M' where k': "run k p = Inr (run_code M (next_ins x), k')" "calm p k k'"
    "procs k' p = Some (x\<lparr>pc := pc x + 1, p_mm := Some M'\<rparr>)" using run_calm [OF assms] by blast
  then show ?thesis using calm_reads [OF assms(1) k'(2)] unfolding calm_def by blast
qed

text \<open>Two processes of one page each on a device of four frames, for the witnesses.\<close>

definition mm_page :: "int \<Rightarrow> mm_struct" where
  "mm_page f = (mm_with 256 [rg 256 256] (rg 0 256) (rg 0 0))
    \<lparr>pgd := CArray 16384 (\<lambda>n. if n = 0 then snd (pte_set_fpn 0 f) else 0)\<rparr>"

definition pcb_page :: "int \<Rightarrow> inst_t list \<Rightarrow> pcb_t" where
  "pcb_page f insts = blank_pcb\<lparr>p_pid := u32_of_int (f + 1), code_text := array_of insts, code_size := of_nat (length insts),
    p_mm := Some (mm_page f), linked := True\<rparr>"

definition dev_page :: "(nat \<Rightarrow> BYTE) \<Rightarrow> memphy_struct" where
  "dev_page cells = \<lparr>storage = CArray 1024 cells, maxsz = 1024, rdmflg = 1, cursor = 0,
    free_fp_list = chain_of [2, 3]\<rparr>"

definition two_procs :: "(nat \<Rightarrow> BYTE) \<Rightarrow> inst_t list \<Rightarrow> kernel" where
  "two_procs cells insts = \<lparr>procs = [0 \<mapsto> pcb_page 0 insts, 1 \<mapsto> pcb_page 1 []], next_block = 2,
    ksched = boot_sched [] [0, 1], ram = dev_page cells, swp = dev_page cells, kout = [], avail_pid = 3\<rparr>"

lemma mm_page_facts:
  assumes "0 \<le> f" "f < 8192"
  shows "heap_inv (mm_page f)" "brk (mm_page f) = 256" "npages (mm_page f) = 1"
    "frame_list (mm_page f) = [f]" "\<forall>pg. 0 \<le> pg \<and> pg < 1 \<longrightarrow> resident (mm_page f) pg" "symbol (mm_page f) 0 = rg 0 256"
    "free_regions (mm_page f) = [rg 256 256]"
proof -
  let ?M = "mm_with 256 [rg 256 256] (rg 0 256) (rg 0 0)"
  have M: "heap_inv ?M" "brk ?M = 256" "free_regions ?M = [rg 256 256]" "symbol ?M 0 = rg 0 256"
    using heap_inv_mm_with [of 256 "[rg 256 256]" "rg 0 256" "rg 0 0"] by (simp_all add: disjr_def)
  have flds: "brk (mm_page f) = brk ?M" "free_regions (mm_page f) = free_regions ?M"
    "symbols (mm_page f) = symbols ?M" "symbol (mm_page f) 0 = symbol ?M 0"
    by (simp_all add: mm_page_def brk_def free_regions_def symbols_def symbol_def)
  have "mm_ok ?M" using M(1) by (simp add: heap_inv_def)
  then have "mm_ok (mm_page f)" by (simp add: mm_page_def mm_ok_def)
  then show "heap_inv (mm_page f)" using M(1) flds by (simp add: heap_inv_def regions_def)
  show "brk (mm_page f) = 256" "symbol (mm_page f) 0 = rg 0 256" "free_regions (mm_page f) = [rg 256 256]"
    using flds M by simp_all
  then show n: "npages (mm_page f) = 1" by (simp add: npages_def)
  have pte: "page_pte (mm_page f) 0 = snd (pte_set_fpn 0 f)" by (simp add: page_pte_def mm_page_def)
  show "frame_list (mm_page f) = [f]"
    using set_fpn_resident [OF pte assms] n by (simp add: frame_list_def)
  have "pg = 0" if "0 \<le> pg" "pg < 1" for pg :: int using that by simp
  then show "\<forall>pg. 0 \<le> pg \<and> pg < 1 \<longrightarrow> resident (mm_page f) pg"
    using set_fpn_resident [OF pte assms] by blast
qed

lemma two_procs_ok: "kernel_ok (two_procs cells insts)"
proof -
  have dev: "dev_ok (Some (dev_page cells))" "frames_ok (Some (dev_page cells))" "frames (Some (dev_page cells)) = [2, 3]"
    "phy_addrs (Some (dev_page cells)) = {0..<1024}"
    by (auto simp: dev_ok_def frames_ok_def frames_def phy_addrs_def dev_page_def)
  have good: "good_frame (Some (dev_page cells)) f" if "f \<in> {0, 1, 2, 3}" for f
    using that by (auto simp: good_frame_def dev page_addrs_def)
  have mem: "memory_ok (dev_page cells) (mm_page f)" if "f \<in> {0, 1}" for f
    using that good [of f] mm_page_facts [of f] dev by (auto simp: memory_ok_def)
  have holds: "holds (two_procs cells insts) p M \<longleftrightarrow> p = 0 \<and> M = mm_page 0 \<or> p = 1 \<and> M = mm_page 1" for p M
    by (auto simp: holds_def two_procs_def pcb_page_def)
  have "frame_list (mm_page 0) = [0]" "frame_list (mm_page 1) = [1]" by (simp_all add: mm_page_facts)
  moreover have "ram (two_procs cells insts) = dev_page cells" by (simp add: two_procs_def)
  ultimately show ?thesis
    using dev good mem unfolding kernel_ok_def holds by auto
qed

lemma two_procs_first:
  assumes "length insts < 2 ^ 32" "insts \<noteq> []"
  shows "procs (two_procs cells insts) 0 = Some (pcb_page 0 insts)" "p_mm (pcb_page 0 insts) = Some (mm_page 0)"
    "code_ok (pcb_page 0 insts)" "pc (pcb_page 0 insts) < code_size (pcb_page 0 insts)"
    "next_ins (pcb_page 0 insts) = hd insts"
proof -
  have len: "unat (of_nat (length insts) :: u32) = length insts"
    using assms(1) by (simp add: unsigned_of_nat take_bit_nat_eq_self)
  show "procs (two_procs cells insts) 0 = Some (pcb_page 0 insts)" by (simp add: two_procs_def)
  show "p_mm (pcb_page 0 insts) = Some (mm_page 0)" by (simp add: pcb_page_def)
  show "code_ok (pcb_page 0 insts)" using len by (simp add: code_ok_def pcb_page_def array_of_def)
  show "pc (pcb_page 0 insts) < code_size (pcb_page 0 insts)"
    using len assms(2) by (simp add: pcb_page_def blank_pcb_def word_less_nat_alt)
  show "next_ins (pcb_page 0 insts) = hd insts"
    using assms(2) by (simp add: next_ins_def pcb_page_def array_of_def blank_pcb_def hd_conv_nth)
qed

definition write_ins :: inst_t where
  "write_ins = blank_inst\<lparr>opcode := WRITE, arg_0 := 7, arg_1 := 0, arg_2 := 20\<rparr>"

theorem run_keeps_memory_witness:
  "\<exists>k' w c c'. run (two_procs (\<lambda>_. 0) [write_ins]) 0 = Inr (0, k') \<and> kernel_ok k' \<and>
    libread (caller_of (pcb_page 1 []) (mm_page 1) (two_procs (\<lambda>_. 0) [write_ins])) 0 20 = Inr (0, Some w, c) \<and>
    libread (caller_of (pcb_page 1 []) (mm_page 1) k') 0 20 = Inr (0, Some w, c')"
proof -
  let ?k = "two_procs (\<lambda>_. 0) [write_ins]"
  have heap: "in_heap (caller_of x (mm_page f) k) 0 20" if "f \<in> {0, 1}" for x f k
    using that mm_page_facts [of f]
    by (auto simp: in_heap_def sym_id_def lib_addr_def vaddrs_def kernel_simps)
  then have "ins_ok (caller_of (pcb_page 0 [write_ins]) (mm_page 0) ?k) write_ins"
    by (simp add: ins_ok_def write_ins_def)
  moreover have "run_code (mm_page 0) write_ins = 0" by (simp add: run_code_def write_ins_def)
  ultimately obtain k' where k': "run ?k 0 = Inr (0, k')" "kernel_ok k'"
    "\<forall>q y N s off. q \<noteq> 0 \<and> procs ?k q = Some y \<and> p_mm y = Some N \<and> in_heap (caller_of y N ?k) s off \<longrightarrow>
       (\<exists>w c c'. libread (caller_of y N ?k) s off = Inr (0, Some w, c) \<and> libread (caller_of y N k') s off = Inr (0, Some w, c'))"
    using run_keeps_memory [OF two_procs_ok two_procs_first(1) [where cells = "\<lambda>_. 0" and insts = "[write_ins]"]
        two_procs_first(2-4)]
      two_procs_first(5) [of "[write_ins]"] by auto
  have "procs ?k 1 = Some (pcb_page 1 [])" "p_mm (pcb_page 1 []) = Some (mm_page 1)"
    by (simp_all add: two_procs_def pcb_page_def)
  then have "\<exists>w c c'. libread (caller_of (pcb_page 1 []) (mm_page 1) ?k) 0 20 = Inr (0, Some w, c) \<and>
      libread (caller_of (pcb_page 1 []) (mm_page 1) k') 0 20 = Inr (0, Some w, c')"
    using k'(3) heap [of 1] by (metis insert_iff one_neq_zero)
  then show ?thesis using k'(1,2) by blast
qed

end
