(* ===== verification/Killall.thy ===== *)
theory Killall
  imports Cpu
begin

text \<open>
  What \<open>__sys_killall\<close> of \<open>src/sys_killall.c\<close> does: the name it reads from the caller's memory,
  the processes it takes off the two queues it looks at, and the two ways it goes wrong.
\<close>

section \<open>Giving back the memory of a process\<close>

lemma free_pcb_memph_any:
  assumes "mm_ok (mm c)" "mram c = Some r" "active_mswp c = Some s"
  shows "\<exists>r' s'. free_pcb_memph c = Inr (0, c\<lparr>mram := Some r', active_mswp := Some s'\<rparr>)"
proof -
  let ?body = "\<lambda>pagenum c.
      bindr (aget (pgd (mm c)) pagenum) (\<lambda>pte.
      if PAGING_PAGE_PRESENT pte = 0 then
        bindr (MEMPHY_put_freefp (mram c) (int_of_u32 (PAGING_PTE_FPN pte))) (\<lambda>(_, mp).
        Inr (c\<lparr>mram := mp\<rparr>))
      else
        bindr (MEMPHY_put_freefp (active_mswp c) (int_of_u32 (PAGING_PTE_SWP pte))) (\<lambda>(_, mp).
        Inr (c\<lparr>active_mswp := mp\<rparr>)))"
  let ?P = "\<lambda>(_ :: int) c'. \<exists>r' s'. c' = c\<lparr>mram := Some r', active_mswp := Some s'\<rparr>"
  have "\<exists>c'. for_loop 0 16384 ?body c = Inr c' \<and> ?P 16384 c'"
  proof (rule for_loop_rule [where P = ?P])
    show "?P 0 c" using assms(2,3) by (intro exI [of _ r] exI [of _ s]) simp
    fix i c'
    assume i: "0 \<le> i" "i < 16384" and "?P i c'"
    then obtain r' s' where c': "c' = c\<lparr>mram := Some r', active_mswp := Some s'\<rparr>" by blast
    have cell: "aget (pgd (mm c)) i = Inr (page_pte (mm c) i)" by (rule aget_pgd [OF assms(1) i])
    let ?put = "\<lambda>d f. d\<lparr>free_fp_list := Node f (free_fp_list d)\<rparr>" and ?pte = "page_pte (mm c) i"
    have "?body i c' = Inr (c\<lparr>
        mram := Some (if PAGING_PAGE_PRESENT ?pte = 0 then ?put r' (int_of_u32 (PAGING_PTE_FPN ?pte)) else r'),
        active_mswp := Some (if PAGING_PAGE_PRESENT ?pte = 0 then s'
          else ?put s' (int_of_u32 (PAGING_PTE_SWP ?pte)))\<rparr>)"
      using cell by (simp add: c' MEMPHY_put_freefp_def)
    then show "\<exists>c''. ?body i c' = Inr c'' \<and> ?P (i + 1) c''" by blast
  qed simp
  then obtain r' s' where "for_loop 0 16384 ?body c = Inr (c\<lparr>mram := Some r', active_mswp := Some s'\<rparr>)"
    by blast
  then have "free_pcb_memph c = Inr (0, c\<lparr>mram := Some r', active_mswp := Some s'\<rparr>)"
    by (simp add: free_pcb_memph_def paging_consts)
  then show ?thesis by blast
qed

text \<open>
  \<open>tame k p\<close>: the block of \<open>p\<close> is allocated and its memory descriptor is in order, which is all
  \<open>killall\<close> needs of a process it kills. \<open>drained\<close> relates the states before and after.
\<close>

definition tame :: "kernel \<Rightarrow> nat \<Rightarrow> bool" where
  "tame k p \<longleftrightarrow> (\<exists>x M. procs k p = Some x \<and> p_mm x = Some M \<and> heap_inv M)"

definition drained :: "kernel \<Rightarrow> kernel \<Rightarrow> bool" where
  "drained k k' \<longleftrightarrow> ksched k' = ksched k \<and> (\<forall>p. tame k p \<longrightarrow> tame k' p) \<and>
    (\<forall>p. map_option (\<lambda>x. x\<lparr>p_mm := None\<rparr>) (procs k' p) = map_option (\<lambda>x. x\<lparr>p_mm := None\<rparr>) (procs k p))"

lemma drained_refl [simp]: "drained k k"
  by (simp add: drained_def)

lemma drained_trans: "drained k k' \<Longrightarrow> drained k' k'' \<Longrightarrow> drained k k''"
  by (simp add: drained_def)

lemma drained_kprint [simp]:
  "drained (kprint f as k) k' = drained k k'" "drained k (kprint f as k') = drained k k'"
  by (simp_all add: drained_def kernel_simps tame_def)

lemma with_out_same [simp]:
  "tame (k\<lparr>kout := out\<rparr>) q = tame k q" "drained (k\<lparr>kout := out\<rparr>) k' = drained k k'"
  by (simp_all add: tame_def drained_def)

lemma tame_kprint [simp]: "tame (kprint f as k) p = tame k p"
  by (simp add: tame_def kernel_simps)

lemma drained_procs:
  assumes "drained k k'"
  shows "procs k' p = None \<longleftrightarrow> procs k p = None"
    "procs k p = Some x \<Longrightarrow> \<exists>m. procs k' p = Some (x\<lparr>p_mm := m\<rparr>)"
proof -
  have eq: "map_option (\<lambda>x. x\<lparr>p_mm := None\<rparr>) (procs k' p) = map_option (\<lambda>x. x\<lparr>p_mm := None\<rparr>) (procs k p)"
    using assms by (simp add: drained_def)
  show "procs k' p = None \<longleftrightarrow> procs k p = None" using eq by (cases "procs k p"; cases "procs k' p") simp_all
  assume x: "procs k p = Some x"
  then obtain y where y: "procs k' p = Some y" "y\<lparr>p_mm := None\<rparr> = x\<lparr>p_mm := None\<rparr>"
    using eq by (cases "procs k' p") auto
  have "y = y\<lparr>p_mm := None\<rparr>\<lparr>p_mm := p_mm y\<rparr>" by simp
  also have "\<dots> = x\<lparr>p_mm := p_mm y\<rparr>" by (simp only: y(2)) simp
  finally have "Some y = Some (x\<lparr>p_mm := p_mm y\<rparr>)" by (rule arg_cong)
  with y(1) show "\<exists>m. procs k' p = Some (x\<lparr>p_mm := m\<rparr>)" by (intro exI [of _ "p_mm y"]) (rule trans)
qed

definition named :: "kernel \<Rightarrow> string \<Rightarrow> nat \<Rightarrow> bool" where
  "named k name p \<longleftrightarrow> (\<exists>x. procs k p = Some x \<and> kill_name x = name)"

lemma named_kprint [simp]: "named (kprint f as k) name p = named k name p"
  by (simp add: named_def kernel_simps)

lemma named_out [simp]: "named (k\<lparr>kout := out\<rparr>) n q = named k n q"
  by (simp add: named_def)

lemma named_drained: "drained k k' \<Longrightarrow> named k' name p = named k name p"
  using drained_procs [of k k' p] by (cases "procs k p") (auto simp: named_def kill_name_def)

lemma drained_store:
  assumes "procs k p = Some x" "heap_inv (mm c)"
  shows "drained k (store_caller p x c k)"
  using assms by (auto simp: drained_def tame_def kernel_simps)

lemma kill_memory_ok:
  assumes "tame k p"
  shows "\<exists>k'. kill_memory p memrg k = Inr k' \<and> drained k k'"
proof -
  obtain x M where x: "procs k p = Some x" "p_mm x = Some M" "heap_inv M"
    using assms by (auto simp: tame_def)
  let ?c = "caller_of x M k"
  have h: "heap_inv (mm ?c)" using x by (simp add: kernel_simps)
  obtain rc M' out where fr: "libfree ?c memrg = Inr (rc, ?c\<lparr>mm := M', stdout := out\<rparr>)" "heap_inv M'"
    using libfree_any [OF h, of memrg] by blast
  let ?c1 = "?c\<lparr>mm := M', stdout := out\<rparr>"
  define k1 where "k1 = store_caller p x ?c1 k"
  have k1: "as_caller k p (\<lambda>c. libfree c memrg) = Inr (rc, k1)"
    using x fr(1) by (simp add: as_caller_def pcb_at_def k1_def)
  have d1: "drained k k1" unfolding k1_def by (rule drained_store) (simp_all add: x fr)
  let ?x1 = "x\<lparr>p_mm := Some M'\<rparr>"
  have x1: "procs k1 p = Some ?x1" by (simp add: k1_def kernel_simps)
  let ?d = "caller_of ?x1 M' k1"
  have "mm_ok (mm ?d)" using fr(2) by (simp add: kernel_simps heap_inv_def)
  from free_pcb_memph_any [OF this, of "ram k1" "swp k1"] obtain r s where
    fp: "free_pcb_memph ?d = Inr (0, ?d\<lparr>mram := Some r, active_mswp := Some s\<rparr>)"
    by (auto simp: kernel_simps)
  define k2 where "k2 = store_caller p ?x1 (?d\<lparr>mram := Some r, active_mswp := Some s\<rparr>) k1"
  have k2: "as_caller k1 p free_pcb_memph = Inr (0, k2)"
    using x1 fp by (simp add: as_caller_def pcb_at_def k2_def)
  have "drained k1 k2" unfolding k2_def by (rule drained_store) (simp_all add: x1 fr(2) kernel_simps)
  then show ?thesis using k1 k2 d1 drained_trans by (auto simp: kill_memory_def)
qed

section \<open>The loop over a queue\<close>

lemma remove_from_queue_ok:
  assumes ok: "queue_ok q" and i: "0 \<le> idx" "idx < qsize q"
  shows "\<exists>q'. remove_from_queue q idx = Inr q' \<and> queue_ok q' \<and>
    queue_items q' = without (nat idx) (queue_items q)"
proof -
  let ?xs = "queue_items q"
  have sz: "0 < qsize q" "qsize q \<le> 10" "alen (proc q) = 10" "length ?xs = nat (qsize q)"
    using ok i by (auto simp: queue_ok_def)
  have lt: "nat idx < length ?xs" using i sz(4) by simp
  obtain b where b: "for_loop idx (qsize q - 1) (\<lambda>i a. bindr (aget a (i + 1)) (aset a i)) (proc q) = Inr b"
    "alen b = 10"
    "\<And>j. acell b j = (if idx \<le> int j \<and> int j < qsize q - 1 then acell (proc q) (Suc j) else acell (proc q) j)"
    using shift_loop [of idx "qsize q - 1" "proc q"] i sz by auto
  let ?q' = "q\<lparr>proc := CArray 10 ((acell b)(nat (qsize q - 1) := None)), qsize := qsize q - 1\<rparr>"
  have "remove_from_queue q idx = Inr ?q'"
    using b(1,2) sz by (simp add: remove_from_queue_def aset_def in_bounds_def)
  moreover have "queue_ok ?q' \<and> queue_items ?q' = without (nat idx) ?xs"
  proof (rule queue_okI)
    fix j
    assume j: "j < length (without (nat idx) ?xs)"
    then have "j < length ?xs - 1" using lt by (simp add: length_without)
    then show "acell (proc ?q') j = Some (without (nat idx) ?xs ! j)"
      using b(3) [of j] lt i sz queue_item [OF ok, of j] queue_item [OF ok, of "Suc j"]
      by (auto simp: nth_without)
  qed (use lt sz in \<open>auto simp: length_without\<close>)
  ultimately show ?thesis by blast
qed

text \<open>The entries before \<open>idx\<close> stay, the rest loses the processes of that name.\<close>

definition survivors :: "kernel \<Rightarrow> string \<Rightarrow> int \<Rightarrow> nat list \<Rightarrow> nat list" where
  "survivors k name idx xs = take (nat idx) xs @ filter (\<lambda>p. \<not> named k name p) (drop (nat idx) xs)"

lemma survivors_skip:
  assumes "0 \<le> idx" "nat idx < length xs" "\<not> named k name (xs ! nat idx)"
  shows "survivors k name (idx + 1) xs = survivors k name idx xs"
proof -
  have "nat (idx + 1) = Suc (nat idx)" using assms(1) by simp
  then show ?thesis
    using assms(2,3) by (simp add: survivors_def take_Suc_conv_app_nth Cons_nth_drop_Suc [symmetric])
qed

lemma survivors_kill:
  assumes "0 \<le> idx" "nat idx < length xs" "named k name (xs ! nat idx)"
  shows "survivors k name idx (without (nat idx) xs) = survivors k name idx xs"
proof -
  have "drop (nat idx) xs = xs ! nat idx # drop (Suc (nat idx)) xs"
    using assms(2) by (simp add: Cons_nth_drop_Suc)
  then show ?thesis using assms(2,3) by (simp add: survivors_def without_def)
qed

lemma survivors_cong: "(\<And>p. named k' name p = named k name p) \<Longrightarrow> survivors k' name = survivors k name"
  by (simp add: survivors_def fun_eq_iff)

lemma kill_loop_step:
  assumes "queue_ok q" "0 \<le> idx" "idx < qsize q"
  shows "kill_loop msg memrg name idx q k =
    bindr (pcb_at k (queue_items q ! nat idx)) (\<lambda>x.
      if kill_name x = name then
        bindr (kill_memory (queue_items q ! nat idx) memrg (kprint F_kill_remaining [AI (qsize q)] k)) (\<lambda>k.
        bindr (remove_from_queue q idx) (\<lambda>q'.
        kill_loop msg memrg name idx q'
          (kprint F_kill_remaining [AI (qsize q')] (kprint msg [AU (p_pid x), AS (path x)] k))))
      else kill_loop msg memrg name (idx + 1) q k)"
  using assms queue_cell [OF assms] by (subst kill_loop.simps) simp

text \<open>One round: another process is passed over, a process of the name loses its memory and its entry.\<close>

lemma kill_skip:
  assumes "queue_ok q" "0 \<le> idx" "idx < qsize q" "procs k (queue_items q ! nat idx) = Some x" "kill_name x \<noteq> name"
  shows "kill_loop msg memrg name idx q k = kill_loop msg memrg name (idx + 1) q k"
  using assms by (simp add: kill_loop_step pcb_at_def)

lemma kill_one:
  assumes "queue_ok q" "0 \<le> idx" "idx < qsize q" "procs k (queue_items q ! nat idx) = Some x" "kill_name x = name"
    and t: "tame k (queue_items q ! nat idx)"
  shows "\<exists>q' k'. kill_loop msg memrg name idx q k = kill_loop msg memrg name idx q' k' \<and> drained k k' \<and>
    queue_ok q' \<and> queue_items q' = without (nat idx) (queue_items q) \<and> nat (qsize q' - idx) < nat (qsize q - idx)"
proof -
  let ?p = "queue_items q ! nat idx"
  obtain k1 where k1: "kill_memory ?p memrg (kprint F_kill_remaining [AI (qsize q)] k) = Inr k1" "drained k k1"
    using kill_memory_ok [of "kprint F_kill_remaining [AI (qsize q)] k" ?p memrg] t by auto
  obtain q1 where q1: "remove_from_queue q idx = Inr q1" "queue_ok q1" "queue_items q1 = without (nat idx) (queue_items q)"
    using remove_from_queue_ok [OF assms(1-3)] by blast
  let ?k2 = "kprint F_kill_remaining [AI (qsize q1)] (kprint msg [AU (p_pid x), AS (path x)] k1)"
  have "kill_loop msg memrg name idx q k = kill_loop msg memrg name idx q1 ?k2"
    using assms(4,5) k1(1) q1(1) by (simp add: kill_loop_step [OF assms(1-3)] pcb_at_def)
  moreover have "drained k ?k2" using k1(2) by simp
  moreover have "nat (qsize q1 - idx) < nat (qsize q - idx)"
    using remove_from_queue_size [OF q1(1)] assms(3) by simp
  ultimately show ?thesis using q1(2,3) by blast
qed

lemma drop_without: "i < length xs \<Longrightarrow> drop i (without i xs) = drop (Suc i) xs"
  by (simp add: without_def)

lemma kill_loop_ok:
  assumes "queue_ok q" "0 \<le> idx" "\<forall>p \<in> set (drop (nat idx) (queue_items q)). tame k p"
  shows "\<exists>q' k'. kill_loop msg memrg name idx q k = Inr (q', k') \<and> queue_ok q' \<and> drained k k' \<and>
    queue_items q' = survivors k name idx (queue_items q)"
  using assms
proof (induction "nat (qsize q - idx)" arbitrary: idx q k rule: less_induct)
  case less
  let ?xs = "queue_items q"
  show ?case
  proof (cases "idx < qsize q")
    case False
    then show ?thesis
      using less.prems by (subst kill_loop.simps) (simp add: survivors_def nat_le_iff)
  next
    case True
    have lt: "nat idx < length ?xs" using True less.prems(2) by simp
    have t: "tame k (?xs ! nat idx)" "\<forall>p \<in> set (drop (Suc (nat idx)) ?xs). tame k p"
      using less.prems(3) Cons_nth_drop_Suc [OF lt] by (metis list.set_intros)+
    then obtain x where x: "procs k (?xs ! nat idx) = Some x" by (auto simp: tame_def)
    show ?thesis
    proof (cases "kill_name x = name")
      case False
      have "nat (qsize q - (idx + 1)) < nat (qsize q - idx)" using True by simp
      from less.hyps [OF this less.prems(1), of k] t(2) less.prems(2) show ?thesis
        using survivors_skip [OF less.prems(2) lt, of k name] x False
        by (simp add: kill_skip [OF less.prems(1,2) True x False] named_def nat_add_distrib)
    next
      case nm: True
      obtain q1 k1 where q1: "kill_loop msg memrg name idx q k = kill_loop msg memrg name idx q1 k1" "drained k k1"
        "queue_ok q1" "queue_items q1 = without (nat idx) ?xs" "nat (qsize q1 - idx) < nat (qsize q - idx)"
        using kill_one [OF less.prems(1,2) True x nm t(1)] by blast
      have "\<forall>p \<in> set (drop (nat idx) (queue_items q1)). tame k1 p"
        using t(2) q1(2) by (simp add: q1(4) drop_without [OF lt] drained_def)
      from less.hyps [OF q1(5,3) less.prems(2) this] obtain q' k' where
        q': "kill_loop msg memrg name idx q1 k1 = Inr (q', k')" "queue_ok q'" "drained k1 k'"
        "queue_items q' = survivors k1 name idx (queue_items q1)" by blast
      have "survivors k1 name = survivors k name" by (rule survivors_cong) (rule named_drained [OF q1(2)])
      then have "queue_items q' = survivors k name idx ?xs"
        using q'(4) survivors_kill [OF less.prems(2) lt, of k name] x nm by (simp add: q1(4) named_def)
      then show ?thesis using q1(1,2) q'(1-3) drained_trans by auto
    qed
  qed
qed

text \<open>A freed process on the queue is looked at all the same.\<close>

lemma kill_loop_freed:
  assumes "queue_ok q" "0 \<le> idx" "\<exists>p \<in> set (drop (nat idx) (queue_items q)). procs k p = None"
    and "\<forall>p \<in> set (drop (nat idx) (queue_items q)). procs k p = None \<or> tame k p"
  shows "kill_loop msg memrg name idx q k = Inl UseAfterFree"
  using assms
proof (induction "nat (qsize q - idx)" arbitrary: idx q k rule: less_induct)
  case less
  let ?xs = "queue_items q"
  have True: "idx < qsize q"
    using less.prems(3) by (rule_tac ccontr) (simp add: nat_le_iff)
  have lt: "nat idx < length ?xs" using True less.prems(2) by simp
  have dr: "drop (nat idx) ?xs = ?xs ! nat idx # drop (Suc (nat idx)) ?xs"
    using lt by (simp add: Cons_nth_drop_Suc)
  show ?case
  proof (cases "procs k (?xs ! nat idx)")
    case None
    then show ?thesis by (simp add: kill_loop_step [OF less.prems(1,2) True] pcb_at_def)
  next
    case (Some x)
    then have t: "tame k (?xs ! nat idx)" using less.prems(4) unfolding dr by simp
    have rest: "\<exists>p \<in> set (drop (Suc (nat idx)) ?xs). procs k p = None"
      "\<forall>p \<in> set (drop (Suc (nat idx)) ?xs). procs k p = None \<or> tame k p"
      using less.prems(3,4) Some unfolding dr by auto
    show ?thesis
    proof (cases "kill_name x = name")
      case False
      have "nat (qsize q - (idx + 1)) < nat (qsize q - idx)" using True by simp
      from less.hyps [OF this less.prems(1), of k] rest less.prems(2)
      show ?thesis by (simp add: kill_skip [OF less.prems(1,2) True Some False] nat_add_distrib)
    next
      case nm: True
      obtain q1 k1 where q1: "kill_loop msg memrg name idx q k = kill_loop msg memrg name idx q1 k1" "drained k k1"
        "queue_ok q1" "queue_items q1 = without (nat idx) ?xs" "nat (qsize q1 - idx) < nat (qsize q - idx)"
        using kill_one [OF less.prems(1,2) True Some nm t] by blast
      have "procs k1 p = None \<longleftrightarrow> procs k p = None" "tame k p \<Longrightarrow> tame k1 p" for p
        using drained_procs(1) [OF q1(2)] q1(2) by (simp_all add: drained_def)
      then show ?thesis unfolding q1(1)
        using rest by (intro less.hyps [OF q1(5,3) less.prems(2)]) (auto simp: q1(4) drop_without [OF lt])
    qed
  qed
qed

section \<open>The name\<close>

text \<open>
  \<open>spells k p r bs\<close>: the region \<open>r\<close> of process \<open>p\<close> holds the bytes \<open>bs\<close> and then \<open>0xFF\<close> (which
  \<open>libread\<close> extends to -1, the end mark of the loop), all below its break; the name fits the
  buffer, and the process has more instructions than the name has bytes (the loop's other limit).
\<close>

definition spells :: "kernel \<Rightarrow> nat \<Rightarrow> u32 \<Rightarrow> BYTE list \<Rightarrow> bool" where
  "spells k p r bs \<longleftrightarrow> (\<exists>x M. procs k p = Some x \<and> p_mm x = Some M \<and> linked x \<and> sym_id r \<and>
    vm_ok (others_of k p) (caller_of x M k) \<and> -1 \<notin> set bs \<and> length bs < 100 \<and>
    length bs < unat (code_size x) \<and>
    (\<forall>i \<le> length bs. lib_addr M r (of_nat i) \<in> vaddrs (caller_of x M k) \<and>
       vm_rd (caller_of x M k) (lib_addr M r (of_nat i)) = Inr ((bs @ [-1]) ! i)))"

lemma u32_of_byte_m1: "u32_of_byte b = -1 \<longleftrightarrow> b = -1"
proof
  assume "u32_of_byte b = -1"
  then have "byte_of_u32 (u32_of_byte b) = byte_of_u32 (-1)" by (rule arg_cong)
  moreover have "byte_of_u32 (-1) = -1"
    by (rule bit_word_eqI) (simp add: byte_of_u32_def bit_simps)
  ultimately show "b = -1" by (simp only: byte_of_u32_of_byte)
next
  assume "b = -1"
  then show "u32_of_byte b = -1" by (simp add: u32_of_byte_def)
qed

lemma index_in_code:
  assumes "n < 100" "n < unat (w :: u32)"
  shows "\<not> w < u32_of_int (int n + 1)"
proof -
  have "int n < int (unat w)" using assms(2) by (simp only: of_nat_less_iff)
  then have "int n < uint w" by simp
  then show ?thesis using assms(1) by (simp add: word_less_def uint_u32_of_int)
qed

lemma store_same:
  assumes "procs k p = Some x" "p_mm x = Some M"
  shows "store_caller p x ((caller_of x M k)\<lparr>stdout := out\<rparr>) k = k\<lparr>kout := out\<rparr>"
proof -
  have "x\<lparr>p_mm := Some M\<rparr> = x" using assms(2) by simp
  then have "(procs k)(p := Some (x\<lparr>p_mm := Some M\<rparr>)) = procs k" using assms(1) by auto
  then show ?thesis by (simp add: store_caller_def kernel_simps)
qed

text \<open>One call of \<open>libread\<close> in the loop, and what the message it prints leaves unchanged.\<close>

lemma name_read:
  assumes x: "procs k p = Some x" "p_mm x = Some M" "sym_id r"
    and vm: "vm_ok (others_of k p) (caller_of x M k)"
    and b: "lib_addr M r (of_nat n) \<in> vaddrs (caller_of x M k)" "vm_rd (caller_of x M k) (lib_addr M r (of_nat n)) = Inr b"
  shows "\<exists>out. as_caller k p (\<lambda>c. bindr (libread c r (u32_of_int (int n))) (\<lambda>(val, dst, c). Inr (dst, c))) =
    Inr (Some (u32_of_byte b), k\<lparr>kout := out\<rparr>)"
proof -
  have off: "u32_of_int (int n) = of_nat n" by (simp add: u32_of_int_def)
  obtain out where "libread (caller_of x M k) r (of_nat n) = Inr (0, Some (u32_of_byte b), (caller_of x M k)\<lparr>stdout := out\<rparr>)"
    using libread_run [OF vm x(3), of "of_nat n" b] b by (auto simp: kernel_simps)
  then show ?thesis using x(1,2) store_same [OF x(1,2)] by (auto simp: as_caller_def pcb_at_def off)
qed

lemma print_unchanged:
  assumes "vm_ok (others_of k p) (caller_of x M k)"
  shows "vm_ok (others_of (k\<lparr>kout := out\<rparr>) p) (caller_of x M (k\<lparr>kout := out\<rparr>))"
    and "vaddrs (caller_of x M (k\<lparr>kout := out\<rparr>)) = vaddrs (caller_of x M k)"
    and "a \<in> vaddrs (caller_of x M k) \<Longrightarrow> vm_rd (caller_of x M (k\<lparr>kout := out\<rparr>)) a = vm_rd (caller_of x M k) a"
proof -
  have "others_of (k\<lparr>kout := out\<rparr>) p = others_of k p" by (simp add: others_of_def holds_def)
  then show v: "vm_ok (others_of (k\<lparr>kout := out\<rparr>) p) (caller_of x M (k\<lparr>kout := out\<rparr>))"
    using assms vm_ok_stdout [of "others_of k p" out "caller_of x M k"] by (simp add: caller_of_def)
  show va: "vaddrs (caller_of x M (k\<lparr>kout := out\<rparr>)) = vaddrs (caller_of x M k)"
    by (simp add: vaddrs_def kernel_simps)
  show "vm_rd (caller_of x M (k\<lparr>kout := out\<rparr>)) a = vm_rd (caller_of x M k) a" if "a \<in> vaddrs (caller_of x M k)"
    using vm_rd_cell [OF assms that] vm_rd_cell [OF v that [folded va]] by (simp add: caller_of_def)
qed

lemma name_loop_reads:
  assumes x: "procs k p = Some x" "p_mm x = Some M" "sym_id r"
    and vm: "vm_ok (others_of k p) (caller_of x M k)"
    and bs: "-1 \<notin> set bs" "length cs + length bs < 100" "length cs + length bs < unat (code_size x)"
    and mem: "\<forall>i \<le> length bs. lib_addr M r (of_nat (length cs + i)) \<in> vaddrs (caller_of x M k) \<and>
       vm_rd (caller_of x M k) (lib_addr M r (of_nat (length cs + i))) = Inr ((bs @ [-1]) ! i)"
    and data: "data \<noteq> -1"
  shows "\<exists>out. name_loop p r data cs k = Inr (cs @ bs @ [0], k\<lparr>kout := out\<rparr>)"
  using x vm bs mem data
proof (induction bs arbitrary: cs data k)
  case Nil
  have sz: "\<not> code_size x < u32_of_int (int (length cs) + 1)"
    using Nil.prems(6,7) by (intro index_in_code) simp_all
  show ?case
    using name_read [OF Nil.prems(1-4), of "length cs" "-1"] Nil.prems(1,6,8,9) sz
    by (subst name_loop.simps)
      (auto simp: pcb_at_def name_loop.simps [of p r "-1"] u32_of_byte_m1 [THEN iffD2] add.commute)
next
  case (Cons b bs)
  have at0: "lib_addr M r (of_nat (length cs)) \<in> vaddrs (caller_of x M k)"
    "vm_rd (caller_of x M k) (lib_addr M r (of_nat (length cs))) = Inr b"
    using Cons.prems(8) [rule_format, of 0] by simp_all
  from name_read [OF Cons.prems(1-4) this] obtain out where
    st: "as_caller k p (\<lambda>c. bindr (libread c r (u32_of_int (int (length cs)))) (\<lambda>(val, dst, c). Inr (dst, c))) =
      Inr (Some (u32_of_byte b), k\<lparr>kout := out\<rparr>)" by blast
  have b: "u32_of_byte b \<noteq> -1" using Cons.prems(5) by (auto simp: u32_of_byte_m1)
  have sz: "\<not> code_size x < u32_of_int (int (length cs) + 1)"
    using Cons.prems(6,7) by (intro index_in_code) simp_all
  let ?k1 = "k\<lparr>kout := out\<rparr>" and ?cs = "cs @ [b]"
  note same = print_unchanged [OF Cons.prems(4), where out = out]
  have "\<exists>out'. name_loop p r (u32_of_byte b) ?cs ?k1 = Inr (?cs @ bs @ [0], ?k1\<lparr>kout := out'\<rparr>)"
  proof (rule Cons.IH)
    have "lib_addr M r (of_nat (length cs + Suc i)) \<in> vaddrs (caller_of x M k) \<and>
        vm_rd (caller_of x M k) (lib_addr M r (of_nat (length cs + Suc i))) = Inr ((bs @ [-1]) ! i)" if "i \<le> length bs" for i
      using Cons.prems(8) [rule_format, of "Suc i"] that by simp
    then show "\<forall>i \<le> length bs. lib_addr M r (of_nat (length ?cs + i)) \<in> vaddrs (caller_of x M ?k1) \<and>
       vm_rd (caller_of x M ?k1) (lib_addr M r (of_nat (length ?cs + i))) = Inr ((bs @ [-1]) ! i)"
      by (auto simp only: same(2,3) length_append_singleton add_Suc add_Suc_right)
  qed (use Cons.prems b same(1) in simp_all)
  then show ?case
    using Cons.prems(1,6,9) st sz b
    by (subst name_loop.simps) (simp add: pcb_at_def add.commute)
qed

text \<open>The two queues \<open>killall\<close> walks, in a scheduler as \<open>init_scheduler\<close> sets it up.\<close>

definition kill_queues :: "kernel \<Rightarrow> bool" where
  "kill_queues k \<longleftrightarrow> alen (mlq_ready_queue (ksched k)) = 140 \<and>
    queue_ok (acell (mlq_ready_queue (ksched k)) 0) \<and> queue_ok (running_list (ksched k))"

lemma c_string_end: "c_string (bs @ [0]) = c_string bs"
proof (cases "0 \<in> set bs")
  case True
  then have "\<not> (\<forall>b \<in> set bs. b \<noteq> 0)" by blast
  then show ?thesis by (simp only: c_string_def takeWhile_append if_False)
next
  case False
  then have all: "\<forall>b \<in> set bs. b \<noteq> 0" by blast
  then have tw: "takeWhile (\<lambda>b. b \<noteq> 0) bs = bs" by (simp only: takeWhile_eq_all_conv)
  show ?thesis by (simp add: c_string_def takeWhile_append all tw)
qed

text \<open>After the name is read and the first queue is done.\<close>

lemma sys_killall_first:
  assumes sp: "spells k p r bs" and kq: "kill_queues k"
    and zs: "\<forall>q \<in> set (level (ksched k) 0). tame k q"
  shows "\<exists>q k1. queue_ok q \<and> drained k k1 \<and>
    queue_items q = filter (\<lambda>q. \<not> named k (c_string bs) q) (level (ksched k) 0) \<and>
    sys_killall k p \<lparr>a1 = r, a2 = y, a3 = z\<rparr> =
      (let k = k1\<lparr>ksched := (ksched k)\<lparr>mlq_ready_queue :=
           CArray 140 ((acell (mlq_ready_queue (ksched k)))(0 := q))\<rparr>\<rparr> in
       bindr (kill_loop F_kill_running r (c_string bs) 0 (running_list (ksched k)) k) (\<lambda>(rl, k).
       Inr (0, k\<lparr>ksched := (ksched k)\<lparr>running_list := rl\<rparr>\<rparr>)))"
proof -
  obtain x M where x: "procs k p = Some x" "p_mm x = Some M" "linked x" "sym_id r"
    "vm_ok (others_of k p) (caller_of x M k)" "-1 \<notin> set bs" "length bs < 100"
    "length bs < unat (code_size x)"
    "\<forall>i \<le> length bs. lib_addr M r (of_nat i) \<in> vaddrs (caller_of x M k) \<and>
       vm_rd (caller_of x M k) (lib_addr M r (of_nat i)) = Inr ((bs @ [-1]) ! i)"
    using sp unfolding spells_def by blast
  obtain out where nl: "name_loop p r 0 [] k = Inr (bs @ [0], k\<lparr>kout := out\<rparr>)"
    using name_loop_reads [OF x(1,2,4-6), of "[]" 0] x(7-9) by auto
  let ?k = "kprint F_kill_name [AU r, AS (c_string bs)] (k\<lparr>kout := out\<rparr>)"
  let ?mlq = "mlq_ready_queue (ksched k)"
  have same: "tame ?k q = tame k q" "named ?k n q = named k n q" "drained ?k k' = drained k k'" for q n k'
    by (simp_all add: tame_def named_def drained_def kernel_simps)
  have al: "alen ?mlq = 140" "queue_ok (acell ?mlq 0)" using kq by (simp_all add: kill_queues_def)
  obtain q k1 where q: "kill_loop F_kill_ready r (c_string bs) 0 (acell ?mlq 0) ?k = Inr (q, k1)"
    "queue_ok q" "drained ?k k1" "queue_items q = survivors ?k (c_string bs) 0 (queue_items (acell ?mlq 0))"
    using kill_loop_ok [OF al(2), of 0 ?k F_kill_ready r "c_string bs"] zs unfolding level_def same by auto
  have k1: "ksched k1 = ksched k" using q(3) by (simp add: drained_def kernel_simps)
  have "procs ?k p = Some x" using x(1) by (simp add: kernel_simps)
  then have "sys_killall k p \<lparr>a1 = r, a2 = y, a3 = z\<rparr> =
      (let k = k1\<lparr>ksched := (ksched k)\<lparr>mlq_ready_queue := CArray 140 ((acell ?mlq)(0 := q))\<rparr>\<rparr> in
       bindr (kill_loop F_kill_running r (c_string bs) 0 (running_list (ksched k)) k) (\<lambda>(rl, k).
       Inr (0, k\<lparr>ksched := (ksched k)\<lparr>running_list := rl\<rparr>\<rparr>)))"
    using nl x(3) al q(1) k1
    by (simp add: sys_killall_def Let_def c_string_end pcb_at_def aget_def aset_def in_bounds_def
        kernel_simps)
  then show ?thesis
    using q(2-4) by (intro exI [of _ q] exI [of _ k1]) (simp add: same survivors_def level_def)
qed

lemma with_sched_same [simp]:
  "tame (k\<lparr>ksched := s\<rparr>) q = tame k q" "named (k\<lparr>ksched := s\<rparr>) n q = named k n q"
  by (simp_all add: tame_def named_def)

section \<open>Properties\<close>

text \<open>
  C22: \<open>__sys_killall\<close> on a region that spells a name. It returns 0; from the ready queue of
  priority 0 and from the running list it removes exactly the processes called \<open>P<pid>\<close> like that
  name, keeping the order of the rest. Every other ready queue stays as it was, whatever
  processes of that name wait there: the pointer to the array of queues is used as if it were one
  queue. What becomes of the memory of the processes is not part of this: \<open>free_pcb_memph_frames\<close>
  shows that the wrong frames are returned.
\<close>

theorem killall_queues:
  assumes "spells k p r bs" "kill_queues k"
    and "\<forall>q \<in> set (level (ksched k) 0) \<union> set (queue_items (running_list (ksched k))). tame k q"
  shows "\<exists>k'. sys_killall k p \<lparr>a1 = r, a2 = y, a3 = z\<rparr> = Inr (0, k') \<and>
    level (ksched k') 0 = filter (\<lambda>q. \<not> named k (c_string bs) q) (level (ksched k) 0) \<and>
    queue_items (running_list (ksched k')) =
      filter (\<lambda>q. \<not> named k (c_string bs) q) (queue_items (running_list (ksched k))) \<and>
    (\<forall>l > 0. level (ksched k') l = level (ksched k) l) \<and>
    ready_queue (ksched k') = ready_queue (ksched k) \<and> slot (ksched k') = slot (ksched k)"
proof -
  let ?f = "filter (\<lambda>q. \<not> named k (c_string bs) q)"
  obtain q k1 where q: "queue_ok q" "drained k k1" "queue_items q = ?f (level (ksched k) 0)"
    "sys_killall k p \<lparr>a1 = r, a2 = y, a3 = z\<rparr> =
      (let k = k1\<lparr>ksched := (ksched k)\<lparr>mlq_ready_queue :=
           CArray 140 ((acell (mlq_ready_queue (ksched k)))(0 := q))\<rparr>\<rparr> in
       bindr (kill_loop F_kill_running r (c_string bs) 0 (running_list (ksched k)) k) (\<lambda>(rl, k).
       Inr (0, k\<lparr>ksched := (ksched k)\<lparr>running_list := rl\<rparr>\<rparr>)))"
    using sys_killall_first [OF assms(1,2)] assms(3) by blast
  let ?k2 = "k1\<lparr>ksched := (ksched k)\<lparr>mlq_ready_queue :=
           CArray 140 ((acell (mlq_ready_queue (ksched k)))(0 := q))\<rparr>\<rparr>"
  have rl: "queue_ok (running_list (ksched k))" using assms(2) by (simp add: kill_queues_def)
  have "\<forall>q \<in> set (queue_items (running_list (ksched k))). tame ?k2 q"
    using assms(3) q(2) by (auto simp: drained_def)
  then obtain rl' k3 where rl': "kill_loop F_kill_running r (c_string bs) 0 (running_list (ksched k)) ?k2 = Inr (rl', k3)"
    "drained ?k2 k3" "queue_items rl' = survivors ?k2 (c_string bs) 0 (queue_items (running_list (ksched k)))"
    using kill_loop_ok [OF rl, of 0 ?k2 F_kill_running r "c_string bs"] by auto
  have "queue_items rl' = ?f (queue_items (running_list (ksched k)))"
    using rl'(3) named_drained [OF q(2)] by (simp add: survivors_def)
  moreover have "ksched k3 = ksched ?k2" using rl'(2) by (simp add: drained_def)
  ultimately show ?thesis
    using q(3,4) rl'(1) by (simp add: level_def)
qed

text \<open>
  For the witnesses: process 0 (number 1) has the name \<open>P2\<close> in its first region, and asks to
  kill process 1 (number 2).
\<close>

definition p2_cells :: "nat \<Rightarrow> BYTE" where
  "p2_cells n = (if n = 0 then 80 else if n = 1 then 50 else if n = 2 then -1 else 0)"

definition killer :: "(nat \<Rightarrow> pcb_t option) \<Rightarrow> nat list \<Rightarrow> kernel" where
  "killer ps zs = (two_procs p2_cells [blank_inst, blank_inst, blank_inst])
    \<lparr>procs := ps, ksched := boot_sched zs [0, 1]\<rparr>"

definition killer_pcb :: pcb_t where
  "killer_pcb = pcb_page 0 [blank_inst, blank_inst, blank_inst]"

lemma killer_name: "c_string [80, 50] = ''P2''" "kill_name (pcb_page 1 []) = ''P2''"
  "kill_name killer_pcb = ''P1''"
proof -
  show "c_string [80, 50] = ''P2''" by (simp add: c_string_def char_of_def bit_Suc_0_iff)
  have "int_of_u32 2 = 2" "int_of_u32 1 = 1" by (simp_all add: int_of_u32_small)
  then show "kill_name (pcb_page 1 []) = ''P2''" "kill_name killer_pcb = ''P1''"
    by (simp_all add: kill_name_def pcb_page_def killer_pcb_def u32_of_int_def show_int_def
        show_nat.simps char_of_def bit_Suc_0_iff)
qed

lemma killer_spells:
  assumes "ps 0 = Some killer_pcb" "\<And>q x. ps q = Some x \<Longrightarrow> q \<noteq> 0 \<Longrightarrow> q = 1 \<and> x = pcb_page 1 []"
  shows "spells (killer ps zs) 0 0 [80, 50]"
proof -
  let ?k = "killer ps zs" and ?M = "mm_page 0" and ?c = "caller_of killer_pcb (mm_page 0) (killer ps zs)"
  have "kernel_ok (two_procs p2_cells [blank_inst, blank_inst, blank_inst])" by (rule two_procs_ok)
  then have ok: "kernel_ok ?k"
  proof (rule kernel_ok_mono)
    fix p M assume "holds ?k p M"
    then show "holds (two_procs p2_cells [blank_inst, blank_inst, blank_inst]) p M"
      using assms(1) assms(2) [of p] by (cases "p = 0") (auto simp: holds_def killer_def two_procs_def killer_pcb_def)
  qed (simp add: killer_def)
  have M: "p_mm killer_pcb = Some ?M" by (simp add: killer_pcb_def pcb_page_def)
  have "holds ?k 0 ?M" using assms(1) M by (simp add: holds_def killer_def)
  then have vm: "vm_ok (others_of ?k 0) ?c" using kernel_ok_view [OF ok] proc_ok_vm_ok by blast
  have fr: "page_frame ?M 0 = 0" using mm_page_facts(3,4) [of 0] by (simp add: frame_list_def)
  have rd: "lib_addr ?M 0 (of_nat i) \<in> vaddrs ?c \<and>
      vm_rd ?c (lib_addr ?M 0 (of_nat i)) = Inr (p2_cells i)" if "i \<le> 2" for i
  proof -
    have a: "lib_addr ?M 0 (of_nat i) = int i"
      using that by (simp add: lib_addr_def mm_page_facts unsigned_of_nat take_bit_nat_eq_self)
    then have v: "lib_addr ?M 0 (of_nat i) \<in> vaddrs ?c"
      using that by (simp add: vaddrs_def kernel_simps mm_page_facts)
    have "vphys ?M (int i) = int i" using that fr by (simp add: vphys_def)
    then show ?thesis
      using vm_rd_cell [OF vm v] v a that phy_read_random [of "mram ?c" "int i"] vm
      by (simp add: kernel_simps killer_def two_procs_def dev_page_def phy_addrs_def vm_ok_def frame_inv_def)
  qed
  have "vm_rd ?c (lib_addr ?M 0 (of_nat i)) = Inr (([80, 50] @ [-1]) ! i)" if "i \<le> 2" for i
    using rd [OF that] that by (auto simp: p2_cells_def le_Suc_eq numeral_2_eq_2)
  then show ?thesis
    using assms(1) M vm rd unfolding spells_def
    by (intro exI [of _ killer_pcb] exI [of _ ?M])
      (auto simp: killer_def killer_pcb_def pcb_page_def sym_id_def)
qed

lemma killer_queues: "kill_queues (killer ps [1])" "kill_queues (killer ps [])"
  "level (ksched (killer ps [1])) 0 = [1]" "level (ksched (killer ps [])) 0 = []"
  "queue_items (running_list (ksched (killer ps zs))) = [0, 1]"
  using queue_of_ok [of "[1 :: nat]"] queue_of_ok [of "[] :: nat list"] queue_of_ok [of "[0, 1 :: nat]"]
  by (simp_all add: kill_queues_def killer_def boot_sched_def level_def)

lemma killer_tame: "ps q = Some (pcb_page f is) \<Longrightarrow> f \<in> {0, 1} \<Longrightarrow> tame (killer ps zs) q"
  using mm_page_facts(1) [of f] by (auto simp: tame_def killer_def pcb_page_def)

theorem killall_queues_witness:
  "\<exists>k'. sys_killall (killer [0 \<mapsto> killer_pcb, 1 \<mapsto> pcb_page 1 []] [1]) 0 \<lparr>a1 = 0, a2 = 0, a3 = 0\<rparr> = Inr (0, k') \<and>
    level (ksched k') 0 = [] \<and> queue_items (running_list (ksched k')) = [0]"
proof -
  let ?ps = "[0 \<mapsto> killer_pcb, 1 \<mapsto> pcb_page 1 []] :: nat \<Rightarrow> pcb_t option"
  have sp: "spells (killer ?ps [1]) 0 0 [80, 50]" by (rule killer_spells) (auto split: if_splits)
  have "tame (killer ?ps [1]) 0" "tame (killer ?ps [1]) 1"
    by (rule killer_tame [of _ _ 0 "[blank_inst, blank_inst, blank_inst]"], simp_all add: killer_pcb_def)
      (rule killer_tame [of _ _ 1 "[]"], simp_all)
  moreover have "named (killer ?ps [1]) ''P2'' 1" "\<not> named (killer ?ps [1]) ''P2'' 0"
    by (simp_all add: named_def killer_def killer_name)
  ultimately show ?thesis
    using killall_queues [OF sp killer_queues(1), of 0 0] by (auto simp: killer_queues killer_name simp del: One_nat_def)
qed

text \<open>
  C29: \<open>__sys_killall\<close> after a process has finished. \<open>cpu_routine\<close> frees the block of a finished
  process, but nothing removes it from the running list; as soon as one such process is on the
  list, \<open>killall\<close> reads its freed block, whatever name it was asked to kill.
\<close>

theorem killall_use_after_free:
  assumes "spells k p r bs" "kill_queues k" "\<forall>q \<in> set (level (ksched k) 0). tame k q"
    and "\<forall>q \<in> set (queue_items (running_list (ksched k))). procs k q = None \<or> tame k q"
    and "\<exists>q \<in> set (queue_items (running_list (ksched k))). procs k q = None"
  shows "sys_killall k p \<lparr>a1 = r, a2 = y, a3 = z\<rparr> = Inl UseAfterFree"
proof -
  obtain q k1 where q: "drained k k1"
    "sys_killall k p \<lparr>a1 = r, a2 = y, a3 = z\<rparr> =
      (let k = k1\<lparr>ksched := (ksched k)\<lparr>mlq_ready_queue :=
           CArray 140 ((acell (mlq_ready_queue (ksched k)))(0 := q))\<rparr>\<rparr> in
       bindr (kill_loop F_kill_running r (c_string bs) 0 (running_list (ksched k)) k) (\<lambda>(rl, k).
       Inr (0, k\<lparr>ksched := (ksched k)\<lparr>running_list := rl\<rparr>\<rparr>)))"
    using sys_killall_first [OF assms(1-3)] by blast
  let ?k2 = "k1\<lparr>ksched := (ksched k)\<lparr>mlq_ready_queue :=
           CArray 140 ((acell (mlq_ready_queue (ksched k)))(0 := q))\<rparr>\<rparr>"
  have rl: "queue_ok (running_list (ksched k))" using assms(2) by (simp add: kill_queues_def)
  have "procs ?k2 q' = None \<longleftrightarrow> procs k q' = None" "tame k q' \<Longrightarrow> tame ?k2 q'" for q'
    using drained_procs(1) [OF q(1)] q(1) by (simp_all add: drained_def)
  then have "kill_loop F_kill_running r (c_string bs) 0 (running_list (ksched k)) ?k2 = Inl UseAfterFree"
    using assms(4,5) by (intro kill_loop_freed [OF rl]) auto
  then show ?thesis using q(2) by simp
qed

theorem killall_use_after_free_witness:
  "sys_killall (killer [0 \<mapsto> killer_pcb] []) 0 \<lparr>a1 = 0, a2 = 0, a3 = 0\<rparr> = Inl UseAfterFree"
proof -
  let ?ps = "[0 \<mapsto> killer_pcb] :: nat \<Rightarrow> pcb_t option"
  have sp: "spells (killer ?ps []) 0 0 [80, 50]" by (rule killer_spells) (auto split: if_splits)
  have "tame (killer ?ps []) 0"
    by (rule killer_tame [of _ _ 0 "[blank_inst, blank_inst, blank_inst]"], simp_all add: killer_pcb_def)
  moreover have "procs (killer ?ps []) 1 = None" by (simp add: killer_def)
  ultimately show ?thesis
    using killall_use_after_free [OF sp killer_queues(2), of 0 0] by (auto simp: killer_queues simp del: One_nat_def)
qed

end
