(* ===== verification/Memmap.thy ===== *)
theory Memmap
  imports Cpu
begin

text \<open>
  The \<open>memmap\<close> system call (\<open>src/sys_mem.c\<close>) used directly by a program: the kernel takes a
  physical address from it and does not ask whose frame that is.
\<close>

definition poke :: "int \<Rightarrow> BYTE \<Rightarrow> inst_t" where
  "poke a v = blank_inst\<lparr>opcode := SYSCALL, arg_0 := 17, arg_1 := u32_of_int SYSMEM_IO_WRITE, arg_2 := u32_of_int a,
     arg_3 := u32_of_byte v\<rparr>"

lemma sys_memmap_poke:
  assumes "dev_ok (mram c)" "a \<in> phy_addrs (mram c)" "i32 a = a"
  shows "\<exists>mp. sys_memmap c \<lparr>a1 = u32_of_int SYSMEM_IO_WRITE, a2 = u32_of_int a, a3 = u32_of_byte v\<rparr> =
      Inr (0, \<lparr>a1 = u32_of_int SYSMEM_IO_WRITE, a2 = u32_of_int a, a3 = u32_of_byte v\<rparr>, c\<lparr>mram := mp\<rparr>) \<and>
    phy_write (mram c) a v = Inr mp"
proof -
  obtain mp where mp: "phy_write (mram c) a v = Inr mp" using phy_write_random [OF assms(1,2)] by blast
  then show ?thesis using sys_memmap_write [where c = c and x = a and y = 0 and v = v] assms(3) by (simp add: memmap_regs_def)
qed

lemma kernel_ok_poke:
  assumes k: "kernel_ok k" "procs k p = Some x" "p_mm x = Some M"
    and w: "phy_write (Some (ram k)) a v = Inr mp" "a \<in> phy_addrs (Some (ram k))"
  shows "kernel_ok (store_caller p x ((caller_of x M k)\<lparr>mram := mp\<rparr>) k)"
proof (rule kernel_ok_store [OF k(1)])
  let ?c = "caller_of x M k"
  show "holds k p M" using k(2,3) by (simp add: holds_def)
  have dev: "dev_ok (Some (ram k))" using k(1) by (simp add: kernel_ok_def)
  have mp: "dev_ok mp" "phy_addrs mp = phy_addrs (Some (ram k))" using phy_write_random [OF dev w(2), of v] w(1) by auto
  have view: "proc_ok (others_of k p) ?c" by (rule process_view [OF k])
  then have "vm_ok (others_of k p) (?c\<lparr>mram := mp\<rparr>)"
    using mp w(1) by (intro vm_ok_write [of _ ?c a v] proc_ok_vm_ok) (simp_all add: kernel_simps)
  then show "keeps (others_of k p) ?c (?c\<lparr>mram := mp\<rparr>)"
    using view mp(2) by (simp add: keeps_def proc_ok_def vm_ok_def kernel_simps)
qed

lemma run_poke:
  assumes k: "kernel_ok k" "procs k p = Some x" "p_mm x = Some M" "code_ok x" "pc x < code_size x"
    and i: "next_ins x = poke a v" "a \<in> phy_addrs (Some (ram k))" "i32 a = a"
  shows "\<exists>k'. run k p = Inr (0, k') \<and> kernel_ok k' \<and> same_but p k k' \<and>
    (\<forall>b. phy_read (Some (ram k')) b = (if b = a then Inr v else phy_read (Some (ram k)) b))"
proof -
  define x1 where "x1 = x\<lparr>pc := pc x + 1\<rparr>"
  define k1 where "k1 = set_pcb p x1 k"
  have c1: "calm p k k1" unfolding k1_def by (rule calm_advance [OF k(1,2)]) (simp add: x1_def)
  then have ok1: "kernel_ok k1" and x1: "procs k1 p = Some x1" "p_mm x1 = Some M" and r: "ram k1 = ram k"
    using k(3) by (simp_all add: calm_def k1_def x1_def kernel_simps)
  let ?c = "caller_of x1 M k1"
  have dev: "dev_ok (Some (ram k))" using k(1) by (simp add: kernel_ok_def)
  obtain mp where mp: "phy_write (Some (ram k)) a v = Inr mp" "dev_ok mp"
    "\<forall>b. phy_read mp b = (if b = a then Inr v else phy_read (Some (ram k)) b)"
    using phy_write_random [OF dev i(2)] by blast
  define k' where "k' = store_caller p x1 (?c\<lparr>mram := mp\<rparr>) k1"
  have "exec_ins k1 p (poke a v) = Inr (0, k')"
    using sys_memmap_poke [of ?c a v] dev i(2,3) mp(1) r x1
    by (auto simp: exec_ins_def poke_def libsyscall_memmap as_caller_def pcb_at_def kernel_simps k'_def)
  then have "run k p = Inr (0, k')"
    using i(1) by (simp only: run_def run_fetch [OF k(2,4,5)] bindr_simps Let_def k1_def x1_def if_False)
  moreover have "kernel_ok k'"
    unfolding k'_def using mp(1) i(2) r by (intro kernel_ok_poke ok1 x1) simp_all
  moreover have "same_but p k k'" by (simp add: same_but_def k'_def k1_def kernel_simps)
  moreover have "Some (ram k') = mp" using mp(2) by (auto elim!: dev_okE simp: k'_def kernel_simps)
  ultimately show ?thesis using mp(3) by auto
qed

section \<open>Properties\<close>

text \<open>
  C18: the \<open>memmap\<close> system call breaks the isolation of processes. When the next instruction of
  process \<open>p\<close> is the call 17 with the operation \<open>SYSMEM_IO_WRITE\<close>, any byte that another process
  \<open>q\<close> reads can be its target: the instruction returns 0 and from then on \<open>q\<close> reads the value
  \<open>p\<close> chose.
\<close>

theorem memmap_breach:
  assumes "kernel_ok k" "procs k p = Some x" "p_mm x = Some M" "code_ok x" "pc x < code_size x"
    and "q \<noteq> p" "procs k q = Some y" "p_mm y = Some N" "in_heap (caller_of y N k) s off"
    and "next_ins x = poke (vphys N (lib_addr N s off)) v"
  shows "\<exists>k' c'. run k p = Inr (0, k') \<and> kernel_ok k' \<and> procs k' q = Some y \<and>
    libread (caller_of y N k') s off = Inr (0, Some (u32_of_byte v), c')"
proof -
  let ?a = "lib_addr N s off" and ?c = "caller_of y N k"
  have view: "vm_ok (others_of k q) ?c" by (rule proc_ok_vm_ok [OF process_view [OF assms(1,7,8)]])
  have a: "?a \<in> vaddrs ?c" "sym_id s" using assms(9) by (simp_all add: in_heap_def kernel_simps)
  have cell: "vphys N ?a \<in> phy_addrs (Some (ram k))" using vaddr_frame(4) [OF view a(1)] by (simp add: kernel_simps)
  obtain k' where k': "run k p = Inr (0, k')" "kernel_ok k'" "same_but p k k'"
    "phy_read (Some (ram k')) (vphys N ?a) = Inr v"
    using run_poke [OF assms(1-5,10) cell vphys_small] by auto
  let ?c' = "caller_of y N k'"
  have q: "procs k' q = Some y" using k'(3) assms(6,7) by (simp add: same_but_def)
  have view': "vm_ok (others_of k' q) ?c'" by (rule proc_ok_vm_ok [OF process_view [OF k'(2) q assms(8)]])
  have a': "?a \<in> vaddrs ?c'" using a(1) by (simp add: vaddrs_def kernel_simps)
  then have "vm_rd ?c' ?a = Inr v" using vm_rd_cell [OF view' a'] k'(4) by (simp add: kernel_simps)
  then have "\<exists>out. libread ?c' s off = Inr (0, Some (u32_of_byte v), ?c'\<lparr>stdout := out\<rparr>)"
    using a' by (intro libread_run [OF view' a(2)]) (simp_all add: kernel_simps)
  then show ?thesis using k'(1,2) q by blast
qed

text \<open>Process 0 overwrites byte 20 of process 1, which owns frame 1.\<close>

theorem memmap_breach_witness:
  "\<exists>k' c'. run (two_procs (\<lambda>_. 0) [poke 276 7]) 0 = Inr (0, k') \<and>
    libread (caller_of (pcb_page 1 []) (mm_page 1) k') 0 20 = Inr (0, Some 7, c')"
proof -
  let ?k = "two_procs (\<lambda>_. 0) [poke 276 7]"
  have heap: "in_heap (caller_of (pcb_page 1 []) (mm_page 1) ?k) 0 20"
    using mm_page_facts [of 1] by (simp add: in_heap_def sym_id_def lib_addr_def vaddrs_def kernel_simps)
  have "page_frame (mm_page 1) 0 = 1" using mm_page_facts [of 1] by (simp add: frame_list_def)
  moreover have "lib_addr (mm_page 1) 0 20 = 20" using mm_page_facts [of 1] by (simp add: lib_addr_def)
  ultimately have "vphys (mm_page 1) (lib_addr (mm_page 1) 0 20) = 276" by (simp add: vphys_def)
  then have "next_ins (pcb_page 0 [poke 276 7]) = poke (vphys (mm_page 1) (lib_addr (mm_page 1) 0 20)) 7"
    using two_procs_first(5) [of "[poke 276 7]"] by simp
  moreover have "procs ?k 1 = Some (pcb_page 1 [])" "p_mm (pcb_page 1 []) = Some (mm_page 1)"
    by (simp_all add: two_procs_def pcb_page_def)
  ultimately show ?thesis
    using memmap_breach [OF two_procs_ok two_procs_first(1) [where cells = "\<lambda>_. 0" and insts = "[poke 276 7]"]
        two_procs_first(2-4), of 1 "pcb_page 1 []" "mm_page 1" 0 20 7] heap
    by (auto simp: u32_of_byte_def)
qed

end
