(* ===== verification/SingleQueue.thy ===== *)
theory SingleQueue
  imports Sched
begin

text \<open>
  The scheduler of \<open>src/sched.c\<close> in the configuration without \<open>MLQ_SCHED\<close>: one ready queue,
  served by priority. Its state is that of the other configuration without the levels. No build uses
  these functions as the sources stand: \<open>include/sched.h\<close> defines \<open>MLQ_SCHED\<close> where \<open>os-cfg.h\<close> does not.
\<close>

section \<open>Operations\<close>

record 'p sched1 =
  ready1 :: "'p queue_t"
  run1 :: "'p queue_t"
  running1 :: "'p queue_t"

definition queue_empty1 :: "'p sched1 \<Rightarrow> int" where
  "queue_empty1 s = (if empty_queue (Some (ready1 s)) \<noteq> 0 \<and> empty_queue (Some (run1 s)) \<noteq> 0 then 1 else 0)"

definition init_scheduler1 :: "'p sched1 \<Rightarrow> 'p sched1" where
  "init_scheduler1 s = s\<lparr>ready1 := (ready1 s)\<lparr>qsize := 0\<rparr>, run1 := (run1 s)\<lparr>qsize := 0\<rparr>\<rparr>"

definition get_proc1 :: "('p \<Rightarrow> u32 res) \<Rightarrow> 'p sched1 \<Rightarrow> ('p option \<times> 'p sched1) res" where
  "get_proc1 prio_of s =
    (if empty_queue (Some (ready1 s)) \<noteq> 0 then Inr (None, s)
     else
       bindr (dequeue prio_of (Some (ready1 s))) (\<lambda>(x, q).
       Inr (x, s\<lparr>ready1 := (case q of Some q \<Rightarrow> q | None \<Rightarrow> ready1 s)\<rparr>)))"

definition put_proc1 :: "'p \<Rightarrow> 'p sched1 \<Rightarrow> 'p sched1 res" where
  "put_proc1 p s =
    bindr (enqueue (Some (ready1 s)) (Some p)) (\<lambda>q.
    Inr (s\<lparr>ready1 := (case q of Some q \<Rightarrow> q | None \<Rightarrow> ready1 s)\<rparr>))"

definition add_proc1 :: "'p \<Rightarrow> 'p sched1 \<Rightarrow> 'p sched1 res" where
  "add_proc1 p s =
    bindr (enqueue (Some (running1 s)) (Some p)) (\<lambda>q.
    Inr (s\<lparr>running1 := (case q of Some q \<Rightarrow> q | None \<Rightarrow> running1 s)\<rparr>))"

section \<open>Sequences of calls\<close>

definition sched1_ok :: "'p sched1 \<Rightarrow> bool" where
  "sched1_ok s \<longleftrightarrow> queue_ok (ready1 s) \<and> queue_ok (running1 s)"

text \<open>
  The CPUs call \<open>put_proc\<close> only for a process they got. \<open>ps\<close> are the processes the CPUs hold, and
  \<open>ns\<close> the numbers of processes added and of processes handed out.
\<close>

inductive sched1_run :: "('p \<Rightarrow> u32 res) \<Rightarrow> 'p sched1 \<Rightarrow> 'p list \<Rightarrow> nat \<Rightarrow> nat \<Rightarrow> bool" for prio_of where
  start: "queue_ok (ready1 s) \<Longrightarrow> queue_ok (run1 s) \<Longrightarrow> queue_ok (running1 s) \<Longrightarrow>
    sched1_run prio_of (init_scheduler1 s) [] 0 0"
| get: "sched1_run prio_of s ps m n \<Longrightarrow> get_proc1 prio_of s = Inr (r, s') \<Longrightarrow>
    sched1_run prio_of s' (case r of None \<Rightarrow> ps | Some x \<Rightarrow> x # ps) m (case r of None \<Rightarrow> n | Some _ \<Rightarrow> Suc n)"
| put: "sched1_run prio_of s (ps @ x # qs) m n \<Longrightarrow> put_proc1 x s = Inr s' \<Longrightarrow> sched1_run prio_of s' (ps @ qs) m n"
| add: "sched1_run prio_of s ps m n \<Longrightarrow> add_proc1 x s = Inr s' \<Longrightarrow> sched1_run prio_of s' ps (Suc m) n"

lemma queue_ok_reset: "queue_ok q \<Longrightarrow> queue_ok (q\<lparr>qsize := 0\<rparr>) \<and> queue_items (q\<lparr>qsize := 0\<rparr>) = []"
  by (simp add: queue_ok_def queue_items_def)

lemma get_proc1_empty: "queue_ok (ready1 s) \<Longrightarrow> queue_items (ready1 s) = [] \<Longrightarrow> get_proc1 prio_of s = Inr (None, s)"
  by (simp add: get_proc1_def empty_queue_iff)

lemma sched1_run_inv:
  assumes "sched1_run prio_of s ps m n"
  shows "sched1_ok s \<and> queue_items (ready1 s) = [] \<and> ps = [] \<and> n = 0"
  using assms
proof induction
  case (start s)
  then show ?case using queue_ok_reset [of "ready1 s"] by (simp add: sched1_ok_def init_scheduler1_def)
next
  case (get s ps m n r s')
  then have "get_proc1 prio_of s = Inr (None, s)" by (intro get_proc1_empty) (simp_all add: sched1_ok_def)
  then show ?case using get by simp
next
  case (add s ps m n x s')
  obtain q where q: "enqueue (Some (running1 s)) (Some x) = Inr (Some q)" "queue_ok q"
    using enqueue_any [of "running1 s" x] add.IH by (auto simp: sched1_ok_def)
  then show ?case using add by (auto simp: add_proc1_def sched1_ok_def)
qed simp

section \<open>Properties\<close>

text \<open>A scheduler with three empty queues, for the witness.\<close>

definition sched1_zero :: "'p sched1" where
  "sched1_zero = \<lparr>ready1 = queue_of [], run1 = queue_of [], running1 = queue_of []\<rparr>"

text \<open>
  C40: the functions of \<open>sched.c\<close> for a build without \<open>MLQ_SCHED\<close> run no process. In every sequence of calls that starts with
  \<open>init_scheduler\<close> and in which the CPUs put back only what they got, \<open>get_proc\<close> returns NULL each
  time, however many processes the loader has added: \<open>add_proc\<close> puts them on the running list,
  which \<open>get_proc\<close> does not look at.
\<close>

theorem single_queue_never_runs:
  assumes "sched1_run prio_of s ps m n"
  shows "get_proc1 prio_of s = Inr (None, s) \<and> ps = [] \<and> n = 0"
  using sched1_run_inv [OF assms] get_proc1_empty [of s prio_of] by (simp add: sched1_ok_def)

theorem single_queue_never_runs_witness:
  "\<exists>s. add_proc1 3 (init_scheduler1 sched1_zero) = Inr s \<and> queue_items (running1 s) = [3 :: u32] \<and>
    get_proc1 Inr s = Inr (None, s)"
proof -
  have e: "queue_ok (queue_of [] :: u32 queue_t)" "queue_items (queue_of [] :: u32 queue_t) = []"
    using queue_of_ok [of "[] :: u32 list"] by simp_all
  obtain q where q: "enqueue (Some (queue_of [])) (Some (3 :: u32)) = Inr (Some q)" "queue_items q = [3]"
    using enqueue_room [OF e(1), of 3] e(2) by auto
  have run: "sched1_run Inr (init_scheduler1 (sched1_zero :: u32 sched1)) [] 0 0"
    using e(1) by (intro sched1_run.start) (simp_all add: sched1_zero_def)
  have add: "add_proc1 3 (init_scheduler1 sched1_zero) = Inr ((init_scheduler1 sched1_zero)\<lparr>running1 := q\<rparr>)"
    using q(1) by (simp add: add_proc1_def init_scheduler1_def sched1_zero_def)
  show ?thesis
    using single_queue_never_runs [OF sched1_run.add [OF run add]] add q(2) by (intro exI [of _ "(init_scheduler1 sched1_zero)\<lparr>running1 := q\<rparr>"]) simp
qed

end
