(* ===== verification/Fairness.thy ===== *)
theory Fairness
  imports Sched
begin

text \<open>
  Bounded waiting of the scheduler of \<open>src/sched.c\<close>: a process on a ready level is handed out
  after a bounded number of \<open>get_proc\<close> calls, whatever else is put and added in between. The
  bound comes from a quantity that every call of \<open>get_proc\<close> decreases as long as it does not
  return the process.
\<close>

section \<open>Sequences of scheduler calls\<close>

datatype 'p sched_op = Get | Put 'p | Add 'p

text \<open>The results are those of the \<open>get_proc\<close> calls, in order.\<close>

fun run_ops :: "('p \<Rightarrow> u32 res) \<Rightarrow> 'p sched_op list \<Rightarrow> 'p sched \<Rightarrow> ('p option list \<times> 'p sched) res" where
  "run_ops prio_of [] s = Inr ([], s)"
| "run_ops prio_of (c # cs) s = (case c of
      Get \<Rightarrow> bindr (get_proc prio_of s) (\<lambda>(r, s).
             bindr (run_ops prio_of cs s) (\<lambda>(rs, s). Inr (r # rs, s)))
    | Put x \<Rightarrow> bindr (put_proc prio_of x s) (run_ops prio_of cs)
    | Add x \<Rightarrow> bindr (add_proc prio_of x s) (run_ops prio_of cs))"

fun op_ok :: "('p \<Rightarrow> u32 res) \<Rightarrow> 'p sched_op \<Rightarrow> bool" where
  "op_ok prio_of Get = True"
| "op_ok prio_of (Put x) = (case prio_of x of Inr pr \<Rightarrow> pr < 140 | Inl _ \<Rightarrow> False)"
| "op_ok prio_of (Add x) = (case prio_of x of Inr pr \<Rightarrow> pr < 140 | Inl _ \<Rightarrow> False)"

definition gets :: "'p sched_op list \<Rightarrow> nat" where
  "gets cs = length (filter (\<lambda>c. c = Get) cs)"

lemma gets_simps [simp]: "gets [] = 0" "gets (Get # cs) = Suc (gets cs)" "gets (Put x # cs) = gets cs"
    "gets (Add x # cs) = gets cs" "gets (replicate n Get) = n"
  by (simp_all add: gets_def)

lemma op_okE:
  assumes "op_ok prio_of c" "c = Put x \<or> c = Add x"
  obtains pr where "prio_of x = Inr pr" "pr < 140"
  using assms by (auto split: sum.splits)

section \<open>The waiting time\<close>

text \<open>All slots that are left; 9870 after a refill.\<close>

definition slots_left :: "'p sched \<Rightarrow> int" where
  "slots_left s = (\<Sum>q \<in> {0..<140}. slots s q)"

text \<open>
  A process at position \<open>i\<close> of level \<open>p\<close>. Serving any level takes a slot, serving level \<open>p\<close> also
  moves the process forward, and a refill happens only when level \<open>p\<close> has no slot left.
\<close>

definition wait_rank :: "'p sched \<Rightarrow> int \<Rightarrow> nat \<Rightarrow> int" where
  "wait_rank s p i = int i * 9871 + slots_left s + (if slots s p = 0 then 9871 else 0)"

lemma sum_weights: "(\<Sum>q \<in> {0..<140}. 140 - q) = (9870 :: int)"
  by code_simp

lemma slots_left_bounds:
  assumes "sched_ok prio_of s"
  shows "0 \<le> slots_left s" "slots_left s \<le> 9870"
proof -
  show "0 \<le> slots_left s"
    unfolding slots_left_def using sched_level(6) [OF assms] by (intro sum_nonneg) simp
  have "slots_left s \<le> (\<Sum>q \<in> {0..<140}. 140 - q)"
    unfolding slots_left_def using sched_level(7) [OF assms] by (intro sum_mono) simp
  then show "slots_left s \<le> 9870" by (simp only: sum_weights)
qed

lemma slots_left_reset: "slots_reset s s' \<Longrightarrow> slots_left s' = 9870"
  unfolding slots_left_def sum_weights [symmetric]
  by (intro sum.cong) (simp_all add: slots_reset_def)

lemma slots_left_served:
  assumes "served s q x s'" "0 \<le> q" "q < 140"
  shows "slots_left s' = slots_left s - 1"
proof -
  have "(\<Sum>i \<in> {0..<140} - {q}. slots s' i) = (\<Sum>i \<in> {0..<140} - {q}. slots s i)"
    using assms(1) by (intro sum.cong) (simp_all add: served_def)
  moreover have "slots s' q = slots s q - 1" using assms(1) by (simp add: served_def)
  ultimately show ?thesis
    unfolding slots_left_def using assms(2,3)
    by (simp add: sum.remove [of "{0..<140}" q "slots s'"] sum.remove [of "{0..<140}" q "slots s"])
qed

lemma slots_left_same: "\<forall>i \<ge> 0. slots s' i = slots s i \<Longrightarrow> slots_left s' = slots_left s"
  unfolding slots_left_def by (intro sum.cong) simp_all

definition waits_at :: "'p sched \<Rightarrow> 'p \<Rightarrow> int \<Rightarrow> nat \<Rightarrow> bool" where
  "waits_at s x p i \<longleftrightarrow> 0 \<le> p \<and> p < 140 \<and> i < length (level s p) \<and> level s p ! i = x"

lemma wait_rank_bounds:
  assumes "sched_ok prio_of s"
  shows "0 \<le> wait_rank s p i" "wait_rank s p i < (int i + 2) * 9871"
  using slots_left_bounds [OF assms] by (auto simp: wait_rank_def)

lemma get_advances:
  assumes ok: "sched_ok prio_of s" and x: "waits_at s x p i"
  shows "\<exists>r s'. get_proc prio_of s = Inr (r, s') \<and> sched_ok prio_of s' \<and>
    (r = Some x \<or> (\<exists>j. waits_at s' x p j \<and> wait_rank s' p j < wait_rank s p i))"
  using ok
proof (cases rule: get_proc_cases)
  case idle
  then show ?thesis using x by (auto simp: waits_at_def)
next
  case (serve q y s')
  have q: "0 \<le> q" "q < 140" using serve(1) by (simp_all add: serves_def)
  note left = slots_left_served [OF serve(3) q]
  consider (here) "q = p" "i = 0" | (step) j where "q = p" "i = Suc j" | (other) "q \<noteq> p"
    by (cases i) auto
  then show ?thesis
  proof cases
    case here
    then have "y = x" using serve(3) x by (simp add: served_def waits_at_def)
    then show ?thesis using serve(2,4) by auto
  next
    case step
    then have "waits_at s' x p j" using serve(3) x by (simp add: served_def waits_at_def)
    moreover have "wait_rank s' p j < wait_rank s p i" using step(2) left by (simp add: wait_rank_def)
    ultimately show ?thesis using serve(2,4) by auto
  next
    case other
    then have same: "level s' p = level s p" "slots s' p = slots s p"
      using serve(3) x by (simp_all add: served_def waits_at_def)
    then have "waits_at s' x p i" using x by (simp add: waits_at_def)
    moreover have "wait_rank s' p i < wait_rank s p i" using same left by (simp add: wait_rank_def)
    ultimately show ?thesis using serve(2,4) by auto
  qed
next
  case (reset q s')
  have p: "0 \<le> p" "p < 140" "level s p \<noteq> []" using x by (auto simp: waits_at_def)
  have "slots s p = 0"
  proof (rule ccontr)
    assume "slots s p \<noteq> 0"
    then have "0 < slots s p" using sched_level(6) [OF ok p(1,2)] by simp
    then show False using find_level [OF ok] reset(5) p by auto
  qed
  moreover have "slots s' p = 140 - p" "level s' p = level s p"
    using reset(7) p by (simp_all add: slots_reset_def)
  moreover have "slots_left s' = 9870" "0 \<le> slots_left s"
    using slots_left_reset [OF reset(7)] slots_left_bounds [OF ok] by simp_all
  ultimately have "waits_at s' x p i" "wait_rank s' p i < wait_rank s p i"
    using x p(2) by (simp_all add: waits_at_def wait_rank_def)
  then show ?thesis using reset(6,8) by auto
qed

lemma joined_waits:
  assumes "joined y pr s s'" "waits_at s x p i"
  shows "waits_at s' x p i \<and> wait_rank s' p i = wait_rank s p i"
proof -
  have "slots_left s' = slots_left s" "slots s' p = slots s p"
    using assms by (auto simp: joined_def waits_at_def intro: slots_left_same)
  moreover have "waits_at s' x p i"
    using assms by (cases "p = uint pr") (auto simp: joined_def waits_at_def nth_append)
  ultimately show ?thesis by (simp add: wait_rank_def)
qed

lemma get_proc_total: "sched_ok prio_of s \<Longrightarrow> \<exists>r s'. get_proc prio_of s = Inr (r, s') \<and> sched_ok prio_of s'"
  by (cases rule: get_proc_cases) auto

lemma run_ops_total:
  assumes "sched_ok prio_of s" "\<forall>c \<in> set cs. op_ok prio_of c"
  shows "\<exists>rs s'. run_ops prio_of cs s = Inr (rs, s') \<and> sched_ok prio_of s'"
  using assms
proof (induction cs arbitrary: s)
  case (Cons c cs)
  have rest: "\<exists>rs s'. run_ops prio_of cs t = Inr (rs, s') \<and> sched_ok prio_of s'" if "sched_ok prio_of t" for t
    using Cons that by simp
  show ?case
  proof (cases c)
    case Get
    obtain r t where "get_proc prio_of s = Inr (r, t)" "sched_ok prio_of t"
      using get_proc_total [OF Cons.prems(1)] by blast
    then show ?thesis using rest [of t] Get by auto
  next
    case (Put x)
    then obtain pr where "prio_of x = Inr pr" "pr < 140" using op_okE [of prio_of c x] Cons.prems(2) by auto
    then obtain t where "put_proc prio_of x s = Inr t" "sched_ok prio_of t"
      using put_proc_ok [OF Cons.prems(1)] by blast
    then show ?thesis using rest [of t] Put by simp
  next
    case (Add x)
    then obtain pr where "prio_of x = Inr pr" "pr < 140" using op_okE [of prio_of c x] Cons.prems(2) by auto
    then obtain t where "add_proc prio_of x s = Inr t" "sched_ok prio_of t"
      using add_proc_ok [OF Cons.prems(1)] by blast
    then show ?thesis using rest [of t] Add by simp
  qed
qed simp

lemma handed_out:
  assumes "sched_ok prio_of s" "\<forall>c \<in> set cs. op_ok prio_of c" "waits_at s x p i"
    "wait_rank s p i < int (gets cs)"
  shows "\<exists>rs s'. run_ops prio_of cs s = Inr (rs, s') \<and> sched_ok prio_of s' \<and> Some x \<in> set rs"
  using assms
proof (induction cs arbitrary: s i)
  case Nil
  then show ?case using wait_rank_bounds(1) [of prio_of s p i] by simp
next
  case (Cons c cs)
  have ops: "\<forall>c \<in> set cs. op_ok prio_of c" using Cons.prems(2) by simp
  show ?case
  proof (cases c)
    case Get
    obtain r t where t: "get_proc prio_of s = Inr (r, t)" "sched_ok prio_of t"
      "r = Some x \<or> (\<exists>j. waits_at t x p j \<and> wait_rank t p j < wait_rank s p i)"
      using get_advances [OF Cons.prems(1,3)] by blast
    from t(3) show ?thesis
    proof
      assume "r = Some x"
      then show ?thesis using run_ops_total [OF t(2) ops] t(1) Get by auto
    next
      assume "\<exists>j. waits_at t x p j \<and> wait_rank t p j < wait_rank s p i"
      then obtain j where j: "waits_at t x p j" "wait_rank t p j < wait_rank s p i" by blast
      have "wait_rank t p j < int (gets cs)" using j(2) Cons.prems(4) Get by simp
      from Cons.IH [OF t(2) ops j(1) this] show ?thesis using t(1) Get by auto
    qed
  next
    case (Put y)
    then obtain pr where "prio_of y = Inr pr" "pr < 140" using op_okE [of prio_of c y] Cons.prems(2) by auto
    then obtain t where t: "put_proc prio_of y s = Inr t" "sched_ok prio_of t" "joined y pr s t"
      using put_proc_ok [OF Cons.prems(1)] by blast
    then show ?thesis
      using Cons.IH [OF t(2) ops, of i] joined_waits [OF t(3) Cons.prems(3)] Cons.prems(4) Put by simp
  next
    case (Add y)
    then obtain pr where "prio_of y = Inr pr" "pr < 140" using op_okE [of prio_of c y] Cons.prems(2) by auto
    then obtain t where t: "add_proc prio_of y s = Inr t" "sched_ok prio_of t" "joined y pr s t"
      using add_proc_ok [OF Cons.prems(1)] by blast
    then show ?thesis
      using Cons.IH [OF t(2) ops, of i] joined_waits [OF t(3) Cons.prems(3)] Cons.prems(4) Add by simp
  qed
qed

section \<open>Properties\<close>

text \<open>
  No ready process starves. Take any sequence of scheduler calls on a well-formed scheduler
  in which every process that is put or added has a priority below \<open>MAX_PRIO\<close>. If a process waits
  at position \<open>i\<close> of its level, it is among the processes that the first \<open>(i + 2) * 9871\<close> calls
  of \<open>get_proc\<close> return, however many processes of higher priority keep coming back; no call
  faults. 9870 is the sum of all slots, and one more call refills them.
\<close>

theorem no_starvation:
  assumes "sched_ok prio_of s" "\<forall>c \<in> set cs. op_ok prio_of c"
    "0 \<le> p" "p < 140" "i < length (level s p)" "(i + 2) * 9871 \<le> gets cs"
  shows "\<exists>rs s'. run_ops prio_of cs s = Inr (rs, s') \<and> sched_ok prio_of s' \<and> Some (level s p ! i) \<in> set rs"
proof (rule handed_out [OF assms(1,2)])
  show "waits_at s (level s p ! i) p i" using assms(3-5) by (simp add: waits_at_def)
  have "wait_rank s p i < (int i + 2) * 9871" by (rule wait_rank_bounds [OF assms(1)])
  also have "\<dots> = int ((i + 2) * 9871)" by simp
  also have "\<dots> \<le> int (gets cs)" using assms(6) by (simp only: of_nat_le_iff)
  finally show "wait_rank s p i < int (gets cs)" .
qed

theorem no_starvation_witness:
  "\<exists>rs s'. run_ops Inr (Put 0 # replicate 19742 Get) (sched_of [3] 0) = Inr (rs, s') \<and> Some 3 \<in> set rs"
proof -
  have ok: "sched_ok Inr (sched_of [3] 0)" by (rule sched_of_ok) simp_all
  have lv: "level (sched_of [3] 0) 3 = [3 :: u32]" using sched_of_level [of "[3]" 3 0] by simp
  show ?thesis
    using no_starvation [OF ok, of "Put 0 # replicate 19742 Get" 3 0] lv by auto
qed

end
