(* ===== verification/Config.thy ===== *)
theory Config
  imports Scan
begin

text \<open>
  The configuration file, \<open>read_config\<close> of \<open>src/os.c\<close>: the static variables it fills, the format
  of the files under \<open>src/input\<close>, and what is read back. The arrays come from \<open>malloc\<close>;
  \<open>raw_time\<close> and \<open>raw_prio\<close> are what they hold before, a path is \<open>None\<close> until it is set.
\<close>

section \<open>Reading\<close>

record config =
  time_slot :: int
  num_cpus :: int
  num_processes :: int
  memramsz :: int
  memswpsz :: "int carray"
  ld_path :: "string option carray"
  start_time :: "u64 carray"
  ld_prio :: "u64 carray"

definition PAGING_MAX_MMSWP :: int where
  "PAGING_MAX_MMSWP = 4"

text \<open>The line of one process, \<open>"%lu %s %lu\n"\<close>: a conversion that fails ends the scan.\<close>

definition scan_proc :: "string \<Rightarrow> u64 option \<times> string option \<times> u64 option \<times> string" where
  "scan_proc file = (case scan_lu file of
      (None, file) \<Rightarrow> (None, None, None, file)
    | (Some t, file) \<Rightarrow> (case scan_s file of
        (None, file) \<Rightarrow> (Some t, None, None, file)
      | (Some w, file) \<Rightarrow> (case scan_lu file of
          (None, file) \<Rightarrow> (Some t, Some w, None, file)
        | (Some pr, file) \<Rightarrow> (Some t, Some w, Some pr, skip_ws file))))"

definition aset_opt :: "'a carray \<Rightarrow> int \<Rightarrow> 'a option \<Rightarrow> 'a carray res" where
  "aset_opt a i x = (case x of None \<Rightarrow> Inr a | Some v \<Rightarrow> aset a i v)"

text \<open>\<open>strcat\<close> of two strings into a buffer of 100 bytes.\<close>

definition strcat100 :: "string \<Rightarrow> string \<Rightarrow> string res" where
  "strcat100 s w = (if 100 \<le> length (s @ w) then Inl OutOfBounds else Inr (s @ w))"

type_synonym cfg_state = "string \<times> string option carray \<times> u64 carray \<times> u64 carray"

definition read_proc :: "int \<Rightarrow> cfg_state \<Rightarrow> cfg_state res" where
  "read_proc i st = (case st of (file, paths, starts, prios) \<Rightarrow>
    (case scan_proc file of (t, w, pr, file) \<Rightarrow>
      bindr (case w of
               None \<Rightarrow> Inl UninitRead
             | Some w \<Rightarrow> if 100 \<le> length w then Inl OutOfBounds else strcat100 ''input/proc/'' w) (\<lambda>p.
      bindr (aset paths i (Some p)) (\<lambda>paths.
      bindr (aset_opt starts i t) (\<lambda>starts.
      bindr (aset_opt prios i pr) (\<lambda>prios.
      Inr (file, paths, starts, prios)))))))"

definition read_swap :: "int \<Rightarrow> string \<times> int carray \<Rightarrow> (string \<times> int carray) res" where
  "read_swap sit st = (case st of (file, a) \<Rightarrow>
    (case scan_d file of (x, file) \<Rightarrow> bindr (aset_opt a sit x) (\<lambda>a. Inr (file, a))))"

definition read_config ::
    "(string \<Rightarrow> string option) \<Rightarrow> (nat \<Rightarrow> u64) \<Rightarrow> (nat \<Rightarrow> u64) \<Rightarrow> string \<Rightarrow> config res" where
  "read_config fs raw_time raw_prio pth = (case fs pth of
      None \<Rightarrow> Inl (ProcExit 1)
    | Some file \<Rightarrow>
        (let (hdr, file) = scan_line scan_d 3 file;
             ts = (case hdr of [] \<Rightarrow> 0 | x # _ \<Rightarrow> x);
             nc = (case hdr of _ # x # _ \<Rightarrow> x | _ \<Rightarrow> 0);
             np = (case hdr of _ # _ # x # _ \<Rightarrow> x | _ \<Rightarrow> 0);
             (ram, file) = scan_line scan_d 1 file
         in bindr (for_loop 0 PAGING_MAX_MMSWP read_swap (file, CArray 4 (\<lambda>_. 0))) (\<lambda>(file, swps).
            bindr (for_loop 0 np read_proc
                     (skip_ws file, CArray (nat np) (\<lambda>_. None), CArray (nat np) raw_time, CArray (nat np) raw_prio))
              (\<lambda>(_, paths, starts, prios).
            Inr \<lparr>time_slot = ts, num_cpus = nc, num_processes = np,
                 memramsz = (case ram of [] \<Rightarrow> 0 | x # _ \<Rightarrow> x), memswpsz = swps,
                 ld_path = paths, start_time = starts, ld_prio = prios\<rparr>))))"

text \<open>The argument of \<open>main\<close> becomes a path in a buffer of 100 bytes.\<close>

definition config_path :: "string \<Rightarrow> string res" where
  "config_path arg = strcat100 ''input/'' arg"

section \<open>The text of a configuration\<close>

fun show_nats :: "nat list \<Rightarrow> string" where
  "show_nats [] = []"
| "show_nats (n # ns) = show_nat n @ CHR 0x20 # show_nats ns"

definition proc_line :: "u64 \<times> string \<times> u64 \<Rightarrow> string" where
  "proc_line p = (case p of (t, w, pr) \<Rightarrow>
     show_nat (unat t) @ '' '' @ w @ '' '' @ show_nat (unat pr) @ [CHR 0x0A])"

definition config_text :: "nat \<Rightarrow> nat \<Rightarrow> nat \<Rightarrow> nat list \<Rightarrow> (u64 \<times> string \<times> u64) list \<Rightarrow> string" where
  "config_text ts nc ram swps ps = show_nats [ts, nc, length ps] @ CHR 0x0A # show_nats [ram] @ CHR 0x0A #
     show_nats swps @ CHR 0x0A # concat (map proc_line ps)"

section \<open>Reading back\<close>

lemma scan_d_small:
  assumes "spaces ws" "no_digit s" "n < 2 ^ 31"
  shows "scan_d (ws @ show_nat n @ s) = (Some (int n), s)"
proof -
  have "unat (of_nat n :: u32) = n" using assms(3) by (simp add: unsigned_of_nat take_bit_nat_eq_self)
  moreover from this have "int_of_u32 (of_nat n) = int n"
    using assms(3) by (simp add: int_of_u32_small uint_int_unat)
  ultimately show ?thesis using scan_d_show [OF assms(1,2), of "of_nat n :: u32"] by simp
qed

lemma scan_lu_show:
  assumes "spaces ws" "no_digit s"
  shows "scan_lu (ws @ show_nat (unat w) @ s) = (Some w, s)"
proof -
  have "unat w < 2 ^ 64" using unsigned_less [of w] by simp
  then show ?thesis using scan_number_show [OF assms, of "unat w"] by (simp add: scan_lu_def ulong_of_def)
qed

lemma scan_d_skip: "scan_d (skip_ws s) = scan_d s"
  by (simp add: scan_d_def scan_number_def)

lemma scan_lu_skip: "scan_lu (skip_ws s) = scan_lu s"
  by (simp add: scan_lu_def scan_number_def)

lemma no_digit_space [simp]: "no_digit (CHR 0x20 # s)" "no_digit (CHR 0x0A # s)"
  by (simp_all add: no_digit_def is_digit_def)

lemma is_space_chars [simp]: "is_space (CHR 0x20)" "is_space (CHR 0x0A)"
  by (simp_all add: is_space_def)

lemma skip_ws_Cons [simp]: "is_space c \<Longrightarrow> skip_ws (c # s) = skip_ws s"
  by (simp add: skip_ws_def)

text \<open>A conversion sees the stream up to leading white space.\<close>

lemma scan_d_at:
  assumes "skip_ws f = skip_ws (show_nat n @ s)" "no_digit s" "n < 2 ^ 31"
  shows "scan_d f = (Some (int n), s)"
proof -
  have "scan_d f = scan_d (show_nat n @ s)"
    using scan_d_skip [of f] scan_d_skip [of "show_nat n @ s"] assms(1) by simp
  then show ?thesis using scan_d_small [of "[]" s n] assms(2,3) by (simp add: spaces_def)
qed

lemma scan_lu_at:
  assumes "skip_ws f = skip_ws (show_nat (unat w) @ s)" "no_digit s"
  shows "scan_lu f = (Some w, s)"
proof -
  have "scan_lu f = scan_lu (show_nat (unat w) @ s)"
    using scan_lu_skip [of f] scan_lu_skip [of "show_nat (unat w) @ s"] assms(1) by simp
  then show ?thesis using scan_lu_show [of "[]" s w] assms(2) by (simp add: spaces_def)
qed

lemma aset_small: "0 \<le> i \<Longrightarrow> i < int n \<Longrightarrow> aset (CArray n f) i v = Inr (CArray n (f(nat i := v)))"
  by (simp add: aset_def in_bounds_def)

text \<open>The loop over the sizes of the swap devices.\<close>

definition swaps_read :: "nat list \<Rightarrow> string \<Rightarrow> int \<Rightarrow> string \<times> int carray \<Rightarrow> bool" where
  "swaps_read swps rest i st = (case st of (f, a) \<Rightarrow> alen a = 4 \<and>
    skip_ws f = skip_ws (show_nats (drop (nat i) swps) @ rest) \<and> (\<forall>j < nat i. acell a j = int (swps ! j)))"

lemma read_swap_step:
  assumes "swaps_read swps rest i st" "0 \<le> i" "i < 4" "length swps = 4" "\<forall>n \<in> set swps. n < 2 ^ 31"
  shows "\<exists>st'. read_swap i st = Inr st' \<and> swaps_read swps rest (i + 1) st'"
proof -
  obtain f a where st: "st = (f, a)" by (cases st)
  let ?n = "swps ! nat i"
  have i: "nat i < length swps" using assms(3,4) by simp
  then have "drop (nat i) swps = ?n # drop (Suc (nat i)) swps" by (simp add: Cons_nth_drop_Suc)
  then have "skip_ws f = skip_ws (show_nat ?n @ CHR 0x20 # show_nats (drop (Suc (nat i)) swps) @ rest)"
    using assms(1) st by (simp add: swaps_read_def)
  moreover have "?n < 2 ^ 31" using assms(5) i by simp
  ultimately have "scan_d f = (Some (int ?n), CHR 0x20 # show_nats (drop (Suc (nat i)) swps) @ rest)"
    by (intro scan_d_at) simp_all
  moreover have "nat (i + 1) = Suc (nat i)" using assms(2) by simp
  ultimately show ?thesis
    using assms(1-3) st
    by (cases a) (auto simp: read_swap_def aset_opt_def aset_small swaps_read_def less_Suc_eq)
qed

lemma read_swaps:
  assumes "length swps = 4" "\<forall>n \<in> set swps. n < 2 ^ 31"
    and "skip_ws f = skip_ws (show_nats swps @ rest)"
  shows "\<exists>f' a. for_loop 0 4 read_swap (f, CArray 4 (\<lambda>_. 0)) = Inr (f', a) \<and>
    skip_ws f' = skip_ws rest \<and> alen a = 4 \<and> (\<forall>j < 4. acell a j = int (swps ! j))"
proof -
  have "\<exists>st'. for_loop 0 4 read_swap (f, CArray 4 (\<lambda>_. 0)) = Inr st' \<and> swaps_read swps rest 4 st'"
    by (rule for_loop_rule [where P = "swaps_read swps rest"])
      (use assms read_swap_step [of swps rest] in \<open>simp_all add: swaps_read_def\<close>)
  then show ?thesis using assms(1) by (auto simp: swaps_read_def)
qed

text \<open>The loop over the processes.\<close>

definition good_name :: "string \<Rightarrow> bool" where
  "good_name w \<longleftrightarrow> w \<noteq> [] \<and> (\<forall>c \<in> set w. \<not> is_space c) \<and> length w < 89"

definition procs_read :: "(u64 \<times> string \<times> u64) list \<Rightarrow> int \<Rightarrow> cfg_state \<Rightarrow> bool" where
  "procs_read ps i st = (case st of (f, paths, starts, prios) \<Rightarrow>
    alen paths = length ps \<and> alen starts = length ps \<and> alen prios = length ps \<and>
    skip_ws f = skip_ws (concat (map proc_line (drop (nat i) ps))) \<and>
    (\<forall>j < nat i. acell paths j = Some (''input/proc/'' @ fst (snd (ps ! j))) \<and>
       acell starts j = fst (ps ! j) \<and> acell prios j = snd (snd (ps ! j))))"

lemma scan_proc_line:
  assumes "skip_ws f = skip_ws (proc_line (t, w, pr) @ rest)" "good_name w"
  shows "scan_proc f = (Some t, Some w, Some pr, skip_ws rest)"
proof -
  have w: "w \<noteq> []" "\<forall>c \<in> set w. \<not> is_space c" using assms(2) by (simp_all add: good_name_def)
  let ?r = "CHR 0x20 # show_nat (unat pr) @ CHR 0x0A # rest"
  have "scan_lu f = (Some t, CHR 0x20 # w @ ?r)"
    using assms(1) by (intro scan_lu_at) (simp_all add: proc_line_def)
  moreover have "scan_s (CHR 0x20 # w @ ?r) = (Some w, ?r)"
    using w scan_s_word [of "[CHR 0x20]" w ?r] by (simp add: spaces_def)
  moreover have "scan_lu ?r = (Some pr, CHR 0x0A # rest)" by (rule scan_lu_at) simp_all
  ultimately show ?thesis by (simp add: scan_proc_def)
qed

lemma read_proc_step:
  assumes inv: "procs_read ps i st" and i: "0 \<le> i" "i < int (length ps)"
    and names: "\<forall>p \<in> set ps. good_name (fst (snd p))"
  shows "\<exists>st'. read_proc i st = Inr st' \<and> procs_read ps (i + 1) st'"
proof -
  obtain f paths starts prios where st: "st = (f, paths, starts, prios)" by (cases st)
  obtain t w pr where p: "ps ! nat i = (t, w, pr)" by (cases "ps ! nat i")
  have n: "nat i < length ps" using i by simp
  then have w: "good_name w" using names p nth_mem [OF n] by force
  let ?rest = "concat (map proc_line (drop (Suc (nat i)) ps))"
  have "drop (nat i) ps = (t, w, pr) # drop (Suc (nat i)) ps" using Cons_nth_drop_Suc [OF n] p by simp
  then have "skip_ws f = skip_ws (proc_line (t, w, pr) @ ?rest)" using inv st by (simp add: procs_read_def)
  from scan_proc_line [OF this w] have sc: "scan_proc f = (Some t, Some w, Some pr, skip_ws ?rest)" .
  have len: "length w < 89" using w by (simp add: good_name_def)
  have suc: "nat (i + 1) = Suc (nat i)" using i by simp
  show ?thesis
    using inv i st sc len p suc
    by (cases paths; cases starts; cases prios)
      (auto simp: read_proc_def strcat100_def aset_opt_def aset_small procs_read_def less_Suc_eq)
qed

lemma read_procs:
  assumes "\<forall>p \<in> set ps. good_name (fst (snd p))" "skip_ws f = skip_ws (concat (map proc_line ps))"
  shows "\<exists>f' paths starts prios. for_loop 0 (int (length ps)) read_proc
      (f, CArray (length ps) (\<lambda>_. None), CArray (length ps) raw_time, CArray (length ps) raw_prio) =
      Inr (f', paths, starts, prios) \<and> procs_read ps (int (length ps)) (f', paths, starts, prios)"
proof -
  have "\<exists>st'. for_loop 0 (int (length ps)) read_proc
      (f, CArray (length ps) (\<lambda>_. None), CArray (length ps) raw_time, CArray (length ps) raw_prio) = Inr st' \<and>
      procs_read ps (int (length ps)) st'"
    by (rule for_loop_rule [where P = "procs_read ps"])
      (use assms read_proc_step [of ps] in \<open>simp_all add: procs_read_def\<close>)
  then show ?thesis by (auto simp: split_paired_Ex)
qed

text \<open>What a configuration in the static variables says, and a readable file.\<close>

definition config_says :: "config \<Rightarrow> nat \<Rightarrow> nat \<Rightarrow> nat \<Rightarrow> nat list \<Rightarrow> (u64 \<times> string \<times> u64) list \<Rightarrow> bool" where
  "config_says c ts nc mem swps ps \<longleftrightarrow> time_slot c = int ts \<and> num_cpus c = int nc \<and>
    num_processes c = int (length ps) \<and> memramsz c = int mem \<and>
    alen (memswpsz c) = 4 \<and> (\<forall>j < 4. acell (memswpsz c) j = int (swps ! j)) \<and>
    alen (ld_path c) = length ps \<and> alen (start_time c) = length ps \<and> alen (ld_prio c) = length ps \<and>
    (\<forall>j < length ps. acell (ld_path c) j = Some (''input/proc/'' @ fst (snd (ps ! j))) \<and>
       acell (start_time c) j = fst (ps ! j) \<and> acell (ld_prio c) j = snd (snd (ps ! j)))"

definition config_fits :: "nat \<Rightarrow> nat \<Rightarrow> nat \<Rightarrow> nat list \<Rightarrow> (u64 \<times> string \<times> u64) list \<Rightarrow> bool" where
  "config_fits ts nc mem swps ps \<longleftrightarrow> ts < 2 ^ 31 \<and> nc < 2 ^ 31 \<and> length ps < 2 ^ 31 \<and> mem < 2 ^ 31 \<and>
    length swps = 4 \<and> (\<forall>n \<in> set swps. n < 2 ^ 31) \<and> (\<forall>p \<in> set ps. good_name (fst (snd p)))"

lemma read_config_text:
  assumes fl: "fs pth = Some (config_text ts nc mem swps ps)" and fits: "config_fits ts nc mem swps ps"
  shows "\<exists>c. read_config fs raw_time raw_prio pth = Inr c \<and> config_says c ts nc mem swps ps"
proof -
  have b: "ts < 2 ^ 31" "nc < 2 ^ 31" "length ps < 2 ^ 31" "mem < 2 ^ 31" using fits by (simp_all add: config_fits_def)
  let ?p = "concat (map proc_line ps)"
  let ?s = "show_nats swps @ CHR 0x0A # ?p"
  let ?m = "show_nat mem @ CHR 0x20 # CHR 0x0A # ?s"
  have hdr: "scan_line scan_d 3 (config_text ts nc mem swps ps) = ([int ts, int nc, int (length ps)], skip_ws ?m)"
    using b
    by (simp add: scan_line_def numeral_3_eq_3 config_text_def scan_d_at [where n = ts] scan_d_at [where n = nc]
        scan_d_at [where n = "length ps"])
  have ram: "scan_line scan_d 1 (skip_ws ?m) = ([int mem], skip_ws ?s)"
    using b by (simp add: scan_line_def scan_d_at [where n = mem])
  obtain f a where sw: "for_loop 0 4 read_swap (skip_ws ?s, CArray 4 (\<lambda>_. 0)) = Inr (f, a)"
    "skip_ws f = skip_ws ?p" "alen a = 4" "\<forall>j < 4. acell a j = int (swps ! j)"
    using read_swaps [of swps "skip_ws ?s" "CHR 0x0A # ?p"] fits by (auto simp: config_fits_def)
  have "skip_ws (skip_ws f) = skip_ws ?p" using sw(2) by simp
  then obtain f' paths starts prios where pr: "for_loop 0 (int (length ps)) read_proc
      (skip_ws f, CArray (length ps) (\<lambda>_. None), CArray (length ps) raw_time, CArray (length ps) raw_prio) =
      Inr (f', paths, starts, prios)" "procs_read ps (int (length ps)) (f', paths, starts, prios)"
    using read_procs [of ps "skip_ws f" raw_time raw_prio] fits unfolding config_fits_def by blast
  show ?thesis
    unfolding read_config_def fl option.case hdr Let_def prod.case list.case ram PAGING_MAX_MMSWP_def sw(1)
    using pr sw(3,4) by (auto simp: config_says_def procs_read_def)
qed

text \<open>A longer name does not fit the buffers of 100 bytes.\<close>

lemma read_proc_overflow:
  assumes "scan_proc f = (t, Some w, pr, f')" "89 \<le> length w"
  shows "read_proc i (f, paths, starts, prios) = Inl OutOfBounds"
  using assms by (simp add: read_proc_def strcat100_def)

section \<open>Properties\<close>

text \<open>
  C28: \<open>read_config\<close> inverts the format of the configuration files. From the text of a time slice,
  a number of CPUs, the memory sizes and a list of processes (start time, name, priority), all
  within the range of the C types and with names that fit the buffers, it fills the static
  variables and arrays with exactly these values, whatever \<open>malloc\<close> returned.
\<close>

theorem read_config_roundtrip:
  assumes "fs pth = Some (config_text ts nc mem swps ps)" "config_fits ts nc mem swps ps"
  shows "\<exists>c. read_config fs raw_time raw_prio pth = Inr c \<and> config_says c ts nc mem swps ps"
  by (rule read_config_text [of fs, OF assms])

theorem read_config_roundtrip_witness:
  "\<exists>c. read_config (\<lambda>_. Some (config_text 2 1 1024 [512, 0, 0, 0] [(4, ''p0'', 7)])) (\<lambda>_. 0) (\<lambda>_. 0) ''os''
     = Inr c \<and> time_slot c = 2 \<and> num_processes c = 1 \<and> acell (memswpsz c) 0 = 512 \<and>
     acell (ld_path c) 0 = Some ''input/proc/p0'' \<and> acell (start_time c) 0 = 4 \<and> acell (ld_prio c) 0 = 7"
proof -
  have "config_fits 2 1 1024 [512, 0, 0, 0] [(4, ''p0'', 7)]"
    by (simp add: config_fits_def good_name_def is_space_def)
  from read_config_roundtrip [of "\<lambda>_. Some (config_text 2 1 1024 [512, 0, 0, 0] [(4, ''p0'', 7)])", OF refl this]
  show ?thesis by (force simp: config_says_def)
qed

end
