(* ===== verification/Simulation.thy ===== *)
theory Simulation
  imports Prelude
begin

text \<open>
  Labelled step relations, their executions, and the interface by which a concrete system
  implements an abstract one: a step without a label changes nothing the abstraction shows, a
  step with a label is the abstract step of that label.
\<close>

inductive execs :: "('s \<Rightarrow> 'e option \<Rightarrow> 's \<Rightarrow> bool) \<Rightarrow> 's \<Rightarrow> 'e list \<Rightarrow> 's \<Rightarrow> bool"
  for step where
  start: "execs step s [] s"
| silent: "execs step s ls s' \<Longrightarrow> step s' None s'' \<Longrightarrow> execs step s ls s''"
| event: "execs step s ls s' \<Longrightarrow> step s' (Some e) s'' \<Longrightarrow> execs step s (ls @ [e]) s''"

inductive traces :: "('a \<Rightarrow> 'e \<Rightarrow> 'a \<Rightarrow> bool) \<Rightarrow> 'a \<Rightarrow> 'e list \<Rightarrow> 'a \<Rightarrow> bool"
  for astep where
  start: "traces astep a [] a"
| event: "traces astep a ls b \<Longrightarrow> astep b e c \<Longrightarrow> traces astep a (ls @ [e]) c"

lemma execs_silent1: "step s None s' \<Longrightarrow> execs step s [] s'"
  by (rule execs.silent [OF execs.start])

lemma execs_event1: "step s (Some e) s' \<Longrightarrow> execs step s [e] s'"
  using execs.event [OF execs.start, of step s e s'] by simp

lemma execs_trans:
  assumes "execs step s ls s'" "execs step s' ls' s''"
  shows "execs step s (ls @ ls') s''"
  using assms(2,1)
proof (induction rule: execs.induct)
  case (event s' ls' t e u)
  then show ?case using execs.event [of step s "ls @ ls'" t e u] by simp
qed (auto intro: execs.silent)

lemma execs_inv:
  assumes "execs step s ls s'" "I s" "\<And>s l s'. I s \<Longrightarrow> step s l s' \<Longrightarrow> I s'"
  shows "I s'"
  using assms by (induction rule: execs.induct) blast+

lemma execs_mono:
  assumes "execs step s ls s'" "\<And>s l s'. step s l s' \<Longrightarrow> step' s l s'"
  shows "execs step' s ls s'"
  using assms by (induction rule: execs.induct) (auto intro: execs.intros)

locale simulation =
  fixes step :: "'s \<Rightarrow> 'e option \<Rightarrow> 's \<Rightarrow> bool"
    and invar :: "'s \<Rightarrow> bool"
    and abs :: "'s \<Rightarrow> 'a"
    and astep :: "'a \<Rightarrow> 'e \<Rightarrow> 'a \<Rightarrow> bool"
  assumes invar_step: "invar s \<Longrightarrow> step s l s' \<Longrightarrow> invar s'"
    and silent_step: "invar s \<Longrightarrow> step s None s' \<Longrightarrow> abs s' = abs s"
    and event_step: "invar s \<Longrightarrow> step s (Some e) s' \<Longrightarrow> astep (abs s) e (abs s')"
begin

lemma execs_invar: "execs step s ls s' \<Longrightarrow> invar s \<Longrightarrow> invar s'"
  by (erule execs_inv) (blast intro: invar_step)+

lemma refines:
  assumes "execs step s ls s'" "invar s"
  shows "traces astep (abs s) ls (abs s')"
  using assms
proof (induction rule: execs.induct)
  case (start s)
  show ?case by (rule traces.start)
next
  case (silent s ls s' s'')
  then show ?case using execs_invar silent_step by metis
next
  case (event s ls s' e s'')
  then show ?case using execs_invar event_step by (metis traces.event)
qed

end

end
