(* ===== verification/Timer.thy ===== *)
theory Timer
  imports Console Simulation
begin

text \<open>
  The slot timer, \<open>src/timer.c\<close>: one timer thread and the threads that attached to it (the CPUs
  and the loader, called devices here). Every critical section under \<open>event_lock\<close> or
  \<open>timer_lock\<close> is one step; a \<open>pthread_cond_wait\<close> loop is a step that is possible only when the
  condition of its \<open>while\<close> is false, so spurious and lost wake-ups need no extra case. A device is
  named by a number, its position of attachment. \<open>tpc\<close> and \<open>dpc\<close> are the program points of the
  threads; \<open>temp\<close>, \<open>fsh\<close> and \<open>event\<close> of \<open>timer_routine\<close> are arguments of its program point.
\<close>

section \<open>State\<close>

record timer_id_t =
  t_done :: int
  t_fsh :: int

datatype tpc =
    T_loop
  | T_wait "nat list" int int
  | T_release "nat list" int int
  | T_exit

datatype dpc = D_run | D_wait | D_gone

record timer =
  now :: u64
  dev_list :: "nat list"
  dev :: "nat \<Rightarrow> timer_id_t"
  timer_started :: int
  timer_stop :: int
  tpc :: tpc
  dpc :: "nat \<Rightarrow> dpc"
  tout :: log

definition current_time :: "timer \<Rightarrow> u64" where
  "current_time s = now s"

definition set_dev :: "nat \<Rightarrow> timer_id_t \<Rightarrow> timer \<Rightarrow> timer" where
  "set_dev d x s = s\<lparr>dev := (dev s)(d := x)\<rparr>"

section \<open>The operations\<close>

text \<open>\<open>attach_event\<close> returns NULL when the timer runs, else the new device.\<close>

definition attach_event :: "timer \<Rightarrow> nat option \<times> timer" where
  "attach_event s =
    (if timer_started s \<noteq> 0 then (None, s)
     else
       (let d = length (dev_list s)
        in (Some d, s\<lparr>dev := (dev s)(d := \<lparr>t_done = 0, t_fsh = 0\<rparr>), dev_list := d # dev_list s\<rparr>)))"

definition start_timer :: "timer \<Rightarrow> timer" where
  "start_timer s = s\<lparr>timer_started := 1, tpc := T_loop\<rparr>"

text \<open>The two critical sections of \<open>next_slot\<close>.\<close>

definition next_slot_signal :: "nat \<Rightarrow> timer \<Rightarrow> timer" where
  "next_slot_signal d s = (set_dev d ((dev s d)\<lparr>t_done := 1\<rparr>) s)\<lparr>dpc := (dpc s)(d := D_wait)\<rparr>"

definition next_slot_return :: "nat \<Rightarrow> timer \<Rightarrow> timer option" where
  "next_slot_return d s =
    (if t_done (dev s d) \<noteq> 0 then None else Some (s\<lparr>dpc := (dpc s)(d := D_run)\<rparr>))"

definition detach_event :: "nat \<Rightarrow> timer \<Rightarrow> timer" where
  "detach_event d s = (set_dev d ((dev s d)\<lparr>t_fsh := 1\<rparr>) s)\<lparr>dpc := (dpc s)(d := D_gone)\<rparr>"

text \<open>
  One step of \<open>timer_routine\<close>; \<open>None\<close> when it waits for a device. \<open>T_wait []\<close> is the end of the
  first loop, where the time advances; \<open>T_release []\<close> is the end of the second.
\<close>

definition timer_routine :: "timer \<Rightarrow> timer option" where
  "timer_routine s = (case tpc s of
      T_loop \<Rightarrow>
        if timer_stop s = 0
        then Some (s\<lparr>tout := tout s @ [Line F_time_slot [AL (current_time s)]],
                     tpc := T_wait (dev_list s) 0 0\<rparr>)
        else Some (s\<lparr>tpc := T_exit\<rparr>)
    | T_wait (temp # rest) fsh event \<Rightarrow>
        if t_done (dev s temp) = 0 \<and> t_fsh (dev s temp) = 0 then None
        else Some (s\<lparr>tpc := T_wait rest (if t_fsh (dev s temp) \<noteq> 0 then fsh + 1 else fsh) (event + 1)\<rparr>)
    | T_wait [] fsh event \<Rightarrow> Some (s\<lparr>now := now s + 1, tpc := T_release (dev_list s) fsh event\<rparr>)
    | T_release (temp # rest) fsh event \<Rightarrow>
        Some ((set_dev temp ((dev s temp)\<lparr>t_done := 0\<rparr>) s)\<lparr>tpc := T_release rest fsh event\<rparr>)
    | T_release [] fsh event \<Rightarrow> Some (s\<lparr>tpc := if fsh = event then T_exit else T_loop\<rparr>)
    | T_exit \<Rightarrow> None)"

text \<open>\<open>stop_timer\<close> sets the flag, joins the timer thread and frees the list.\<close>

definition stop_timer_flag :: "timer \<Rightarrow> timer" where
  "stop_timer_flag s = s\<lparr>timer_stop := 1\<rparr>"

definition stop_timer_free :: "timer \<Rightarrow> timer option" where
  "stop_timer_free s = (if tpc s = T_exit then Some (s\<lparr>dev_list := []\<rparr>) else None)"

section \<open>Interleaving\<close>

text \<open>
  The threads run interleaved. \<open>main\<close> calls \<open>stop_timer\<close> after every device has detached. The
  label of a step is what the devices can observe: a device finished its job of the slot, a
  device detached, the time advanced.
\<close>

datatype event = Turn nat | Leave nat | Tick

definition ticks :: "timer \<Rightarrow> bool" where
  "ticks s \<longleftrightarrow> (case tpc s of T_wait [] _ _ \<Rightarrow> True | _ \<Rightarrow> False)"

inductive tstep :: "timer \<Rightarrow> event option \<Rightarrow> timer \<Rightarrow> bool" where
  timer: "timer_routine s = Some s' \<Longrightarrow> tstep s (if ticks s then Some Tick else None) s'"
| signal: "d \<in> set (dev_list s) \<Longrightarrow> dpc s d = D_run \<Longrightarrow> tstep s (Some (Turn d)) (next_slot_signal d s)"
| return: "d \<in> set (dev_list s) \<Longrightarrow> dpc s d = D_wait \<Longrightarrow> next_slot_return d s = Some s' \<Longrightarrow> tstep s None s'"
| detach: "d \<in> set (dev_list s) \<Longrightarrow> dpc s d = D_run \<Longrightarrow> tstep s (Some (Leave d)) (detach_event d s)"
| stop: "\<forall>d \<in> set (dev_list s). dpc s d = D_gone \<Longrightarrow> tstep s None (stop_timer_flag s)"

inductive_cases tstepE: "tstep s l s'"

text \<open>The state \<open>main\<close> starts the threads in: \<open>n\<close> devices attached, then the timer started.\<close>

definition timer0 :: timer where
  "timer0 = \<lparr>now = 0, dev_list = [], dev = (\<lambda>_. \<lparr>t_done = 0, t_fsh = 0\<rparr>), timer_started = 0,
    timer_stop = 0, tpc = T_exit, dpc = (\<lambda>_. D_run), tout = []\<rparr>"

fun attach_all :: "nat \<Rightarrow> timer \<Rightarrow> timer" where
  "attach_all 0 s = s"
| "attach_all (Suc n) s = attach_all n (snd (attach_event s))"

definition timer_boot :: "nat \<Rightarrow> timer" where
  "timer_boot n = start_timer (attach_all n timer0)"

section \<open>The invariant\<close>

definition parked :: "timer \<Rightarrow> nat \<Rightarrow> bool" where
  "parked s d \<longleftrightarrow> dpc s d = D_gone \<or> dpc s d = D_wait \<and> t_done (dev s d) \<noteq> 0"

definition dev_inv :: "timer \<Rightarrow> nat \<Rightarrow> bool" where
  "dev_inv s d \<longleftrightarrow> (t_fsh (dev s d) \<noteq> 0 \<longleftrightarrow> dpc s d = D_gone) \<and>
    (dpc s d = D_run \<longrightarrow> t_done (dev s d) = 0)"

definition gone_count :: "timer \<Rightarrow> nat list \<Rightarrow> int" where
  "gone_count s ds = int (length (filter (\<lambda>d. dpc s d = D_gone) ds))"

definition timer_inv :: "timer \<Rightarrow> bool" where
  "timer_inv s \<longleftrightarrow> distinct (dev_list s) \<and> (\<forall>d \<in> set (dev_list s). dev_inv s d) \<and>
    (timer_stop s \<noteq> 0 \<longrightarrow> (\<forall>d \<in> set (dev_list s). dpc s d = D_gone)) \<and>
    (case tpc s of
       T_loop \<Rightarrow> True
     | T_wait temp fsh event \<Rightarrow>
         (\<exists>seen. dev_list s = seen @ temp \<and> (\<forall>d \<in> set seen. parked s d) \<and>
            fsh = gone_count s seen \<and> event = int (length seen))
     | T_release temp fsh event \<Rightarrow>
         (\<exists>seen. dev_list s = seen @ temp) \<and> (\<forall>d \<in> set temp. parked s d) \<and>
         event = int (length (dev_list s)) \<and> fsh \<le> gone_count s (dev_list s)
     | T_exit \<Rightarrow> \<forall>d \<in> set (dev_list s). dpc s d = D_gone)"

lemma set_dev_simps [simp]:
  "now (set_dev d x s) = now s" "dev_list (set_dev d x s) = dev_list s"
  "dev (set_dev d x s) = (dev s)(d := x)" "timer_stop (set_dev d x s) = timer_stop s"
  "tpc (set_dev d x s) = tpc s" "dpc (set_dev d x s) = dpc s"
  "timer_started (set_dev d x s) = timer_started s"
  by (simp_all add: set_dev_def)

lemma attach_all_fields:
  assumes "timer_started s = 0" "dev_list s = rev [0..<m]"
    "\<forall>d < m. dev s d = \<lparr>t_done = 0, t_fsh = 0\<rparr>"
  shows "dev_list (attach_all n s) = rev [0..<m + n] \<and>
    (\<forall>d < m + n. dev (attach_all n s) d = \<lparr>t_done = 0, t_fsh = 0\<rparr>) \<and>
    dpc (attach_all n s) = dpc s \<and> timer_stop (attach_all n s) = timer_stop s \<and> now (attach_all n s) = now s"
  using assms
proof (induction n arbitrary: s m)
  case (Suc n)
  let ?s = "snd (attach_event s)"
  have "timer_started ?s = 0" "dev_list ?s = rev [0..<Suc m]"
    "\<forall>d < Suc m. dev ?s d = \<lparr>t_done = 0, t_fsh = 0\<rparr>"
    using Suc.prems by (simp_all add: attach_event_def Let_def less_Suc_eq)
  from Suc.IH [OF this] show ?case
    using Suc.prems by (simp add: attach_event_def Let_def)
qed simp

lemma timer_boot_fields [simp]:
  "dev_list (timer_boot n) = rev [0..<n]" "dpc (timer_boot n) = (\<lambda>_. D_run)"
  "timer_stop (timer_boot n) = 0" "now (timer_boot n) = 0" "tpc (timer_boot n) = T_loop"
  "d < n \<Longrightarrow> dev (timer_boot n) d = \<lparr>t_done = 0, t_fsh = 0\<rparr>"
  using attach_all_fields [of timer0 0 n] by (simp_all add: timer_boot_def start_timer_def timer0_def)

lemma timer_inv_boot: "timer_inv (timer_boot n)"
  by (simp add: timer_inv_def dev_inv_def)

text \<open>Steps of a device leave the parked devices alone.\<close>

lemma parked_not_run: "parked s d \<Longrightarrow> dpc s d \<noteq> D_run"
  by (auto simp: parked_def)

lemma gone_count_cong: "\<forall>d \<in> set ds. dpc s' d = D_gone \<longleftrightarrow> dpc s d = D_gone \<Longrightarrow> gone_count s' ds = gone_count s ds"
  by (simp add: gone_count_def cong: filter_cong)

lemma gone_count_mono:
  assumes "\<forall>d \<in> set ds. dpc s d = D_gone \<longrightarrow> dpc s' d = D_gone"
  shows "gone_count s ds \<le> gone_count s' ds"
  using assms by (induction ds) (auto simp: gone_count_def)

lemma gone_count_le: "gone_count s ds \<le> int (length ds)"
  by (simp add: gone_count_def)

lemma gone_count_all: "gone_count s ds = int (length ds) \<longleftrightarrow> (\<forall>d \<in> set ds. dpc s d = D_gone)"
proof
  assume eq: "gone_count s ds = int (length ds)"
  show "\<forall>d \<in> set ds. dpc s d = D_gone"
  proof (rule ballI, rule ccontr)
    fix d assume "d \<in> set ds" "dpc s d \<noteq> D_gone"
    from length_filter_less [of d ds "\<lambda>d. dpc s d = D_gone", OF this] eq
    show False by (simp add: gone_count_def)
  qed
qed (simp add: gone_count_def)

text \<open>A change of one running or released device, timer at rest.\<close>

lemma timer_inv_device:
  assumes inv: "timer_inv s" and d: "d \<in> set (dev_list s)" "\<not> parked s d"
    and same: "dev_list s' = dev_list s" "tpc s' = tpc s" "timer_stop s' = timer_stop s"
      "\<forall>e. e \<noteq> d \<longrightarrow> dpc s' e = dpc s e \<and> dev s' e = dev s e"
    and own: "dev_inv s' d"
  shows "timer_inv s'"
proof -
  have gone: "dpc s d \<noteq> D_gone" using d(2) by (simp add: parked_def)
  have pk: "parked s e \<Longrightarrow> parked s' e" for e
    using d(2) same(4) by (cases "e = d") (auto simp: parked_def)
  have other: "dev_inv s' e" if "e \<in> set (dev_list s)" for e
    using that inv own same(4) by (cases "e = d") (auto simp: timer_inv_def dev_inv_def)
  have stop: "timer_stop s = 0" using inv d(1) gone by (auto simp: timer_inv_def)
  have exit_: "tpc s \<noteq> T_exit" using inv d(1) gone by (auto simp: timer_inv_def)
  have cnt: "gone_count s' ds = gone_count s ds" if "\<forall>e \<in> set ds. parked s e" for ds
    using that d(2) same(4) by (intro gone_count_cong) auto
  have mono: "gone_count s ds \<le> gone_count s' ds" for ds
    using gone same(4) by (intro gone_count_mono) auto
  show ?thesis
  proof (cases "tpc s")
    case T_loop
    then show ?thesis using inv other same(1-3) stop by (simp add: timer_inv_def)
  next
    case (T_wait temp fsh event)
    then obtain seen where "dev_list s = seen @ temp" "\<forall>e \<in> set seen. parked s e"
      "fsh = gone_count s seen" "event = int (length seen)"
      using inv by (auto simp: timer_inv_def)
    then show ?thesis
      using inv T_wait other same(1-3) stop pk cnt [of seen] by (auto simp: timer_inv_def)
  next
    case (T_release temp fsh event)
    then show ?thesis
      using inv other same(1-3) stop pk mono [of "dev_list s"] by (auto simp: timer_inv_def)
  next
    case T_exit
    then show ?thesis using exit_ by simp
  qed
qed

lemma timer_inv_wait:
  assumes inv: "timer_inv s" and step: "timer_routine s = Some s'" and T_wait: "tpc s = T_wait temp fsh event"
  shows "timer_inv s'"
proof -
  obtain seen where seen: "dev_list s = seen @ temp" "\<forall>e \<in> set seen. parked s e"
    "fsh = gone_count s seen" "event = int (length seen)"
    using inv T_wait by (auto simp: timer_inv_def)
  show ?thesis
  proof (cases temp)
    case Nil
    then have s': "s' = s\<lparr>now := now s + 1, tpc := T_release (dev_list s) fsh event\<rparr>"
      using step T_wait by (simp add: timer_routine_def)
    show ?thesis using inv seen Nil unfolding s' by (simp add: timer_inv_def dev_inv_def parked_def gone_count_def)
  next
    case (Cons d rest)
    have d: "dev_inv s d" using inv seen(1) Cons by (simp add: timer_inv_def)
    have blk: "\<not> (t_done (dev s d) = 0 \<and> t_fsh (dev s d) = 0)"
      and s': "s' = s\<lparr>tpc := T_wait rest (if t_fsh (dev s d) \<noteq> 0 then fsh + 1 else fsh) (event + 1)\<rparr>"
      using step T_wait Cons by (auto simp: timer_routine_def split: if_splits)
    have pk: "parked s d" using d blk by (cases "dpc s d") (auto simp: dev_inv_def parked_def)
    have "(if t_fsh (dev s d) \<noteq> 0 then fsh + 1 else fsh) = gone_count s (seen @ [d])"
      using d seen(3) by (simp add: gone_count_def dev_inv_def)
    then show ?thesis
      using inv seen pk Cons unfolding s'
      by (auto simp: timer_inv_def dev_inv_def parked_def gone_count_def intro!: exI [of _ "seen @ [d]"])
  qed
qed

lemma timer_inv_release:
  assumes inv: "timer_inv s" and step: "timer_routine s = Some s'" and T_release: "tpc s = T_release temp fsh event"
  shows "timer_inv s'"
proof -
  show ?thesis
  proof (cases temp)
    case Nil
    then have s': "s' = s\<lparr>tpc := if fsh = event then T_exit else T_loop\<rparr>"
      using step T_release by (simp add: timer_routine_def)
    have "\<forall>d \<in> set (dev_list s). dpc s d = D_gone" if "fsh = event"
      using inv T_release that gone_count_le [of s "dev_list s"] gone_count_all [of s "dev_list s"]
      by (simp add: timer_inv_def)
    then show ?thesis using inv unfolding s' by (auto simp: timer_inv_def dev_inv_def)
  next
    case (Cons d rest)
    then have s': "s' = (set_dev d ((dev s d)\<lparr>t_done := 0\<rparr>) s)\<lparr>tpc := T_release rest fsh event\<rparr>"
      using step T_release by (simp add: timer_routine_def)
    obtain seen where seen: "dev_list s = seen @ d # rest" using inv T_release Cons by (auto simp: timer_inv_def)
    then have notin: "d \<notin> set rest" using inv by (simp add: timer_inv_def)
    have "\<forall>e \<in> set rest. parked s' e"
      using inv T_release Cons notin unfolding s' by (auto simp: timer_inv_def parked_def)
    moreover have "\<forall>e \<in> set (dev_list s). dev_inv s' e"
      using inv unfolding s' by (auto simp: timer_inv_def dev_inv_def)
    moreover have "gone_count s' (dev_list s) = gone_count s (dev_list s)"
      by (rule gone_count_cong) (simp add: s')
    ultimately show ?thesis
      using inv T_release seen unfolding s' by (auto simp: timer_inv_def intro: exI [of _ "seen @ [d]"])
  qed
qed

lemma timer_inv_timer:
  assumes inv: "timer_inv s" and step: "timer_routine s = Some s'"
  shows "timer_inv s'"
proof (cases "tpc s")
  case T_loop
  then show ?thesis
    using assms by (auto simp: timer_routine_def timer_inv_def dev_inv_def parked_def gone_count_def split: if_splits)
qed (use step timer_inv_wait [OF assms] timer_inv_release [OF assms] in \<open>simp_all add: timer_routine_def\<close>)

lemma timer_inv_step:
  assumes "timer_inv s" "tstep s l s'"
  shows "timer_inv s'"
  using assms(2,1)
proof (induction rule: tstep.induct)
  case (timer s s')
  then show ?case by (blast intro: timer_inv_timer)
next
  case (signal d s)
  then show ?case
    by (intro timer_inv_device [OF signal.prems signal.hyps(1)])
      (auto simp: next_slot_signal_def parked_def dev_inv_def timer_inv_def)
next
  case (return d s s')
  then show ?case
    by (intro timer_inv_device [OF return.prems return.hyps(1)])
      (auto simp: next_slot_return_def parked_def dev_inv_def timer_inv_def split: if_splits)
next
  case (detach d s)
  then show ?case
    by (intro timer_inv_device [OF detach.prems detach.hyps(1)])
      (auto simp: detach_event_def parked_def dev_inv_def timer_inv_def)
next
  case (stop s)
  then show ?case
    by (cases "tpc s") (auto simp: timer_inv_def stop_timer_flag_def dev_inv_def parked_def gone_count_def)
qed

lemma tstep_dev_list: "tstep s l s' \<Longrightarrow> dev_list s' = dev_list s"
  by (erule tstepE)
    (auto simp: timer_routine_def next_slot_signal_def next_slot_return_def detach_event_def
      stop_timer_flag_def split: tpc.splits list.splits if_splits)

section \<open>What the timer implements\<close>

text \<open>
  The contract: a barrier. In each slot every device that has not left takes one turn, in any
  order; when all have, the clock advances and the next slot begins.
\<close>

record barrier =
  clock :: u64
  turned :: "nat set"
  gone :: "nat set"

inductive bstep :: "nat set \<Rightarrow> barrier \<Rightarrow> event \<Rightarrow> barrier \<Rightarrow> bool" for ds where
  turn: "d \<in> ds \<Longrightarrow> d \<notin> turned b \<Longrightarrow> d \<notin> gone b \<Longrightarrow> bstep ds b (Turn d) (b\<lparr>turned := insert d (turned b)\<rparr>)"
| leave: "d \<in> ds \<Longrightarrow> d \<notin> turned b \<Longrightarrow> d \<notin> gone b \<Longrightarrow> bstep ds b (Leave d) (b\<lparr>gone := insert d (gone b)\<rparr>)"
| tick: "ds \<subseteq> turned b \<union> gone b \<Longrightarrow> bstep ds b Tick (b\<lparr>clock := clock b + 1, turned := {}\<rparr>)"

inductive_simps bstep_simps: "bstep ds b e b'"

definition releasing :: "timer \<Rightarrow> nat \<Rightarrow> bool" where
  "releasing s d \<longleftrightarrow> (case tpc s of T_release temp _ _ \<Rightarrow> d \<in> set temp | _ \<Rightarrow> False)"

definition barrier_of :: "timer \<Rightarrow> barrier" where
  "barrier_of s = \<lparr>clock = now s,
    turned = {d \<in> set (dev_list s). dpc s d = D_wait \<and> t_done (dev s d) \<noteq> 0 \<and> \<not> releasing s d},
    gone = {d \<in> set (dev_list s). dpc s d = D_gone}\<rparr>"

lemma barrier_timer:
  assumes inv: "timer_inv s" and step: "timer_routine s = Some s'"
  shows "if ticks s then bstep (set (dev_list s)) (barrier_of s) Tick (barrier_of s')
    else barrier_of s' = barrier_of s"
proof (cases "tpc s")
  case T_loop
  then show ?thesis
    using step by (auto simp: timer_routine_def ticks_def barrier_of_def releasing_def split: if_splits)
next
  case (T_wait temp fsh event)
  show ?thesis
  proof (cases temp)
    case Nil
    then have s': "s' = s\<lparr>now := now s + 1, tpc := T_release (dev_list s) fsh event\<rparr>"
      using step T_wait by (simp add: timer_routine_def)
    have "\<forall>d \<in> set (dev_list s). parked s d" using inv T_wait Nil by (simp add: timer_inv_def)
    then have "set (dev_list s) \<subseteq> turned (barrier_of s) \<union> gone (barrier_of s)"
      using T_wait by (auto simp: barrier_of_def parked_def releasing_def)
    moreover have "barrier_of s' = (barrier_of s)\<lparr>clock := clock (barrier_of s) + 1, turned := {}\<rparr>"
      by (auto simp: s' barrier_of_def releasing_def)
    ultimately show ?thesis using T_wait Nil by (simp add: ticks_def bstep_simps)
  next
    case (Cons d rest)
    then show ?thesis
      using step T_wait by (auto simp: timer_routine_def ticks_def barrier_of_def releasing_def split: if_splits)
  qed
next
  case (T_release temp fsh event)
  show ?thesis
  proof (cases temp)
    case Nil
    then show ?thesis
      using step T_release
      by (auto simp: timer_routine_def ticks_def barrier_of_def releasing_def split: if_splits)
  next
    case (Cons d rest)
    then have s': "s' = (set_dev d ((dev s d)\<lparr>t_done := 0\<rparr>) s)\<lparr>tpc := T_release rest fsh event\<rparr>"
      using step T_release by (simp add: timer_routine_def)
    have "d \<notin> set rest" using inv T_release Cons by (auto simp: timer_inv_def)
    then show ?thesis using T_release Cons unfolding s'
      by (auto simp: ticks_def barrier_of_def releasing_def)
  qed
next
  case T_exit
  then show ?thesis using step by (simp add: timer_routine_def)
qed

lemma barrier_step:
  assumes "timer_inv s" "tstep s l s'"
  shows "case l of None \<Rightarrow> barrier_of s' = barrier_of s
    | Some e \<Rightarrow> bstep (set (dev_list s)) (barrier_of s) e (barrier_of s')"
  using assms(2,1)
proof (induction rule: tstep.induct)
  case (timer s s')
  then show ?case using barrier_timer [of s s'] by (auto split: if_splits)
next
  case (signal d s)
  have "\<not> releasing s d"
    using signal parked_not_run [of s d] by (auto simp: timer_inv_def releasing_def split: tpc.splits)
  then have "barrier_of (next_slot_signal d s) =
      (barrier_of s)\<lparr>turned := insert d (turned (barrier_of s))\<rparr>"
    using signal.hyps by (auto simp: barrier_of_def next_slot_signal_def releasing_def)
  then show ?case using signal.hyps by (simp add: bstep_simps) (simp add: barrier_of_def)
next
  case (return d s s')
  then show ?case
    by (auto simp: barrier_of_def next_slot_return_def releasing_def split: if_splits)
next
  case (detach d s)
  have "barrier_of (detach_event d s) = (barrier_of s)\<lparr>gone := insert d (gone (barrier_of s))\<rparr>"
    using detach by (auto simp: barrier_of_def detach_event_def releasing_def)
  then show ?case using detach.hyps by (simp add: bstep_simps) (simp add: barrier_of_def)
next
  case (stop s)
  show ?case by (simp add: barrier_of_def stop_timer_flag_def releasing_def)
qed

definition timer_with :: "nat \<Rightarrow> timer \<Rightarrow> bool" where
  "timer_with n s \<longleftrightarrow> timer_inv s \<and> set (dev_list s) = {0..<n}"

interpretation timer_sim: simulation tstep "timer_with n" barrier_of "bstep {0..<n}" for n
proof unfold_locales
  fix s l s' assume s: "timer_with n s" "tstep s l s'"
  then show "timer_with n s'"
    using timer_inv_step tstep_dev_list by (auto simp: timer_with_def)
next
  fix s s' assume "timer_with n s" "tstep s None s'"
  then show "barrier_of s' = barrier_of s" using barrier_step [of s None s'] by (simp add: timer_with_def)
next
  fix s e s' assume "timer_with n s" "tstep s (Some e) s'"
  then show "bstep {0..<n} (barrier_of s) e (barrier_of s')"
    using barrier_step [of s "Some e" s'] by (simp add: timer_with_def)
qed

lemma timer_with_boot: "timer_with n (timer_boot n)"
  using timer_inv_boot by (simp add: timer_with_def)

lemma barrier_of_boot: "barrier_of (timer_boot n) = \<lparr>clock = 0, turned = {}, gone = {}\<rparr>"
  by (simp add: barrier_of_def)

text \<open>How often a device took its turn, in the barrier.\<close>

lemma barrier_turns:
  assumes "traces (bstep ds) \<lparr>clock = 0, turned = {}, gone = {}\<rparr> ls b" "d \<in> ds"
  shows "clock b = of_nat (count_list ls Tick) \<and>
    (d \<notin> gone b \<longrightarrow> count_list ls (Turn d) = count_list ls Tick + (if d \<in> turned b then 1 else 0))"
  using assms
proof (induction "\<lparr>clock = 0 :: u64, turned = {}, gone = {}\<rparr>" ls b rule: traces.induct)
  case (event ls b e c)
  then show ?case by (auto simp: bstep_simps)
qed simp

section \<open>The timer never gets stuck\<close>

text \<open>
  From a state where no device runs, the timer alone goes once around its loop: first every
  device is seen, then the clock ticks, then every device is released.
\<close>

definition silent_run :: "timer \<Rightarrow> timer \<Rightarrow> bool" where
  "silent_run s s' \<longleftrightarrow> (\<exists>ls. execs tstep s ls s' \<and> set ls \<subseteq> {Tick})"

lemma silent_run_refl [simp]: "silent_run s s"
  unfolding silent_run_def by (intro exI [of _ "[]"]) (simp add: execs.start)

lemma silent_run_trans: "silent_run s t \<Longrightarrow> silent_run t u \<Longrightarrow> silent_run s u"
  unfolding silent_run_def using execs_trans by (metis (mono_tags, lifting) Un_subset_iff set_append)

lemma silent_run_timer:
  assumes "timer_routine s = Some s'"
  shows "silent_run s s'"
proof (cases "ticks s")
  case True
  then have "execs tstep s [Tick] s'" using tstep.timer [OF assms] by (simp add: execs_event1)
  then show ?thesis unfolding silent_run_def by (intro exI [of _ "[Tick]"]) simp
next
  case False
  then have "execs tstep s [] s'" using tstep.timer [OF assms] by (simp add: execs_silent1)
  then show ?thesis unfolding silent_run_def by (intro exI [of _ "[]"]) simp
qed

lemma silent_run_inv: "silent_run s s' \<Longrightarrow> timer_inv s \<Longrightarrow> timer_inv s'"
  unfolding silent_run_def using execs_inv [of tstep s _ s' timer_inv] timer_inv_step by blast

lemma wait_pass:
  assumes "tpc s = T_wait temp f e" "\<forall>d \<in> set temp. t_done (dev s d) \<noteq> 0 \<or> t_fsh (dev s d) \<noteq> 0"
  shows "\<exists>f' e'. silent_run s (s\<lparr>tpc := T_wait [] f' e'\<rparr>)"
  using assms
proof (induction temp arbitrary: s f e)
  case Nil
  then have "s\<lparr>tpc := T_wait [] f e\<rparr> = s" by simp
  then show ?case by (metis silent_run_refl)
next
  case (Cons d rest)
  let ?f = "if t_fsh (dev s d) \<noteq> 0 then f + 1 else f"
  let ?s = "s\<lparr>tpc := T_wait rest ?f (e + 1)\<rparr>"
  have "timer_routine s = Some ?s" using Cons.prems by (auto simp: timer_routine_def)
  note one = silent_run_timer [OF this]
  obtain f' e' where "silent_run ?s (?s\<lparr>tpc := T_wait [] f' e'\<rparr>)"
    using Cons.IH [of ?s ?f "e + 1"] Cons.prems(2) by auto
  then have "silent_run ?s (s\<lparr>tpc := T_wait [] f' e'\<rparr>)" by simp
  then show ?case using silent_run_trans [OF one] by blast
qed

lemma release_pass:
  assumes "tpc s = T_release temp f e"
  shows "silent_run s (s\<lparr>dev := (\<lambda>d. if d \<in> set temp then (dev s d)\<lparr>t_done := 0\<rparr> else dev s d),
    tpc := T_release [] f e\<rparr>)"
  using assms
proof (induction temp arbitrary: s)
  case Nil
  then have "s\<lparr>dev := (\<lambda>d. if d \<in> set [] then (dev s d)\<lparr>t_done := 0\<rparr> else dev s d),
      tpc := T_release [] f e\<rparr> = s" by simp
  then show ?case by (metis silent_run_refl)
next
  case (Cons d rest)
  let ?s = "(set_dev d ((dev s d)\<lparr>t_done := 0\<rparr>) s)\<lparr>tpc := T_release rest f e\<rparr>"
  let ?t = "\<lambda>s ds. s\<lparr>dev := (\<lambda>d. if d \<in> set ds then (dev s d)\<lparr>t_done := 0\<rparr> else dev s d),
    tpc := T_release [] f e\<rparr>"
  have "timer_routine s = Some ?s" using Cons.prems by (simp add: timer_routine_def)
  note one = silent_run_timer [OF this]
  have "?t ?s rest = ?t s (d # rest)"
    by (rule timer.equality) (auto simp: set_dev_def fun_eq_iff)
  moreover have "silent_run ?s (?t ?s rest)" by (rule Cons.IH) simp
  ultimately show ?case using silent_run_trans [OF one] by simp
qed

text \<open>A whole turn of the loop from its start, when every device is parked.\<close>

definition all_parked :: "timer \<Rightarrow> bool" where
  "all_parked s \<longleftrightarrow> (\<forall>d \<in> set (dev_list s). parked s d)"

lemma parked_ready: "dev_inv s d \<Longrightarrow> parked s d \<Longrightarrow> t_done (dev s d) \<noteq> 0 \<or> t_fsh (dev s d) \<noteq> 0"
  by (auto simp: parked_def dev_inv_def)

lemma wait_to_release:
  assumes "timer_inv s" "tpc s = T_wait temp f e" "all_parked s"
  shows "\<exists>t f' e'. silent_run s t \<and> timer_inv t \<and> tpc t = T_release [] f' e' \<and> dev_list t = dev_list s \<and>
    dpc t = dpc s \<and> (\<forall>d \<in> set (dev_list s). t_done (dev t d) = 0) \<and>
    f' = gone_count s (dev_list s) \<and> e' = int (length (dev_list s))"
proof -
  have sub: "set temp \<subseteq> set (dev_list s)" using assms(1,2) by (auto simp: timer_inv_def)
  then have "\<forall>d \<in> set temp. t_done (dev s d) \<noteq> 0 \<or> t_fsh (dev s d) \<noteq> 0"
    using assms(1,3) parked_ready by (auto simp: timer_inv_def all_parked_def)
  then obtain f' e' where w: "silent_run s (s\<lparr>tpc := T_wait [] f' e'\<rparr>)"
    using wait_pass [OF assms(2)] by blast
  let ?w = "s\<lparr>tpc := T_wait [] f' e'\<rparr>"
  have cnt: "f' = gone_count s (dev_list s)" "e' = int (length (dev_list s))"
    using silent_run_inv [OF w assms(1)] by (simp_all add: timer_inv_def gone_count_def)
  let ?r = "?w\<lparr>now := now ?w + 1, tpc := T_release (dev_list ?w) f' e'\<rparr>"
  have "timer_routine ?w = Some ?r" by (simp add: timer_routine_def)
  note r = silent_run_trans [OF w silent_run_timer [OF this]]
  let ?t = "?r\<lparr>dev := (\<lambda>d. if d \<in> set (dev_list s) then (dev ?r d)\<lparr>t_done := 0\<rparr> else dev ?r d),
    tpc := T_release [] f' e'\<rparr>"
  have "silent_run ?r ?t" by (rule release_pass) simp
  note t = silent_run_trans [OF r this]
  show ?thesis
    using t silent_run_inv [OF t assms(1)] cnt by (intro exI [of _ ?t] exI [of _ f'] exI [of _ e']) simp
qed

lemma loop_to_release:
  assumes "timer_inv s" "tpc s = T_loop" "all_parked s" "timer_stop s = 0"
  shows "\<exists>t f' e'. silent_run s t \<and> timer_inv t \<and> tpc t = T_release [] f' e' \<and> dev_list t = dev_list s \<and>
    dpc t = dpc s \<and> (\<forall>d \<in> set (dev_list s). t_done (dev t d) = 0) \<and>
    f' = gone_count s (dev_list s) \<and> e' = int (length (dev_list s))"
proof -
  let ?s = "s\<lparr>tout := tout s @ [Line F_time_slot [AL (current_time s)]], tpc := T_wait (dev_list s) 0 0\<rparr>"
  have "timer_routine s = Some ?s" using assms(2,4) by (simp add: timer_routine_def)
  note one = silent_run_timer [OF this]
  have "all_parked ?s" using assms(3) by (simp add: all_parked_def parked_def)
  from wait_to_release [OF silent_run_inv [OF one assms(1)] _ this, of "dev_list s" 0 0]
  obtain t f' e' where "silent_run ?s t" "timer_inv t" "tpc t = T_release [] f' e'" "dev_list t = dev_list s"
    "dpc t = dpc s" "\<forall>d \<in> set (dev_list s). t_done (dev t d) = 0"
    "f' = gone_count s (dev_list s)" "e' = int (length (dev_list s))"
    by (auto simp: gone_count_def)
  then show ?thesis using silent_run_trans [OF one] by blast
qed

text \<open>A device that waits and is released runs again.\<close>

lemma wake:
  assumes "d \<in> set (dev_list s)" "dpc s d = D_wait" "t_done (dev s d) = 0"
  shows "\<exists>t. silent_run s t \<and> dpc t d = D_run"
proof -
  let ?t = "s\<lparr>dpc := (dpc s)(d := D_run)\<rparr>"
  have "next_slot_return d s = Some ?t" using assms(3) by (simp add: next_slot_return_def)
  from execs_silent1 [of tstep, OF tstep.return [OF assms(1,2) this]]
  have "silent_run s ?t" unfolding silent_run_def by (intro exI [of _ "[]"]) simp
  then show ?thesis by (intro exI [of _ ?t]) simp
qed

lemma release_end:
  assumes "timer_inv s" "tpc s = T_release temp f e" "all_parked s"
    and "d \<in> set (dev_list s)" "dpc s d = D_wait"
  shows "(\<exists>t c. silent_run s t \<and> c \<in> set (dev_list s) \<and> dpc t c = D_run) \<or>
    (\<exists>t. silent_run s t \<and> timer_inv t \<and> tpc t = T_loop \<and> all_parked t \<and> dev_list t = dev_list s \<and> dpc t = dpc s)"
proof -
  let ?t = "s\<lparr>dev := (\<lambda>d. if d \<in> set temp then (dev s d)\<lparr>t_done := 0\<rparr> else dev s d),
    tpc := T_release [] f e\<rparr>"
  have run: "silent_run s ?t" by (rule release_pass [OF assms(2)])
  show ?thesis
  proof (cases "\<exists>c \<in> set temp. dpc s c = D_wait")
    case True
    then obtain c where c: "c \<in> set temp" "dpc s c = D_wait" by blast
    have "c \<in> set (dev_list s)" using c(1) assms(1,2) by (auto simp: timer_inv_def)
    moreover from this obtain u where "silent_run ?t u" "dpc u c = D_run"
      using wake [of c ?t] c by auto
    ultimately show ?thesis using silent_run_trans [OF run] by blast
  next
    case False
    have "f \<noteq> e"
    proof
      assume "f = e"
      then have "gone_count s (dev_list s) = int (length (dev_list s))"
        using assms(1,2) gone_count_le [of s "dev_list s"] by (simp add: timer_inv_def)
      then show False using assms(4,5) by (simp add: gone_count_all)
    qed
    let ?u = "?t\<lparr>tpc := T_loop\<rparr>"
    have "timer_routine ?t = Some ?u" using \<open>f \<noteq> e\<close> by (simp add: timer_routine_def)
    note u = silent_run_trans [OF run silent_run_timer [OF this]]
    have "all_parked ?u" using assms(3) False by (auto simp: all_parked_def parked_def)
    then have "tpc ?u = T_loop \<and> all_parked ?u \<and> dev_list ?u = dev_list s \<and> dpc ?u = dpc s" by simp
    then show ?thesis using u silent_run_inv [OF u assms(1)] by blast
  qed
qed

lemma timer_wakes_one:
  assumes inv: "timer_inv s" and d: "d \<in> set (dev_list s)" "dpc s d \<noteq> D_gone"
  shows "\<exists>t c. silent_run s t \<and> c \<in> set (dev_list s) \<and> dpc t c = D_run"
proof (cases "all_parked s")
  case False
  then obtain c where c: "c \<in> set (dev_list s)" "\<not> parked s c" by (auto simp: all_parked_def)
  show ?thesis
  proof (cases "dpc s c")
    case D_run
    then show ?thesis using c by (intro exI [of _ s] exI [of _ c]) simp
  next
    case D_wait
    then show ?thesis using c wake [of c s] by (auto simp: parked_def)
  next
    case D_gone
    then show ?thesis using c by (simp add: parked_def)
  qed
next
  case True
  have dw: "dpc s d = D_wait" using True d by (auto simp: all_parked_def parked_def)
  have stop: "timer_stop t = 0" if "timer_inv t" "dev_list t = dev_list s" "dpc t = dpc s" for t
    using that d by (auto simp: timer_inv_def)
  have woken: "\<exists>u c. silent_run s u \<and> c \<in> set (dev_list s) \<and> dpc u c = D_run"
    if "silent_run s t" "dev_list t = dev_list s" "dpc t = dpc s" "\<forall>d \<in> set (dev_list s). t_done (dev t d) = 0" for t
    using wake [of d t] that d(1) dw silent_run_trans [OF that(1)] by metis
  have from_loop: "\<exists>u c. silent_run s u \<and> c \<in> set (dev_list s) \<and> dpc u c = D_run"
    if t: "silent_run s t" "timer_inv t" "tpc t = T_loop" "all_parked t" "dev_list t = dev_list s" "dpc t = dpc s" for t
    using loop_to_release [OF t(2-4) stop [OF t(2,5,6)]] woken silent_run_trans [OF t(1)] t(5,6) by metis
  show ?thesis
  proof (cases "tpc s")
    case T_loop
    then show ?thesis using from_loop [of s] inv True by simp
  next
    case (T_wait temp f e)
    then show ?thesis using wait_to_release [OF inv _ True] woken by metis
  next
    case (T_release temp f e)
    then show ?thesis using release_end [OF inv _ True d(1) dw] from_loop by metis
  next
    case T_exit
    then show ?thesis using inv d by (simp add: timer_inv_def)
  qed
qed

lemma release_exit:
  assumes "tpc t = T_release [] f e" "f = e"
  shows "\<exists>u. silent_run t u \<and> tpc u = T_exit"
proof -
  have "timer_routine t = Some (t\<lparr>tpc := T_exit\<rparr>)" using assms by (simp add: timer_routine_def)
  from silent_run_timer [OF this] show ?thesis by (intro exI [of _ "t\<lparr>tpc := T_exit\<rparr>"]) simp
qed

lemma timer_ends_loop:
  assumes inv: "timer_inv s" and loop: "tpc s = T_loop" and all: "\<forall>d \<in> set (dev_list s). dpc s d = D_gone"
  shows "\<exists>t. silent_run s t \<and> tpc t = T_exit"
proof (cases "timer_stop s = 0")
  case True
  have pk: "all_parked s" using all by (simp add: all_parked_def parked_def)
  show ?thesis
    using loop_to_release [OF inv loop pk True] release_exit silent_run_trans gone_count_all [THEN iffD2, OF all] by metis
next
  case False
  then have "timer_routine s = Some (s\<lparr>tpc := T_exit\<rparr>)" using loop by (simp add: timer_routine_def)
  from silent_run_timer [OF this] show ?thesis by (intro exI [of _ "s\<lparr>tpc := T_exit\<rparr>"]) simp
qed

lemma timer_ends:
  assumes inv: "timer_inv s" and all: "\<forall>d \<in> set (dev_list s). dpc s d = D_gone"
  shows "\<exists>t. silent_run s t \<and> tpc t = T_exit"
proof (cases "tpc s")
  case T_loop
  then show ?thesis using timer_ends_loop [OF inv _ all] by simp
next
  case (T_wait temp f e)
  have "all_parked s" using all by (simp add: all_parked_def parked_def)
  then show ?thesis
    using wait_to_release [OF inv T_wait] release_exit silent_run_trans gone_count_all [THEN iffD2, OF all] by metis
next
  case (T_release temp f e)
  let ?t = "s\<lparr>dev := (\<lambda>d. if d \<in> set temp then (dev s d)\<lparr>t_done := 0\<rparr> else dev s d),
    tpc := T_release [] f e\<rparr>"
  have run: "silent_run s ?t" by (rule release_pass [OF T_release])
  let ?u = "?t\<lparr>tpc := if f = e then T_exit else T_loop\<rparr>"
  have "timer_routine ?t = Some ?u" by (simp add: timer_routine_def)
  note u = silent_run_trans [OF run silent_run_timer [OF this]]
  show ?thesis
  proof (cases "f = e")
    case True
    then show ?thesis using u by (intro exI [of _ ?u]) simp
  next
    case False
    then show ?thesis
      using timer_ends_loop [OF silent_run_inv [OF u inv]] all silent_run_trans [OF u] by auto
  qed
next
  case T_exit
  then show ?thesis by (intro exI [of _ s]) simp
qed

section \<open>Properties\<close>

lemma timer_with_run: "execs tstep (timer_boot n) ls s \<Longrightarrow> timer_with n s"
  using timer_sim.execs_invar [of "timer_boot n" ls s n] timer_with_boot by simp

lemma timer_run_inv: "execs tstep (timer_boot n) ls s \<Longrightarrow> timer_inv s \<and> set (dev_list s) = {0..<n}"
  using timer_with_run by (simp add: timer_with_def)

lemma timer_run_barrier:
  assumes "execs tstep (timer_boot n) ls s"
  shows "traces (bstep {0..<n}) \<lparr>clock = 0, turned = {}, gone = {}\<rparr> ls (barrier_of s)"
  using timer_sim.refines [OF assms timer_with_boot] by (simp add: barrier_of_boot)

text \<open>A run of one device: its turn, the timer's pass over the list, the tick.\<close>

lemma one_turn: "execs tstep (timer_boot 1) [Turn 0] (next_slot_signal 0 (timer_boot 1))"
  by (rule execs_event1) (rule tstep.signal; simp)

lemma one_slot:
  "\<exists>s. execs tstep (timer_boot 1) [Turn 0, Tick] s \<and> now s = 1 \<and> dpc s 0 = D_wait"
proof -
  let ?a = "next_slot_signal 0 (timer_boot 1)"
  let ?b = "?a\<lparr>tout := tout ?a @ [Line F_time_slot [AL (current_time ?a)]], tpc := T_wait (dev_list ?a) 0 0\<rparr>"
  let ?c = "?b\<lparr>tpc := T_wait [] 0 1\<rparr>"
  let ?d = "?c\<lparr>now := now ?c + 1, tpc := T_release (dev_list ?c) 0 1\<rparr>"
  note sig = next_slot_signal_def
  have "timer_routine ?a = Some ?b" by (simp add: timer_routine_def sig)
  from execs.silent [OF one_turn] tstep.timer [OF this]
  have b: "execs tstep (timer_boot 1) [Turn 0] ?b" by (simp add: ticks_def sig)
  have "timer_routine ?b = Some ?c" by (simp add: timer_routine_def sig)
  from execs.silent [OF b] tstep.timer [OF this]
  have c: "execs tstep (timer_boot 1) [Turn 0] ?c" by (simp add: ticks_def sig)
  have "timer_routine ?c = Some ?d" by (simp add: timer_routine_def)
  from execs.event [OF c] tstep.timer [OF this]
  have "execs tstep (timer_boot 1) ([Turn 0] @ [Tick]) ?d" by (simp add: ticks_def)
  then show ?thesis by (intro exI [of _ ?d]) (simp add: sig)
qed

lemma one_gone: "execs tstep (timer_boot 1) [Leave 0] (detach_event 0 (timer_boot 1))"
  by (rule execs_event1) (rule tstep.detach; simp)

text \<open>
  C21: the devices advance in lockstep: the clock is the number of ticks (as a 64-bit number),
  and a device that has not detached has taken its turn once for each elapsed slot, and at most
  once more, in the slot that runs.
\<close>

theorem timer_lockstep:
  assumes "execs tstep (timer_boot n) ls s" "d < n" "dpc s d \<noteq> D_gone"
  shows "now s = of_nat (count_list ls Tick) \<and>
    count_list ls (Turn d) \<in> {count_list ls Tick, count_list ls Tick + 1}"
proof -
  have "now s = clock (barrier_of s)" "d \<notin> gone (barrier_of s)"
    using assms(3) by (simp_all add: barrier_of_def)
  then show ?thesis
    using barrier_turns [OF timer_run_barrier [OF assms(1)], of d] assms(2) by simp
qed

theorem timer_lockstep_witness:
  "\<exists>s. execs tstep (timer_boot 1) [Turn 0, Tick] s \<and> dpc s 0 = D_wait \<and>
    now s = of_nat (count_list [Turn 0, Tick] Tick) \<and>
    count_list [Turn 0, Tick] (Turn 0) \<in> {count_list [Turn 0, Tick] Tick, count_list [Turn 0, Tick] Tick + 1}"
proof -
  obtain s where s: "execs tstep (timer_boot 1) [Turn 0, Tick] s" "dpc s 0 = D_wait" using one_slot by blast
  have "dpc s 0 \<noteq> D_gone" using s(2) by simp
  note lock = timer_lockstep [OF s(1) zero_less_one this]
  show ?thesis by (rule exI [of _ s]) (use lock s in simp)
qed

text \<open>
  The threads cannot deadlock: from any reachable state in which some device has not
  detached, the timer and the wake-ups alone reach a state in which a device runs.
\<close>

theorem timer_progress:
  assumes "execs tstep (timer_boot n) ls s" "d < n" "dpc s d \<noteq> D_gone"
  shows "\<exists>ks t c. execs tstep s ks t \<and> set ks \<subseteq> {Tick} \<and> c < n \<and> dpc t c = D_run"
proof -
  have "timer_inv s" "d \<in> set (dev_list s)" using timer_run_inv [OF assms(1)] assms(2) by simp_all
  from timer_wakes_one [OF this assms(3)] timer_run_inv [OF assms(1)]
  show ?thesis by (auto simp: silent_run_def)
qed

theorem timer_progress_witness:
  "\<exists>ks t. execs tstep (next_slot_signal 0 (timer_boot 1)) ks t \<and> set ks \<subseteq> {Tick} \<and> dpc t 0 = D_run"
  using timer_progress [OF one_turn, of 0] by (auto simp: next_slot_signal_def)

text \<open>
  Once every device has detached, the timer thread ends, so \<open>stop_timer\<close> passes its join and
  empties the list.
\<close>

theorem timer_stops:
  assumes "execs tstep (timer_boot n) ls s" "\<forall>d < n. dpc s d = D_gone"
  shows "\<exists>ks t u. execs tstep (stop_timer_flag s) ks t \<and> set ks \<subseteq> {Tick} \<and>
    stop_timer_free t = Some u \<and> dev_list u = []"
proof -
  have all: "\<forall>d \<in> set (dev_list s). dpc s d = D_gone" using timer_run_inv [OF assms(1)] assms(2) by simp
  have "timer_inv (stop_timer_flag s)"
    using timer_run_inv [OF assms(1)] timer_inv_step tstep.stop [OF all] by blast
  moreover have "\<forall>d \<in> set (dev_list (stop_timer_flag s)). dpc (stop_timer_flag s) d = D_gone"
    using all by (simp add: stop_timer_flag_def)
  ultimately obtain t where "silent_run (stop_timer_flag s) t" "tpc t = T_exit"
    using timer_ends by blast
  then show ?thesis by (auto simp: silent_run_def stop_timer_free_def)
qed

theorem timer_stops_witness:
  "\<exists>ks t u. execs tstep (stop_timer_flag (detach_event 0 (timer_boot 1))) ks t \<and> set ks \<subseteq> {Tick} \<and>
    stop_timer_free t = Some u \<and> dev_list u = []"
  using timer_stops [OF one_gone] by (simp add: detach_event_def)

end
