(* ===== verification/Os.thy ===== *)
theory Os
  imports Cpu Config Timer
begin

text \<open>
  The main program, \<open>src/os.c\<close>: the threads \<open>cpu_routine\<close> and \<open>ld_routine\<close> as state machines
  whose steps are the stretches between two accesses to shared state, and \<open>main\<close>. The system
  state joins the kernel state, the threads and the timer; the threads and the timer thread run
  interleaved. A CPU's device is its number, the loader's device comes after those of all CPUs.
\<close>

section \<open>The scheduler calls on the kernel state\<close>

text \<open>
  \<open>put_proc\<close> and \<open>add_proc\<close> first store the pointers to the queues in the process block. The two
  critical sections of each are one step here: the queue the first one fills is not read by the
  other scheduler operations.
\<close>

definition sched_get :: "kernel \<Rightarrow> (nat option \<times> kernel) res" where
  "sched_get k = bindr (get_proc (prio_at k) (ksched k)) (\<lambda>(x, s). Inr (x, k\<lparr>ksched := s\<rparr>))"

definition link_queues :: "nat \<Rightarrow> kernel \<Rightarrow> kernel res" where
  "link_queues p k = bindr (pcb_at k p) (\<lambda>x. Inr (set_pcb p (x\<lparr>linked := True\<rparr>) k))"

definition sched_put :: "nat \<Rightarrow> kernel \<Rightarrow> kernel res" where
  "sched_put p k = bindr (link_queues p k) (\<lambda>k.
    bindr (put_proc (prio_at k) p (ksched k)) (\<lambda>s. Inr (k\<lparr>ksched := s\<rparr>)))"

definition sched_add :: "nat \<Rightarrow> kernel \<Rightarrow> kernel res" where
  "sched_add p k = bindr (link_queues p k) (\<lambda>k.
    bindr (add_proc (prio_at k) p (ksched k)) (\<lambda>s. Inr (k\<lparr>ksched := s\<rparr>)))"

section \<open>The CPU threads\<close>

text \<open>
  Where a CPU is in its loop: at its head; about to call \<open>put_proc\<close>; about to call \<open>get_proc\<close>
  after a process finished or was put back; at the second check; about to call \<open>run\<close>; in
  \<open>next_slot\<close>; about to call \<open>detach_event\<close>.
\<close>

datatype cpc = C_top | C_put | C_get | C_check | C_run | C_slot | C_exit

record cpu =
  cproc :: "nat option"
  time_left :: int
  cpc :: cpc

definition cpu_routine :: "int \<Rightarrow> int \<Rightarrow> nat \<Rightarrow> kernel \<Rightarrow> cpu \<Rightarrow> (kernel \<times> cpu) res" where
  "cpu_routine quantum dn cpu_id k u = (case cpc u of
      C_top \<Rightarrow> (case cproc u of
          None \<Rightarrow> bindr (sched_get k) (\<lambda>(x, k).
            Inr (k, u\<lparr>cproc := x, cpc := (if x = None then C_slot else C_check)\<rparr>))
        | Some p \<Rightarrow> bindr (pcb_at k p) (\<lambda>x.
            if pc x = code_size x then
              bindr (free_pcb p (kprint F_cpu_finished [AI (int cpu_id), AU (p_pid x)] k)) (\<lambda>k.
              Inr (k, u\<lparr>time_left := 0, cpc := C_get\<rparr>))
            else if time_left u = 0 then
              Inr (kprint F_cpu_put [AI (int cpu_id), AU (p_pid x)] k, u\<lparr>cpc := C_put\<rparr>)
            else Inr (k, u\<lparr>cpc := C_check\<rparr>)))
    | C_put \<Rightarrow> (case cproc u of
          None \<Rightarrow> Inl NullDeref
        | Some p \<Rightarrow> bindr (sched_put p k) (\<lambda>k. Inr (k, u\<lparr>cpc := C_get\<rparr>)))
    | C_get \<Rightarrow> bindr (sched_get k) (\<lambda>(x, k). Inr (k, u\<lparr>cproc := x, cpc := C_check\<rparr>))
    | C_check \<Rightarrow> (case cproc u of
          None \<Rightarrow>
            if dn \<noteq> 0 then Inr (kprint F_cpu_stopped [AI (int cpu_id)] k, u\<lparr>cpc := C_exit\<rparr>)
            else Inr (k, u\<lparr>cpc := C_slot\<rparr>)
        | Some p \<Rightarrow>
            if time_left u = 0 then bindr (pcb_at k p) (\<lambda>x.
              Inr (kprint F_cpu_dispatched [AI (int cpu_id), AU (p_pid x)] k,
                   u\<lparr>time_left := quantum, cpc := C_run\<rparr>))
            else Inr (k, u\<lparr>cpc := C_run\<rparr>))
    | C_run \<Rightarrow> (case cproc u of
          None \<Rightarrow> Inl NullDeref
        | Some p \<Rightarrow> bindr (run k p) (\<lambda>(_, k). Inr (k, u\<lparr>time_left := i32 (time_left u - 1), cpc := C_slot\<rparr>)))
    | C_slot \<Rightarrow> Inr (k, u)
    | C_exit \<Rightarrow> Inr (k, u))"

section \<open>The loader thread\<close>

text \<open>
  What the program gets from outside: the files, and what \<open>malloc\<close> and the stack hold. The blocks
  of a process are given by the number of its process block.
\<close>

record env =
  fs :: "string \<Rightarrow> string option"
  raw_time :: "nat \<Rightarrow> u64"
  raw_prio :: "nat \<Rightarrow> u64"
  raw_dev :: "nat \<Rightarrow> memphy_struct"
  raw_cells :: "nat \<Rightarrow> nat \<Rightarrow> BYTE"
  raw_pcb :: "nat \<Rightarrow> pcb_t"
  raw_text :: "nat \<Rightarrow> nat \<Rightarrow> inst_t"
  raw_mm :: "nat \<Rightarrow> mm_struct"
  raw_pgd :: "nat \<Rightarrow> nat \<Rightarrow> u32"
  raw_freerg :: "nat \<Rightarrow> vm_rg_struct chain"

datatype lpc = L_start | L_head | L_time | L_add | L_wait | L_next | L_exit

record ldr =
  li :: int
  lproc :: "nat option"
  lpc :: lpc

definition path_at :: "config \<Rightarrow> int \<Rightarrow> string res" where
  "path_at c i = bindr (aget (ld_path c) i) (\<lambda>po. case po of None \<Rightarrow> Inl UninitRead | Some pth \<Rightarrow> Inr pth)"

text \<open>\<open>load\<close> and the assignment of \<open>prio\<close>, which cuts an \<open>unsigned long\<close> to 32 bits.\<close>

definition ld_load :: "env \<Rightarrow> config \<Rightarrow> int \<Rightarrow> kernel \<Rightarrow> (nat \<times> kernel) res" where
  "ld_load e c i k =
    (let b = next_block k in
     bindr (path_at c i) (\<lambda>pth.
     bindr (load (fs e) (raw_pcb e b) (raw_text e b) pth (avail_pid k)) (\<lambda>(x, n).
     bindr (aget (ld_prio c) i) (\<lambda>pr.
     Inr (b, (set_pcb b (x\<lparr>prio := u32_of_u64 pr\<rparr>) k)\<lparr>next_block := Suc b, avail_pid := n\<rparr>)))))"

definition ld_setup :: "env \<Rightarrow> config \<Rightarrow> int \<Rightarrow> nat \<Rightarrow> kernel \<Rightarrow> kernel res" where
  "ld_setup e c i b k =
    bindr (pcb_at k b) (\<lambda>x.
    bindr (path_at c i) (\<lambda>pth.
    bindr (aget (ld_prio c) i) (\<lambda>pr.
      let M = snd (init_mm (raw_mm e b) (raw_pgd e b) (raw_freerg e b))
      in Inr (kprint F_ld_loaded [AS pth, AU (p_pid x), AL pr] (set_pcb b (x\<lparr>p_mm := Some M\<rparr>) k)))))"

text \<open>One step of the loader; the second component is the flag \<open>done\<close>.\<close>

definition ld_routine ::
    "env \<Rightarrow> config \<Rightarrow> u64 \<Rightarrow> kernel \<Rightarrow> int \<Rightarrow> ldr \<Rightarrow> (kernel \<times> int \<times> ldr) res" where
  "ld_routine e c tm k dn u = (case lpc u of
      L_start \<Rightarrow> Inr (kprint F_ld_start [] k, dn, u\<lparr>lpc := L_head\<rparr>)
    | L_head \<Rightarrow>
        if li u < num_processes c then
          bindr (ld_load e c (li u) k) (\<lambda>(b, k). Inr (k, dn, u\<lparr>lproc := Some b, lpc := L_time\<rparr>))
        else Inr (k, 1, u\<lparr>lpc := L_exit\<rparr>)
    | L_time \<Rightarrow>
        bindr (aget (start_time c) (li u)) (\<lambda>t.
        if tm < t then Inr (k, dn, u\<lparr>lpc := L_wait\<rparr>)
        else (case lproc u of
            None \<Rightarrow> Inl NullDeref
          | Some b \<Rightarrow> bindr (ld_setup e c (li u) b k) (\<lambda>k. Inr (k, dn, u\<lparr>lpc := L_add\<rparr>))))
    | L_add \<Rightarrow> (case lproc u of
          None \<Rightarrow> Inl NullDeref
        | Some b \<Rightarrow> bindr (sched_add b k) (\<lambda>k. Inr (k, dn, u\<lparr>li := li u + 1, lpc := L_next\<rparr>)))
    | L_wait \<Rightarrow> Inr (k, dn, u)
    | L_next \<Rightarrow> Inr (k, dn, u)
    | L_exit \<Rightarrow> Inr (k, dn, u))"

section \<open>The whole system\<close>

record os =
  kern :: kernel
  done_flag :: int
  cpus :: "cpu list"
  loader :: ldr
  tim :: timer

text \<open>The scheduler's static variables before \<open>init_scheduler\<close>.\<close>

definition zero_sched :: "nat sched" where
  "zero_sched = \<lparr>ready_queue = queue_of [], run_queue = queue_of [], running_list = queue_of [],
     mlq_ready_queue = CArray 140 (\<lambda>_. queue_of []), slot = CArray 140 (\<lambda>_. 0)\<rparr>"

definition cpu_start :: cpu where
  "cpu_start = \<lparr>cproc = None, time_left = 0, cpc = C_top\<rparr>"

definition init_swaps :: "env \<Rightarrow> config \<Rightarrow> memphy_struct carray res" where
  "init_swaps e c = for_loop 0 PAGING_MAX_MMSWP (\<lambda>sit mswp.
      bindr (aget (memswpsz c) sit) (\<lambda>sz.
      bindr (init_memphy (raw_dev e (Suc (nat sit))) (raw_cells e (Suc (nat sit))) sz 1) (\<lambda>(_, m).
      aset mswp sit m))) (CArray 4 (\<lambda>i. raw_dev e (Suc i)))"

text \<open>\<open>main\<close> up to the creation of the threads.\<close>

definition main_boot :: "env \<Rightarrow> string list \<Rightarrow> (config \<times> os) res" where
  "main_boot e argv =
    (if length argv \<noteq> 2 then Inl (ProcExit 1)
     else
       bindr (config_path (argv ! 1)) (\<lambda>pth.
       bindr (read_config (fs e) (raw_time e) (raw_prio e) pth) (\<lambda>c.
       bindr (init_memphy (raw_dev e 0) (raw_cells e 0) (memramsz c) 1) (\<lambda>(_, mram).
       bindr (init_swaps e c) (\<lambda>mswp.
       bindr (aget mswp 0) (\<lambda>active.
       bindr (init_scheduler zero_sched) (\<lambda>sc.
       Inr (c, \<lparr>kern = \<lparr>procs = (\<lambda>_. None), next_block = 0, ksched = sc, ram = mram, swp = active,
                        kout = [], avail_pid = 1\<rparr>,
                done_flag = 0, cpus = replicate (nat (num_cpus c)) cpu_start,
                loader = \<lparr>li = 0, lproc = None, lpc = L_start\<rparr>,
                tim = timer_boot (Suc (nat (num_cpus c)))\<rparr>))))))))"

text \<open>
  One step of the system. \<open>next_slot\<close> and \<open>detach_event\<close> are the timer's operations; the flag
  \<open>D_run\<close> of a device says that its thread is not inside \<open>next_slot\<close> and has not detached.
\<close>

definition set_cpu :: "nat \<Rightarrow> cpu \<Rightarrow> os \<Rightarrow> os" where
  "set_cpu i u s = s\<lparr>cpus := (cpus s)[i := u]\<rparr>"

text \<open>
  The end of \<open>main\<close>: it joins the threads of the CPUs and of the loader, which exit after they
  have detached, and calls \<open>stop_timer\<close>, which sets the flag once and waits for the timer thread.
\<close>

definition main_join :: "os \<Rightarrow> os option" where
  "main_join s =
    (if (\<forall>d \<le> length (cpus s). dpc (tim s) d = D_gone) \<and> timer_stop (tim s) = 0
     then Some (s\<lparr>tim := stop_timer_flag (tim s)\<rparr>) else None)"

definition main_end :: "os \<Rightarrow> (int \<times> os) option" where
  "main_end s = map_option (\<lambda>t. (0, s\<lparr>tim := t\<rparr>)) (stop_timer_free (tim s))"

inductive ostep :: "env \<Rightarrow> config \<Rightarrow> os \<Rightarrow> event option \<Rightarrow> os \<Rightarrow> bool" for e c where
  cpu: "i < length (cpus s) \<Longrightarrow> dpc (tim s) i = D_run \<Longrightarrow> cpc (cpus s ! i) \<notin> {C_slot, C_exit} \<Longrightarrow>
    cpu_routine (time_slot c) (done_flag s) i (kern s) (cpus s ! i) = Inr (k, u) \<Longrightarrow>
    ostep e c s None (set_cpu i u (s\<lparr>kern := k\<rparr>))"
| cpu_slot: "i < length (cpus s) \<Longrightarrow> dpc (tim s) i = D_run \<Longrightarrow> cpc (cpus s ! i) = C_slot \<Longrightarrow>
    ostep e c s (Some (Turn i)) (s\<lparr>tim := next_slot_signal i (tim s)\<rparr>)"
| cpu_next: "i < length (cpus s) \<Longrightarrow> dpc (tim s) i = D_wait \<Longrightarrow> next_slot_return i (tim s) = Some t \<Longrightarrow>
    ostep e c s None (set_cpu i ((cpus s ! i)\<lparr>cpc := C_top\<rparr>) (s\<lparr>tim := t\<rparr>))"
| cpu_exit: "i < length (cpus s) \<Longrightarrow> dpc (tim s) i = D_run \<Longrightarrow> cpc (cpus s ! i) = C_exit \<Longrightarrow>
    ostep e c s (Some (Leave i)) (s\<lparr>tim := detach_event i (tim s)\<rparr>)"
| ld: "n = length (cpus s) \<Longrightarrow> dpc (tim s) n = D_run \<Longrightarrow> lpc (loader s) \<notin> {L_wait, L_next, L_exit} \<Longrightarrow>
    ld_routine e c (current_time (tim s)) (kern s) (done_flag s) (loader s) = Inr (k, b, u) \<Longrightarrow>
    ostep e c s None (s\<lparr>kern := k, done_flag := b, loader := u\<rparr>)"
| ld_slot: "n = length (cpus s) \<Longrightarrow> dpc (tim s) n = D_run \<Longrightarrow> lpc (loader s) \<in> {L_wait, L_next} \<Longrightarrow>
    ostep e c s (Some (Turn n)) (s\<lparr>tim := next_slot_signal n (tim s)\<rparr>)"
| ld_next: "n = length (cpus s) \<Longrightarrow> dpc (tim s) n = D_wait \<Longrightarrow> next_slot_return n (tim s) = Some t \<Longrightarrow>
    ostep e c s None (s\<lparr>tim := t, loader := (loader s)\<lparr>lpc := (if lpc (loader s) = L_wait then L_time else L_head)\<rparr>\<rparr>)"
| ld_exit: "n = length (cpus s) \<Longrightarrow> dpc (tim s) n = D_run \<Longrightarrow> lpc (loader s) = L_exit \<Longrightarrow>
    ostep e c s (Some (Leave n)) (s\<lparr>tim := detach_event n (tim s)\<rparr>)"
| timer: "timer_routine (tim s) = Some t \<Longrightarrow>
    ostep e c s (if ticks (tim s) then Some Tick else None) (s\<lparr>tim := t\<rparr>)"
| stop: "main_join s = Some s' \<Longrightarrow> ostep e c s None s'"

inductive_cases ostepE: "ostep e c s l s'"

lemma main_join_Some: "main_join s = Some s' \<longleftrightarrow>
    (\<forall>d \<le> length (cpus s). dpc (tim s) d = D_gone) \<and> timer_stop (tim s) = 0 \<and> s' = s\<lparr>tim := stop_timer_flag (tim s)\<rparr>"
  by (auto simp: main_join_def)

end
