(* ===== verification/Pool.thy ===== *)
theory Pool
  imports Os
begin

text \<open>
  The invariant of the processes in flight. The process blocks that threads hold form a multiset;
  together with the ready levels it contains every process that can still run, each once. The
  lemmas say what the scheduler calls, \<open>free\<close>, \<open>run\<close> and the loader do to it.
\<close>

section \<open>The invariant\<close>

definition proc_ready :: "kernel \<Rightarrow> nat \<Rightarrow> bool" where
  "proc_ready k p \<longleftrightarrow> (\<exists>x. procs k p = Some x \<and> p_mm x \<noteq> None \<and> code_ok x \<and> pc x \<le> code_size x \<and> prio x < 140)"

definition block_loaded :: "kernel \<Rightarrow> nat \<Rightarrow> bool" where
  "block_loaded k b \<longleftrightarrow> (\<exists>x. procs k b = Some x \<and> p_mm x = None \<and> code_ok x \<and> pc x = 0 \<and> prio x < 140)"

definition waiting :: "kernel \<Rightarrow> nat \<Rightarrow> bool" where
  "waiting k p \<longleftrightarrow> (\<exists>l. 0 \<le> l \<and> l < 140 \<and> p \<in> set (level (ksched k) l))"

definition pool :: "kernel \<Rightarrow> nat option \<Rightarrow> nat multiset \<Rightarrow> bool" where
  "pool k fr ps \<longleftrightarrow> kernel_ok k \<and> sched_ok (prio_at k) (ksched k) \<and>
    (\<forall>p. count ps p \<le> 1) \<and> (\<forall>l. 0 \<le> l \<and> l < 140 \<longrightarrow> distinct (level (ksched k) l)) \<and>
    (\<forall>p. waiting k p \<longrightarrow> p \<notin># ps) \<and> (\<forall>p. waiting k p \<or> p \<in># ps \<longrightarrow> proc_ready k p) \<and>
    (\<forall>b \<ge> next_block k. procs k b = None) \<and> (\<forall>b. fr = Some b \<longrightarrow> block_loaded k b)"

lemma sched_ok_cong:
  assumes "sched_ok pr s" "\<And>l p. 0 \<le> l \<Longrightarrow> l < 140 \<Longrightarrow> p \<in> set (level s l) \<Longrightarrow> pr' p = pr p"
  shows "sched_ok pr' s"
  using assms by (simp add: sched_ok_def level_ok_def level_def)

lemma prio_at_cong: "procs k' p = procs k p \<Longrightarrow> prio_at k' p = prio_at k p"
  by (simp add: prio_at_def pcb_at_def)

lemma prio_at_ready:
  assumes "proc_ready k p"
  obtains pr where "prio_at k p = Inr pr" "pr < 140"
  using assms by (auto simp: proc_ready_def prio_at_Inr)

lemma loaded_not_ready: "block_loaded k b \<Longrightarrow> \<not> proc_ready k b"
  by (auto simp: block_loaded_def proc_ready_def)

text \<open>A step that changes blocks of one held process or of none and leaves the scheduler alone.\<close>

lemma pool_change:
  assumes pool: "pool k fr ps" and ok: "kernel_ok k'" and same: "ksched k' = ksched k" "next_block k' = next_block k"
    and others: "\<And>q. q \<noteq> p \<Longrightarrow> procs k' q = procs k q"
    and p: "\<not> waiting k p" "fr \<noteq> Some p" "p \<in># ps' \<Longrightarrow> proc_ready k' p"
    and new: "p < next_block k" and ps': "\<And>q. count ps' q \<le> 1" "\<And>q. q \<noteq> p \<Longrightarrow> q \<in># ps' \<Longrightarrow> q \<in># ps"
  shows "pool k' fr ps'"
proof -
  have w: "waiting k' q = waiting k q" for q using same by (simp add: waiting_def)
  have wq: "q \<noteq> p" if "waiting k q" for q using that p(1) by auto
  have "sched_ok (prio_at k') (ksched k')" unfolding same(1)
  proof (rule sched_ok_cong)
    show "sched_ok (prio_at k) (ksched k)" using pool by (simp add: pool_def)
    fix l q assume "0 \<le> l" "l < 140" "q \<in> set (level (ksched k) l)"
    then have "waiting k q" unfolding waiting_def by blast
    then show "prio_at k' q = prio_at k q" using wq others prio_at_cong by blast
  qed
  moreover have "proc_ready k' q" if "waiting k q \<or> q \<in># ps'" for q
    using that pool p(3) others [of q] wq ps'(2) [of q] by (cases "q = p") (auto simp: pool_def proc_ready_def)
  moreover have "q \<notin># ps'" if "waiting k q" for q
    using that pool wq ps'(2) [of q] by (auto simp: pool_def)
  moreover have "block_loaded k' b" if "fr = Some b" for b
    using that pool p(2) others [of b] by (auto simp: pool_def block_loaded_def)
  moreover have "procs k' b = None" if "next_block k' \<le> b" for b
    using that pool same(2) new others [of b] by (auto simp: pool_def)
  ultimately show ?thesis using pool ok ps'(1) same w unfolding pool_def by auto
qed

lemma pool_kprint [simp]: "pool (kprint f as k) fr ps = pool k fr ps"
proof -
  have "prio_at (kprint f as k) = prio_at k" by (simp add: fun_eq_iff prio_at_def pcb_at_def kernel_simps)
  then show ?thesis
    by (simp add: pool_def waiting_def proc_ready_def block_loaded_def kernel_simps)
qed

lemma pool_ready: "pool k fr ps \<Longrightarrow> p \<in># ps \<Longrightarrow> proc_ready k p"
  by (simp add: pool_def)

lemma pool_block:
  assumes "pool k fr ps" "p \<in># ps"
  obtains x M where "procs k p = Some x" "p_mm x = Some M" "code_ok x" "pc x \<le> code_size x" "prio x < 140"
  using pool_ready [OF assms] by (auto simp: proc_ready_def)

lemma pool_held:
  assumes "pool k fr ps" "p \<in># ps"
  shows "\<not> waiting k p" "fr \<noteq> Some p" "p < next_block k"
proof -
  show "\<not> waiting k p" using assms by (auto simp: pool_def)
  show "fr \<noteq> Some p" using assms loaded_not_ready [of k p] by (auto simp: pool_def)
  show "p < next_block k" using assms pool_block [OF assms] by (force simp: pool_def not_le [symmetric])
qed

section \<open>The scheduler calls\<close>

text \<open>A change of the scheduler alone.\<close>

lemma pool_sched:
  assumes pool: "pool k fr ps" and s: "sched_ok (prio_at k) s"
    "\<And>l. 0 \<le> l \<Longrightarrow> l < 140 \<Longrightarrow> distinct (level s l)"
    and w: "\<And>p. waiting (k\<lparr>ksched := s\<rparr>) p \<Longrightarrow> p \<notin># ps' \<and> (waiting k p \<or> p \<in># ps)"
    and ps': "\<And>q. count ps' q \<le> 1" "\<And>q. q \<in># ps' \<Longrightarrow> waiting k q \<or> q \<in># ps"
  shows "pool (k\<lparr>ksched := s\<rparr>) fr ps'"
proof -
  have "prio_at (k\<lparr>ksched := s\<rparr>) = prio_at k" by (simp add: fun_eq_iff prio_at_def pcb_at_def)
  moreover have "proc_ready (k\<lparr>ksched := s\<rparr>) p = proc_ready k p"
    "block_loaded (k\<lparr>ksched := s\<rparr>) p = block_loaded k p" for p
    by (simp_all add: proc_ready_def block_loaded_def)
  moreover have "proc_ready k p" if "waiting (k\<lparr>ksched := s\<rparr>) p \<or> p \<in># ps'" for p
    using that pool w [of p] ps'(2) [of p] by (auto simp: pool_def)
  ultimately show ?thesis
    using pool s w ps'(1) unfolding pool_def by simp
qed

text \<open>A process is on one level only, since its level is its priority.\<close>

lemma on_one_level:
  assumes "sched_ok prio_of s" "p \<in> set (level s i)" "p \<in> set (level s l)"
    and "0 \<le> i" "i < 140" "0 \<le> l" "l < 140"
  shows "i = l"
proof -
  have "prio_of p = Inr (u32_of_int i)"
    using sched_level(4) [OF assms(1,4,5)] assms(2) by (simp add: level_ok_def level_def)
  moreover have "prio_of p = Inr (u32_of_int l)"
    using sched_level(4) [OF assms(1,6,7)] assms(3) by (simp add: level_ok_def level_def)
  ultimately have "u32_of_int i = u32_of_int l" by simp
  then have "uint (u32_of_int i) = uint (u32_of_int l)" by simp
  then show ?thesis using assms(4-7) by (simp add: uint_u32_of_int)
qed

lemma pool_served:
  assumes pool: "pool k fr ps" and l: "0 \<le> l" "l < 140" and served: "served (ksched k) l p s'"
    and ok: "sched_ok (prio_at k) s'"
  shows "pool (k\<lparr>ksched := s'\<rparr>) fr (add_mset p ps)"
proof -
  let ?k = "k\<lparr>ksched := s'\<rparr>"
  have cons: "level (ksched k) l = p # level s' l"
    and other: "\<And>i. 0 \<le> i \<Longrightarrow> i < 140 \<Longrightarrow> i \<noteq> l \<Longrightarrow> level s' i = level (ksched k) i"
    using served by (simp_all add: served_def)
  have lv: "set (level s' i) \<subseteq> set (level (ksched k) i) \<and> (distinct (level (ksched k) i) \<longrightarrow> distinct (level s' i))"
    if "0 \<le> i" "i < 140" for i using that cons other by (cases "i = l") auto
  have wk: "waiting k q" if "waiting ?k q" for q
    using that lv unfolding waiting_def by fastforce
  have p: "waiting k p" using l cons by (auto simp: waiting_def)
  have "\<not> waiting ?k p"
  proof
    assume "waiting ?k p"
    then obtain i where i: "0 \<le> i" "i < 140" "p \<in> set (level s' i)" by (auto simp: waiting_def)
    have "distinct (level (ksched k) l)" using pool l by (simp add: pool_def)
    then have "i \<noteq> l" using cons i(3) by auto
    moreover have "p \<in> set (level (ksched k) i)" "p \<in> set (level (ksched k) l)" using i lv cons by auto
    ultimately show False using on_one_level [OF _ _ _ i(1,2) l] pool by (auto simp: pool_def)
  qed
  moreover have "count (add_mset p ps) q \<le> 1" for q
    using pool p by (auto simp: pool_def not_in_iff)
  ultimately show ?thesis
    using wk p pool lv ok by (intro pool_sched [OF pool]) (auto simp: pool_def)
qed

lemma pool_get:
  assumes pool: "pool k fr ps"
  shows "\<exists>r k'. sched_get k = Inr (r, k') \<and> procs k' = procs k \<and>
    pool k' fr (case r of None \<Rightarrow> ps | Some p \<Rightarrow> add_mset p ps)"
proof -
  have ok: "sched_ok (prio_at k) (ksched k)" using pool by (simp add: pool_def)
  then show ?thesis
  proof (cases rule: get_proc_cases)
    case idle
    then show ?thesis using pool by (intro exI [of _ None] exI [of _ k]) (simp add: sched_get_def)
  next
    case (serve l p s')
    then have "pool (k\<lparr>ksched := s'\<rparr>) fr (add_mset p ps)"
      by (intro pool_served [OF pool]) (simp_all add: serves_def)
    then show ?thesis
      using serve(2) by (intro exI [of _ "Some p"] exI [of _ "k\<lparr>ksched := s'\<rparr>"]) (simp add: sched_get_def)
  next
    case (reset q s')
    let ?k = "k\<lparr>ksched := s'\<rparr>"
    have lv: "level s' i = level (ksched k) i" if "0 \<le> i" "i < 140" for i
      using that reset(7) by (simp add: slots_reset_def)
    then have "waiting ?k p = waiting k p" for p by (auto simp: waiting_def)
    then have "pool ?k fr ps"
      using pool reset(8) lv by (intro pool_sched [OF pool]) (auto simp: pool_def)
    then show ?thesis
      using reset(6) by (intro exI [of _ None] exI [of _ ?k]) (simp add: sched_get_def)
  qed
qed

lemma pool_link:
  assumes "pool k fr (add_mset p ps)"
  shows "\<exists>k'. link_queues p k = Inr k' \<and> pool k' fr (add_mset p ps) \<and> ksched k' = ksched k"
proof -
  have p: "p \<in># add_mset p ps" by simp
  obtain x M where x: "procs k p = Some x" "p_mm x = Some M" "code_ok x" "pc x \<le> code_size x" "prio x < 140"
    using pool_block [OF assms p] .
  let ?k = "set_pcb p (x\<lparr>linked := True\<rparr>) k"
  have "kernel_ok k" using assms by (simp add: pool_def)
  then have "kernel_ok ?k"
    using x(1) by (elim kernel_ok_mono) (auto simp: holds_def kernel_simps split: if_splits)
  moreover have "count (add_mset p ps) q \<le> 1" for q using assms by (simp add: pool_def)
  ultimately have "pool ?k fr (add_mset p ps)"
    using x pool_held [OF assms p]
    by (intro pool_change [OF assms]) (auto simp: kernel_simps proc_ready_def code_ok_def)
  then show ?thesis using x(1) by (simp add: link_queues_def pcb_at_def kernel_simps)
qed

text \<open>Both \<open>put_proc\<close> and \<open>add_proc\<close> move a held process to its level, or drop it.\<close>

lemma pool_join:
  assumes pool: "pool k fr (add_mset p ps)" and s: "sched_ok (prio_at k) s" "joined p pr (ksched k) s"
    and pr: "prio_at k p = Inr pr" "pr < 140"
  shows "pool (k\<lparr>ksched := s\<rparr>) fr ps"
proof -
  have cnt: "count (add_mset p ps) q \<le> 1" for q using pool by (simp add: pool_def)
  have p: "p \<notin># ps" "\<not> waiting k p" using cnt [of p] pool by (auto simp: pool_def not_in_iff)
  have pl: "0 \<le> uint pr" "uint pr < 140" using pr(2) by (simp_all add: word_less_def)
  have lv: "level s i = level (ksched k) i \<or> i = uint pr \<and> level s i = level (ksched k) i @ [p]" if "0 \<le> i" for i
    using that s(2) by (cases "i = uint pr") (auto simp: joined_def)
  have "distinct (level s i)" if "0 \<le> i" "i < 140" for i
    using lv [OF that(1)] that pool p(2) by (auto simp: pool_def waiting_def)
  moreover have "q \<notin># ps \<and> (waiting k q \<or> q \<in># add_mset p ps)" if "waiting (k\<lparr>ksched := s\<rparr>) q" for q
  proof -
    have "waiting k q \<or> q = p" using that lv unfolding waiting_def by fastforce
    then show ?thesis using p pool by (auto simp: pool_def)
  qed
  moreover have "count ps q \<le> 1" for q using cnt [of q] by (auto split: if_splits)
  ultimately show ?thesis by (intro pool_sched [OF pool s(1)]) auto
qed

lemma pool_put:
  assumes "pool k fr (add_mset p ps)"
  shows "\<exists>k' pr. sched_put p k = Inr k' \<and> pool k' fr ps \<and> pr < 140 \<and> joined p pr (ksched k) (ksched k')"
proof -
  obtain k1 where k1: "link_queues p k = Inr k1" "pool k1 fr (add_mset p ps)" "ksched k1 = ksched k" using pool_link [OF assms] by blast
  obtain pr where pr: "prio_at k1 p = Inr pr" "pr < 140"
    using pool_ready [OF k1(2), of p] by (auto elim: prio_at_ready)
  have "sched_ok (prio_at k1) (ksched k1)" using k1(2) by (simp add: pool_def)
  from put_proc_ok [OF this pr] obtain s where
    "put_proc (prio_at k1) p (ksched k1) = Inr s" "sched_ok (prio_at k1) s" "joined p pr (ksched k1) s" by blast
  then show ?thesis using pool_join [OF k1(2) _ _ pr] k1(1,3) pr(2) by (auto simp: sched_put_def)
qed

lemma pool_add:
  assumes "pool k fr (add_mset p ps)"
  shows "\<exists>k' pr. sched_add p k = Inr k' \<and> pool k' fr ps \<and> pr < 140 \<and> joined p pr (ksched k) (ksched k')"
proof -
  obtain k1 where k1: "link_queues p k = Inr k1" "pool k1 fr (add_mset p ps)" "ksched k1 = ksched k" using pool_link [OF assms] by blast
  obtain pr where pr: "prio_at k1 p = Inr pr" "pr < 140"
    using pool_ready [OF k1(2), of p] by (auto elim: prio_at_ready)
  have "sched_ok (prio_at k1) (ksched k1)" using k1(2) by (simp add: pool_def)
  from add_proc_ok [OF this pr] obtain s where
    "add_proc (prio_at k1) p (ksched k1) = Inr s" "sched_ok (prio_at k1) s" "joined p pr (ksched k1) s" by blast
  then show ?thesis using pool_join [OF k1(2) _ _ pr] k1(1,3) pr(2) by (auto simp: sched_add_def)
qed

section \<open>The other operations\<close>

lemma pool_free:
  assumes "pool k fr (add_mset p ps)"
  shows "\<exists>k'. free_pcb p k = Inr k' \<and> pool k' fr ps"
proof -
  have p: "p \<in># add_mset p ps" by simp
  let ?k = "k\<lparr>procs := (procs k)(p := None)\<rparr>"
  have cnt: "count (add_mset p ps) q \<le> 1" for q using assms by (simp add: pool_def)
  then have "p \<notin># ps" using cnt [of p] by (simp add: not_in_iff)
  moreover have "count ps q \<le> 1" for q using cnt [of q] by (auto split: if_splits)
  moreover have "kernel_ok ?k" using assms by (intro kernel_ok_drop) (simp add: pool_def)
  ultimately have "pool ?k fr ps"
    using pool_held [OF assms p] by (intro pool_change [OF assms, where p = p]) auto
  moreover obtain x where "procs k p = Some x" using pool_block [OF assms p] by blast
  ultimately show ?thesis by (simp add: free_pcb_def pcb_at_def)
qed

lemma pool_run:
  assumes pool: "pool k fr ps" and p: "p \<in># ps" and x: "procs k p = Some x" "p_mm x = Some M"
    and ins: "pc x < code_size x \<longrightarrow> ins_ok (caller_of x M k) (next_ins x)"
  shows "\<exists>r k'. run k p = Inr (r, k') \<and> pool k' fr ps \<and> ksched k' = ksched k"
proof (cases "pc x < code_size x")
  case False
  then have "run k p = Inr (1, k)" using x(1) by (simp add: run_def not_less pcb_at_def)
  then show ?thesis using pool by blast
next
  case True
  have code: "code_ok x" "prio x < 140" using pool_block [OF pool p] x by auto
  have ok: "kernel_ok k" using pool by (simp add: pool_def)
  obtain k' M' where k': "run k p = Inr (run_code M (next_ins x), k')" "calm p k k'"
    "procs k' p = Some (x\<lparr>pc := pc x + 1, p_mm := Some M'\<rparr>)"
    using run_calm [OF ok x code(1) True] ins True by blast
  have "pool k' fr ps"
  proof (rule pool_change [OF pool])
    show "kernel_ok k'" "ksched k' = ksched k" "next_block k' = next_block k"
      using k'(2) by (simp_all add: calm_def same_but_def)
    show "q \<noteq> p \<Longrightarrow> procs k' q = procs k q" for q using k'(2) by (simp add: calm_def same_but_def)
    show "proc_ready k' p"
      using k'(3) code True by (simp add: proc_ready_def code_ok_def inc_le)
    show "count ps q \<le> 1" for q using pool by (simp add: pool_def)
  qed (use pool_held [OF pool p] in auto)
  moreover have "ksched k' = ksched k" using k'(2) by (simp add: calm_def same_but_def)
  ultimately show ?thesis using k'(1) by blast
qed

end
