(* ===== verification/System.thy ===== *)
theory System
  imports Pool
begin

text \<open>
  The invariant of the whole system, over all interleavings of the CPU threads, the loader and the
  timer: the memories of all processes are in order, every process that can run is in exactly one
  place, and no step of a thread faults.
\<close>

section \<open>The CPU threads\<close>

text \<open>The process a CPU owns; after it was put back or freed, the variable is stale.\<close>

definition own :: "cpu \<Rightarrow> nat multiset" where
  "own u = (if cpc u = C_get then {#} else case cproc u of None \<Rightarrow> {#} | Some p \<Rightarrow> {#p#})"

definition cpu_ok :: "cpu \<Rightarrow> bool" where
  "cpu_ok u \<longleftrightarrow> (cpc u \<in> {C_put, C_run} \<longrightarrow> cproc u \<noteq> None)"

text \<open>What a CPU is about to run is an instruction the memory library can carry out.\<close>

definition cpu_supported :: "kernel \<Rightarrow> cpu \<Rightarrow> bool" where
  "cpu_supported k u \<longleftrightarrow> (\<forall>p x M. cpc u = C_run \<and> cproc u = Some p \<and> procs k p = Some x \<and> p_mm x = Some M \<and>
     pc x < code_size x \<longrightarrow> ins_ok (caller_of x M k) (next_ins x))"

lemma cpu_step_top:
  assumes pool: "pool k fr (own u + ps)" and C_top: "cpc u = C_top"
  shows "\<exists>k' u'. cpu_routine quantum dn i k u = Inr (k', u') \<and> pool k' fr (own u' + ps) \<and> cpu_ok u'"
proof (cases "cproc u")
  case None
  then have "pool k fr ps" using pool C_top by (simp add: own_def)
  then obtain r k' where r: "sched_get k = Inr (r, k')"
    "pool k' fr (case r of None \<Rightarrow> ps | Some p \<Rightarrow> add_mset p ps)"
    using pool_get by blast
  then show ?thesis
    using C_top None by (cases r) (auto simp: cpu_routine_def own_def cpu_ok_def)
next
  case (Some p)
  then have pool': "pool k fr (add_mset p ps)" using pool C_top by (simp add: own_def)
  obtain x where x: "procs k p = Some x" using pool_block [OF pool', of p] by auto
  obtain k' where k': "free_pcb p (kprint F_cpu_finished [AI (int i), AU (p_pid x)] k) = Inr k'" "pool k' fr ps"
    using pool_free [of "kprint F_cpu_finished [AI (int i), AU (p_pid x)] k" fr p ps] pool' by auto
  show ?thesis
  proof (cases "pc x = code_size x")
    case True
    then show ?thesis
      using C_top Some x k' by (simp add: cpu_routine_def own_def cpu_ok_def pcb_at_def)
  next
    case False
    then show ?thesis
      using C_top Some x pool' by (simp add: cpu_routine_def own_def cpu_ok_def pcb_at_def)
  qed
qed

lemma cpu_step:
  assumes pool: "pool k fr (own u + ps)" and u: "cpu_ok u" "cpu_supported k u" "cpc u \<notin> {C_slot, C_exit}"
  shows "\<exists>k' u'. cpu_routine quantum dn i k u = Inr (k', u') \<and> pool k' fr (own u' + ps) \<and> cpu_ok u'"
proof (cases "cpc u")
  case C_top
  then show ?thesis using cpu_step_top [OF pool] by blast
next
  case C_put
  then obtain p where p: "cproc u = Some p" using u(1) by (auto simp: cpu_ok_def)
  then have "pool k fr (add_mset p ps)" using pool C_put by (simp add: own_def)
  then obtain k' where "sched_put p k = Inr k'" "pool k' fr ps" using pool_put by blast
  then show ?thesis using C_put p by (simp add: cpu_routine_def own_def cpu_ok_def)
next
  case C_get
  then have "pool k fr ps" using pool by (simp add: own_def)
  then obtain r k' where "sched_get k = Inr (r, k')"
    "pool k' fr (case r of None \<Rightarrow> ps | Some p \<Rightarrow> add_mset p ps)"
    using pool_get by blast
  then show ?thesis using C_get by (cases r) (auto simp: cpu_routine_def own_def cpu_ok_def)
next
  case C_check
  show ?thesis
  proof (cases "cproc u")
    case None
    then show ?thesis using C_check pool by (simp add: cpu_routine_def own_def cpu_ok_def)
  next
    case (Some p)
    then have pool': "pool k fr (add_mset p ps)" using pool C_check by (simp add: own_def)
    obtain x where "procs k p = Some x" using pool_block [OF pool', of p] by auto
    then show ?thesis
      using C_check Some pool' by (simp add: cpu_routine_def own_def cpu_ok_def pcb_at_def)
  qed
next
  case C_run
  then obtain p where p: "cproc u = Some p" using u(1) by (auto simp: cpu_ok_def)
  then have pool': "pool k fr (add_mset p ps)" using pool C_run by (simp add: own_def)
  have "p \<in># add_mset p ps" by simp
  then obtain x M where x: "procs k p = Some x" "p_mm x = Some M" using pool_block [OF pool'] by metis
  have "pc x < code_size x \<longrightarrow> ins_ok (caller_of x M k) (next_ins x)"
    using u(2) C_run p x by (simp add: cpu_supported_def)
  from pool_run [OF pool' _ x this] obtain r k' where "run k p = Inr (r, k')" "pool k' fr (add_mset p ps)"
    by auto
  then show ?thesis using C_run p by (simp add: cpu_routine_def own_def cpu_ok_def)
qed (use u(3) in simp_all)

section \<open>The loader\<close>

definition pending :: "ldr \<Rightarrow> nat option" where
  "pending u = (if lpc u \<in> {L_time, L_wait} then lproc u else None)"

definition ld_own :: "ldr \<Rightarrow> nat multiset" where
  "ld_own u = (if lpc u = L_add then case lproc u of None \<Rightarrow> {#} | Some b \<Rightarrow> {#b#} else {#})"

definition ld_ok :: "config \<Rightarrow> ldr \<Rightarrow> bool" where
  "ld_ok c u \<longleftrightarrow> 0 \<le> li u \<and>
    (lpc u \<in> {L_time, L_wait, L_add} \<longrightarrow> lproc u \<noteq> None \<and> li u < num_processes c)"

text \<open>
  Blocks from \<open>malloc\<close> that happen to be zero: the symbols, the list of pages and the list of free regions
  of a new descriptor, which the code relies on (see \<open>init_mm\<close>). C promises nothing of the kind. The
  pointer \<open>mm\<close> of a block that is not set up yet counts as invalid, whatever bits it has.
\<close>

definition clean_env :: "env \<Rightarrow> bool" where
  "clean_env e \<longleftrightarrow> (\<forall>b. p_mm (raw_pcb e b) = None \<and>
    symrgtbl (raw_mm e b) = CArray 30 (\<lambda>_. \<lparr>rg_start = 0, rg_end = 0\<rparr>) \<and> fifo_pgn (raw_mm e b) = Null \<and>
    raw_freerg e b = Null)"

text \<open>The files of the configured processes can be loaded and their priorities exist.\<close>

definition loadable :: "env \<Rightarrow> config \<Rightarrow> bool" where
  "loadable e c \<longleftrightarrow> (\<forall>i. 0 \<le> i \<and> i < num_processes c \<longrightarrow>
    (\<exists>pth t pr. path_at c i = Inr pth \<and> aget (start_time c) i = Inr t \<and> aget (ld_prio c) i = Inr pr \<and> pr < 140 \<and>
       (\<forall>b n. \<exists>x. load (fs e) (raw_pcb e b) (raw_text e b) pth n = Inr x)))"

lemma empty_disjoint: "\<forall>r \<in> set rs. reg r = {} \<Longrightarrow> sorted_wrt disjr rs"
  by (induction rs) (simp_all add: disjr_def)

lemma fresh_memory:
  assumes "symrgtbl raw = CArray 30 (\<lambda>_. \<lparr>rg_start = 0, rg_end = 0\<rparr>)" "fifo_pgn raw = Null"
  shows "memory_ok r (snd (init_mm raw pgd0 Null))" "frame_list (snd (init_mm raw pgd0 Null)) = []"
proof -
  let ?M = "snd (init_mm raw pgd0 Null)"
  have M: "mm_ok ?M"
    using assms by (simp add: mm_ok_def vma_ok_def init_mm_area PAGING_MAX_SYMTBL_SZ_def)
  have b: "brk ?M = 0" by (simp add: brk_def area_def init_mm_area)
  have "free_regions ?M = [rg 0 0]" by (simp add: free_regions_def area_def init_mm_area rg_def)
  moreover have "symbols ?M = replicate 30 (rg 0 0)"
    using assms by (simp add: symbols_def map_replicate_const rg_def)
  ultimately have "heap_inv ?M"
    using M b by (auto simp: heap_inv_def regions_def region_ok_def reg_def rg_def intro!: empty_disjoint)
  then show "memory_ok r ?M" "frame_list ?M = []"
    using b by (auto simp: memory_ok_def frame_list_def npages_def)
qed

lemma kernel_ok_new:
  assumes ok: "kernel_ok k" and b: "procs k b = Some x" "p_mm x = None"
    and M: "memory_ok (ram k) M" "frame_list M = []"
  shows "kernel_ok (set_pcb b (x\<lparr>p_mm := Some M\<rparr>) k)"
proof -
  let ?k = "set_pcb b (x\<lparr>p_mm := Some M\<rparr>) k"
  have h: "holds ?k q N \<longleftrightarrow> (if q = b then N = M else holds k q N)" for q N
    by (auto simp: holds_def kernel_simps)
  have "memory_ok (ram ?k) N" if "holds ?k q N" for q N
    using that ok M by (auto simp: h kernel_simps kernel_ok_def split: if_splits)
  moreover have "set (frame_list N) \<inter> set (frame_list N') = {}"
    if "q \<noteq> q'" "holds ?k q N" "holds ?k q' N'" for q q' N N'
    using that ok M(2) unfolding h kernel_ok_def by (auto split: if_splits)
  moreover have "ram ?k = ram k" by (simp add: kernel_simps)
  ultimately show ?thesis using ok unfolding kernel_ok_def by metis
qed

lemma prio_cut: "pr < 140 \<Longrightarrow> u32_of_u64 pr < 140"
  by (simp add: u32_of_u64_def word_less_def unsigned_ucast_eq take_bit_int_eq_self)

lemma pool_load:
  assumes pool: "pool k None ps" and env: "clean_env e" and i: "loadable e c" "0 \<le> i" "i < num_processes c"
  shows "\<exists>b k'. ld_load e c i k = Inr (b, k') \<and> pool k' (Some b) ps"
proof -
  let ?b = "next_block k"
  obtain pth pr where cfg: "path_at c i = Inr pth" "aget (ld_prio c) i = Inr pr" "pr < 140"
    "\<exists>x. load (fs e) (raw_pcb e ?b) (raw_text e ?b) pth (avail_pid k) = Inr x"
    using i unfolding loadable_def by blast
  then obtain x n where x: "load (fs e) (raw_pcb e ?b) (raw_text e ?b) pth (avail_pid k) = Inr (x, n)" by auto
  have raw: "pc x = 0" "code_ok x" "p_mm x = None"
    using load_result [OF x] env by (simp_all add: code_ok_def clean_env_def)
  let ?k = "(set_pcb ?b (x\<lparr>prio := u32_of_u64 pr\<rparr>) k)\<lparr>next_block := Suc ?b, avail_pid := n\<rparr>"
  have none: "procs k ?b = None" using pool by (simp add: pool_def)
  have same: "procs ?k q = procs k q" if "q \<noteq> ?b" for q using that by (simp add: kernel_simps)
  have ready: "proc_ready ?k q" if "proc_ready k q" for q
    using that none same [of q] by (cases "q = ?b") (auto simp: proc_ready_def)
  have w: "waiting ?k q = waiting k q" for q by (simp add: waiting_def kernel_simps)
  have "sched_ok (prio_at ?k) (ksched k)"
  proof (rule sched_ok_cong)
    show "sched_ok (prio_at k) (ksched k)" using pool by (simp add: pool_def)
    fix l q assume "0 \<le> l" "l < 140" "q \<in> set (level (ksched k) l)"
    then have "waiting k q" unfolding waiting_def by blast
    then have "q \<noteq> ?b" using pool none by (auto simp: pool_def proc_ready_def)
    then show "prio_at ?k q = prio_at k q" using same by (intro prio_at_cong) simp
  qed
  moreover have "kernel_ok ?k"
  proof (rule kernel_ok_mono [of k])
    show "kernel_ok k" using pool by (simp add: pool_def)
    show "holds k q M" if "holds ?k q M" for q M
      using that raw(3) same [of q] by (cases "q = ?b") (simp_all add: holds_def kernel_simps)
  qed (simp add: kernel_simps)
  moreover have "block_loaded ?k ?b"
    using raw prio_cut [OF cfg(3)] by (simp add: block_loaded_def kernel_simps code_ok_def)
  moreover have "procs ?k q = None" if "next_block ?k \<le> q" for q
    using that pool same [of q] by (simp add: pool_def)
  moreover have "ksched ?k = ksched k" by (simp add: kernel_simps)
  ultimately have "pool ?k (Some ?b) ps"
    using pool ready w unfolding pool_def by (metis option.inject)
  then show ?thesis using cfg x by (auto simp: ld_load_def Let_def)
qed

lemma pool_setup:
  assumes pool: "pool k (Some b) ps" and env: "clean_env e" and i: "loadable e c" "0 \<le> i" "i < num_processes c"
  shows "\<exists>k'. ld_setup e c i b k = Inr k' \<and> pool k' None (add_mset b ps)"
proof -
  obtain pth pr where cfg: "path_at c i = Inr pth" "aget (ld_prio c) i = Inr pr"
    using i unfolding loadable_def by blast
  obtain x where x: "procs k b = Some x" "p_mm x = None" "code_ok x" "pc x = 0" "prio x < 140"
    using pool by (auto simp: pool_def block_loaded_def)
  let ?M = "snd (init_mm (raw_mm e b) (raw_pgd e b) (raw_freerg e b))"
  let ?k = "set_pcb b (x\<lparr>p_mm := Some ?M\<rparr>) k"
  have M: "memory_ok (ram k) ?M" "frame_list ?M = []"
    using fresh_memory [of "raw_mm e b"] env by (simp_all add: clean_env_def)
  have nr: "\<not> proc_ready k b" using loaded_not_ready pool by (auto simp: pool_def)
  have b: "\<not> waiting k b" "b \<notin># ps" using nr pool by (auto simp: pool_def)
  have nb: "\<forall>q \<ge> next_block k. procs k q = None" using pool by (simp add: pool_def)
  have cnt: "\<forall>q. count ps q \<le> 1" using pool by (simp add: pool_def)
  have "pool ?k None (add_mset b ps)"
  proof (rule pool_change [where k = k and p = b and ps = ps])
    show "pool k None ps" using pool by (simp add: pool_def)
    show "kernel_ok ?k" using pool by (intro kernel_ok_new x M) (simp add: pool_def)
    show "\<not> waiting k b" by (rule b)
    show "proc_ready ?k b" using x by (simp add: proc_ready_def kernel_simps code_ok_def)
    show "b < next_block k" by (rule ccontr) (use nb x(1) in \<open>simp add: not_less\<close>)
    show "count (add_mset b ps) q \<le> 1" for q using cnt b(2) by (auto simp: not_in_iff)
  qed (simp_all add: kernel_simps)
  then show ?thesis using cfg x(1) by (simp add: ld_setup_def pcb_at_def Let_def)
qed

lemma ld_step:
  assumes pool: "pool k (pending u) (ld_own u + ps)" and u: "ld_ok c u" "lpc u \<notin> {L_wait, L_next, L_exit}"
    and env: "clean_env e" "loadable e c"
  shows "\<exists>k' dn' u'. ld_routine e c tm k dn u = Inr (k', dn', u') \<and> pool k' (pending u') (ld_own u' + ps) \<and> ld_ok c u'"
proof (cases "lpc u")
  case L_start
  then show ?thesis using assms by (simp add: ld_routine_def pending_def ld_own_def ld_ok_def)
next
  case L_head
  then have pool': "pool k None ps" using pool by (simp add: pending_def ld_own_def)
  show ?thesis
  proof (cases "li u < num_processes c")
    case True
    from pool_load [OF pool' env _ True] u(1) obtain b k' where
      "ld_load e c (li u) k = Inr (b, k')" "pool k' (Some b) ps" by (auto simp: ld_ok_def)
    then show ?thesis using L_head True u by (simp add: ld_routine_def pending_def ld_own_def ld_ok_def)
  next
    case False
    then show ?thesis using L_head pool' u by (simp add: ld_routine_def pending_def ld_own_def ld_ok_def)
  qed
next
  case L_time
  then obtain b where b: "lproc u = Some b" "0 \<le> li u" "li u < num_processes c" using u(1) by (auto simp: ld_ok_def)
  have pool': "pool k (Some b) ps" using pool L_time b by (simp add: pending_def ld_own_def)
  obtain t where t: "aget (start_time c) (li u) = Inr t" using env(2) b unfolding loadable_def by blast
  obtain k' where k': "ld_setup e c (li u) b k = Inr k'" "pool k' None (add_mset b ps)"
    using pool_setup [OF pool' env b(2,3)] by blast
  show ?thesis
    using L_time b t k' pool' u(1)
    by (cases "tm < t") (simp_all add: ld_routine_def pending_def ld_own_def ld_ok_def)
next
  case L_add
  then obtain b where b: "lproc u = Some b" using u(1) by (auto simp: ld_ok_def)
  then have "pool k None (add_mset b ps)" using pool L_add by (simp add: pending_def ld_own_def)
  then obtain k' where "sched_add b k = Inr k'" "pool k' None ps" using pool_add by blast
  then show ?thesis using L_add b u(1) by (simp add: ld_routine_def pending_def ld_own_def ld_ok_def)
qed (use u(2) in simp_all)

section \<open>The system\<close>

definition held :: "cpu list \<Rightarrow> nat multiset" where
  "held us = (\<Sum>u \<in># mset us. own u)"

text \<open>A thread inside \<open>next_slot\<close> is at a call of \<open>next_slot\<close>.\<close>

definition at_slot :: "os \<Rightarrow> bool" where
  "at_slot s \<longleftrightarrow> (\<forall>i < length (cpus s). dpc (tim s) i = D_wait \<longrightarrow> cpc (cpus s ! i) = C_slot) \<and>
    (dpc (tim s) (length (cpus s)) = D_wait \<longrightarrow> lpc (loader s) \<in> {L_wait, L_next})"

definition os_inv :: "config \<Rightarrow> nat \<Rightarrow> os \<Rightarrow> bool" where
  "os_inv c n s \<longleftrightarrow> length (cpus s) = n \<and> timer_with (Suc n) (tim s) \<and>
    pool (kern s) (pending (loader s)) (ld_own (loader s) + held (cpus s)) \<and>
    (\<forall>u \<in> set (cpus s). cpu_ok u) \<and> ld_ok c (loader s) \<and> at_slot s"

definition supported :: "os \<Rightarrow> bool" where
  "supported s \<longleftrightarrow> (\<forall>u \<in> set (cpus s). cpu_supported (kern s) u)"

lemma held_split: "i < length us \<Longrightarrow> held us = own (us ! i) + held (without i us)"
  using mset_without [of i us] by (simp add: held_def)

lemma held_update: "i < length us \<Longrightarrow> held (us[i := u]) = own u + held (without i us)"
  using mset_update_without [of i us u] by (simp add: held_def)

lemma held_same: "i < length us \<Longrightarrow> own u = own (us ! i) \<Longrightarrow> held (us[i := u]) = held us"
  by (simp add: held_update held_split [of i us])

text \<open>The timer part of a step is a step of the timer.\<close>

lemma os_timer_step:
  assumes "ostep e c s l s'" "timer_with (Suc (length (cpus s))) (tim s)"
  shows "l = None \<and> tim s' = tim s \<or> tstep (tim s) l (tim s')"
  using assms
proof (induction rule: ostep.induct)
  case (cpu_slot i s)
  then have "i \<in> set (dev_list (tim s))" by (simp add: timer_with_def)
  then show ?case using tstep.signal [of i "tim s"] cpu_slot by simp
next
  case (cpu_next i s t)
  then have "i \<in> set (dev_list (tim s))" by (simp add: timer_with_def)
  then show ?case using tstep.return [of i "tim s" t] cpu_next by (simp add: set_cpu_def)
next
  case (cpu_exit i s)
  then have "i \<in> set (dev_list (tim s))" by (simp add: timer_with_def)
  then show ?case using tstep.detach [of i "tim s"] cpu_exit by simp
next
  case (ld_slot n s)
  then have "n \<in> set (dev_list (tim s))" by (simp add: timer_with_def)
  then show ?case using tstep.signal [of n "tim s"] ld_slot by simp
next
  case (ld_next n s t)
  then have "n \<in> set (dev_list (tim s))" by (simp add: timer_with_def)
  then show ?case using tstep.return [of n "tim s" t] ld_next by simp
next
  case (ld_exit n s)
  then have "n \<in> set (dev_list (tim s))" by (simp add: timer_with_def)
  then show ?case using tstep.detach [of n "tim s"] ld_exit by simp
next
  case (timer s t)
  then show ?case using tstep.timer [of "tim s" t] by simp
next
  case (stop s s')
  then have "\<forall>d \<in> set (dev_list (tim s)). dpc (tim s) d = D_gone" by (simp add: timer_with_def main_join_Some)
  then show ?case using tstep.stop stop by (simp add: main_join_Some)
qed (simp_all add: set_cpu_def)

lemma timer_with_step: "timer_with n s \<Longrightarrow> tstep s l s' \<Longrightarrow> timer_with n s'"
  using timer_inv_step tstep_dev_list by (auto simp: timer_with_def)

lemma timer_routine_dpc: "timer_routine t = Some t' \<Longrightarrow> dpc t' = dpc t"
  by (auto simp: timer_routine_def split: tpc.splits list.splits if_splits)

lemmas device_defs = next_slot_signal_def next_slot_return_def detach_event_def stop_timer_flag_def set_cpu_def main_join_Some

lemma at_slot_step:
  assumes "ostep e c s l s'" "at_slot s"
  shows "at_slot s' \<and> length (cpus s') = length (cpus s)"
  using assms
proof (induction rule: ostep.induct)
  case (timer s t)
  then show ?case using timer_routine_dpc [of "tim s" t] by (simp add: at_slot_def)
qed (auto simp: at_slot_def device_defs nth_list_update split: if_splits)

text \<open>One CPU changes its own state and the kernel.\<close>

lemma pool_cpu_step:
  assumes "pool k fr (lo + held us)" "i < length us" "cpu_ok (us ! i)" "cpu_supported k (us ! i)"
    "cpc (us ! i) \<notin> {C_slot, C_exit}"
  shows "\<exists>k' u'. cpu_routine quantum dn i k (us ! i) = Inr (k', u') \<and> pool k' fr (lo + held (us[i := u'])) \<and> cpu_ok u'"
proof -
  have "lo + held us = own (us ! i) + (lo + held (without i us))" using assms(2) by (simp add: held_split [of i us] ac_simps)
  then have "pool k fr (own (us ! i) + (lo + held (without i us)))" using assms(1) by (simp only:)
  from cpu_step [OF this assms(3-5), of quantum dn i]
  obtain k' u' where "cpu_routine quantum dn i k (us ! i) = Inr (k', u')"
    "pool k' fr (own u' + (lo + held (without i us)))" "cpu_ok u'" by blast
  moreover have "lo + held (us[i := u']) = own u' + (lo + held (without i us))"
    using assms(2) by (simp add: held_update ac_simps)
  ultimately show ?thesis by metis
qed

lemma os_inv_step:
  assumes step: "ostep e c s l s'" and inv: "os_inv c n s" "supported s" and env: "clean_env e" "loadable e c"
  shows "os_inv c n s'"
proof -
  have n: "length (cpus s) = n" "timer_with (Suc n) (tim s)" using inv(1) by (simp_all add: os_inv_def)
  have "timer_with (Suc n) (tim s')"
    using os_timer_step [OF step] timer_with_step n by fastforce
  moreover have "at_slot s' \<and> length (cpus s') = n" using at_slot_step [OF step] inv(1) by (simp add: os_inv_def)
  moreover have "pool (kern s') (pending (loader s')) (ld_own (loader s') + held (cpus s')) \<and>
      (\<forall>u \<in> set (cpus s'). cpu_ok u) \<and> ld_ok c (loader s')"
    using step inv
  proof (induction rule: ostep.induct)
    case (cpu i s k u)
    have p: "pool (kern s) (pending (loader s)) (ld_own (loader s) + held (cpus s))"
      "cpu_ok (cpus s ! i)" "cpu_supported (kern s) (cpus s ! i)"
      using cpu.prems cpu.hyps(1) by (simp_all add: os_inv_def supported_def)
    show ?case
      using pool_cpu_step [OF p(1) cpu.hyps(1) p(2,3) cpu.hyps(3), of "time_slot c" "done_flag s"] cpu
        set_update_subset_insert [of "cpus s" i u]
      by (auto simp: set_cpu_def os_inv_def)
  next
    case (cpu_next i s t)
    then have "cpc (cpus s ! i) = C_slot" by (simp add: os_inv_def at_slot_def)
    then have "own ((cpus s ! i)\<lparr>cpc := C_top\<rparr>) = own (cpus s ! i)" by (simp add: own_def)
    moreover have "cpu_ok ((cpus s ! i)\<lparr>cpc := C_top\<rparr>)" by (simp add: cpu_ok_def)
    ultimately show ?case
      using cpu_next set_update_subset_insert [of "cpus s" i "(cpus s ! i)\<lparr>cpc := C_top\<rparr>"]
      by (auto simp: set_cpu_def os_inv_def held_same)
  next
    case (ld n' s k b u)
    have p: "pool (kern s) (pending (loader s)) (ld_own (loader s) + held (cpus s))" "ld_ok c (loader s)"
      using ld.prems by (simp_all add: os_inv_def)
    from ld_step [OF p ld.hyps(3) env, of "current_time (tim s)" "done_flag s"]
    show ?case using ld by (auto simp: os_inv_def)
  next
    case (ld_next n' s t)
    then have "lpc (loader s) \<in> {L_wait, L_next}" by (simp add: os_inv_def at_slot_def)
    then show ?case
      using ld_next by (auto simp: os_inv_def pending_def ld_own_def ld_ok_def)
  qed (simp_all add: os_inv_def main_join_Some)
  ultimately show ?thesis by (simp add: os_inv_def)
qed

text \<open>Executions in which every instruction that is run is supported.\<close>

definition sstep :: "env \<Rightarrow> config \<Rightarrow> os \<Rightarrow> event option \<Rightarrow> os \<Rightarrow> bool" where
  "sstep e c s l s' \<longleftrightarrow> supported s \<and> ostep e c s l s'"

lemma sstep_execs: "execs (sstep e c) s ls s' \<Longrightarrow> execs (ostep e c) s ls s'"
  by (erule execs_mono) (simp add: sstep_def)

lemma os_inv_run:
  assumes "execs (sstep e c) s ls s'" "os_inv c n s" "clean_env e" "loadable e c"
  shows "os_inv c n s'"
  using assms(1,2) by (rule execs_inv) (use os_inv_step assms(3,4) in \<open>auto simp: sstep_def\<close>)

section \<open>The start\<close>

text \<open>
  The input of a run: the configuration and program files in the formats of \<open>src/input\<close>, within
  the sizes the code can represent (the frame number of a page table entry has 13 bits).
\<close>

definition inputs ::
    "env \<Rightarrow> string \<Rightarrow> nat \<Rightarrow> nat \<Rightarrow> nat \<Rightarrow> nat list \<Rightarrow> (u64 \<times> string \<times> u64) list \<Rightarrow> bool" where
  "inputs e arg ts nc mem swps ps \<longleftrightarrow> length arg < 94 \<and>
    fs e (''input/'' @ arg) = Some (config_text ts nc mem swps ps) \<and> config_fits ts nc mem swps ps \<and>
    512 \<le> mem \<and> mem \<le> 2 ^ 21 \<and>
    (\<forall>(t, w, pr) \<in> set ps. pr < 140 \<and>
       (\<exists>lp insts. fs e (''input/proc/'' @ w) = Some (program_text lp insts) \<and> length insts < 2 ^ 32))"

lemma queue_of_Nil: "queue_ok (queue_of [] :: nat queue_t) \<and> queue_items (queue_of [] :: nat queue_t) = []"
  using queue_of_ok [of "[] :: nat list"] by simp

lemma init_scheduler_zero:
  "\<exists>s. init_scheduler zero_sched = Inr s \<and> sched_ok pr s \<and> (\<forall>l. 0 \<le> l \<and> l < 140 \<longrightarrow> level s l = [] \<and> 0 < slots s l)"
proof -
  let ?sl = "\<lambda>i j. if j < nat i then 140 - int j else 0"
  let ?s = "\<lambda>i. zero_sched\<lparr>slot := CArray 140 (?sl i)\<rparr>"
  let ?body = "\<lambda>i s. bindr (aget (mlq_ready_queue s) i) (\<lambda>q.
      bindr (aset (mlq_ready_queue s) i (q\<lparr>qsize := 0\<rparr>)) (\<lambda>a.
      bindr (aset (slot s) i (140 - i)) (\<lambda>sl.
      Inr (s\<lparr>mlq_ready_queue := a, slot := sl\<rparr>))))"
  have q0: "(queue_of [])\<lparr>qsize := 0\<rparr> = queue_of []" by (simp add: queue_of_def)
  have same: "(\<lambda>_. v)(n := v) = (\<lambda>_. v)" for v :: "nat queue_t" and n :: nat by (simp add: fun_eq_iff)
  have upd: "(?sl i)(nat i := 140 - i) = ?sl (i + 1)" if "0 \<le> i" for i
    using that by (auto simp: fun_eq_iff)
  have "\<exists>s'. for_loop 0 140 ?body zero_sched = Inr s' \<and> s' = ?s 140"
  proof (rule for_loop_rule [where P = "\<lambda>i s. s = ?s i"])
    show "zero_sched = ?s 0" by (simp add: zero_sched_def)
    fix i s assume i: "0 \<le> i" "i < (140 :: int)" and s: "s = ?s i"
    have "?body i s = Inr (?s (i + 1))"
      using i upd [OF i(1)] unfolding s
      by (simp add: zero_sched_def aget_def aset_def in_bounds_def q0 same)
    then show "\<exists>s'. ?body i s = Inr s' \<and> s' = ?s (i + 1)" by blast
  qed simp
  then have "init_scheduler zero_sched = Inr (?s 140)"
    by (simp add: init_scheduler_def MAX_PRIO_def) (simp add: zero_sched_def q0)
  moreover have "u32_of_int l < 140" if "0 \<le> l" "l < 140" for l
    using that by (simp add: word_less_def uint_u32_of_int)
  then have "sched_ok pr (?s 140)"
    using queue_of_Nil by (auto simp: sched_ok_def level_ok_def slots_def zero_sched_def)
  moreover have "level (?s 140) l = []" for l
    using queue_of_Nil by (simp add: level_def zero_sched_def)
  moreover have "0 < slots (?s 140) l" if "0 \<le> l" "l < 140" for l
    using that by (simp add: slots_def zero_sched_def nat_less_iff)
  ultimately show ?thesis by blast
qed

lemma init_swaps_ok:
  assumes "alen (memswpsz c) = 4"
  shows "\<exists>sw m. init_swaps e c = Inr sw \<and> aget sw 0 = Inr m"
proof -
  have "\<exists>sw. init_swaps e c = Inr sw \<and> alen sw = 4"
    unfolding init_swaps_def PAGING_MAX_MMSWP_def
  proof (rule for_loop_rule [where P = "\<lambda>_ sw. alen sw = 4"])
    fix i :: int and sw :: "memphy_struct carray"
    assume i: "0 \<le> i" "i < 4" "alen sw = 4"
    obtain m where "init_memphy (raw_dev e (Suc (nat i))) (raw_cells e (Suc (nat i))) (acell (memswpsz c) (nat i)) 1 = Inr (0, m)"
      using init_memphy_total by blast
    then show "\<exists>sw'. bindr (aget (memswpsz c) i) (\<lambda>sz.
        bindr (init_memphy (raw_dev e (Suc (nat i))) (raw_cells e (Suc (nat i))) sz 1) (\<lambda>(_, m). aset sw i m)) = Inr sw' \<and>
        alen sw' = 4"
      using i assms by (simp add: aget_def aset_def in_bounds_def)
  qed simp_all
  then show ?thesis by (auto simp: aget_def in_bounds_def)
qed

text \<open>The kernel state after the initialisation, and the files the loader will read.\<close>

definition first_kernel :: "memphy_struct \<Rightarrow> memphy_struct \<Rightarrow> nat sched \<Rightarrow> kernel" where
  "first_kernel m sw sc = \<lparr>procs = \<lambda>_. None, next_block = 0, ksched = sc, ram = m, swp = sw, kout = [], avail_pid = 1\<rparr>"

lemma boot_ram:
  assumes "512 \<le> sz" "sz \<le> 2 ^ 21"
  shows "\<exists>m. init_memphy mp cells sz 1 = Inr (0, m) \<and> kernel_ok (first_kernel m sw sc)"
proof -
  obtain m where m: "init_memphy mp cells sz 1 = Inr (0, m)" "dev_ok (Some m)"
    "maxsz m = sz" "free_fp_list m = chain_of [0..sz div 256 - 1]"
    "\<forall>f \<in> set (frames (Some m)). 0 \<le> f \<and> (f + 1) * 256 \<le> sz"
    using init_memphy_pages [of sz 1 mp cells] assms(1) by auto
  have "good_frame (Some m) f" if "f \<in> set (frames (Some m))" for f
  proof -
    have f: "0 \<le> f" "(f + 1) * 256 \<le> sz" using m(5) that by auto
    then show ?thesis using assms(2) m(3) by (auto simp: good_frame_def page_addrs_def phy_addrs_def)
  qed
  moreover have "frames (Some m) = [0..sz div 256 - 1]" using m(4) by (simp add: frames_def)
  ultimately have "kernel_ok (first_kernel m sw sc)"
    using m(2,4) by (auto simp: kernel_ok_def holds_def frames_ok_def first_kernel_def)
  then show ?thesis using m(1) by blast
qed

lemma boot_pool:
  assumes "kernel_ok (first_kernel m sw sc)" "sched_ok (\<lambda>_. Inl UseAfterFree) sc"
    and "\<forall>l. 0 \<le> l \<and> l < 140 \<longrightarrow> level sc l = []"
  shows "pool (first_kernel m sw sc) None {#}"
proof -
  have "prio_at (first_kernel m sw sc) = (\<lambda>_. Inl UseAfterFree)"
    by (simp add: fun_eq_iff prio_at_def pcb_at_def first_kernel_def)
  moreover have "ksched (first_kernel m sw sc) = sc" "procs (first_kernel m sw sc) = (\<lambda>_. None)"
    by (simp_all add: first_kernel_def)
  ultimately show ?thesis using assms by (auto simp: pool_def waiting_def)
qed

lemma inputs_loadable:
  assumes inp: "inputs e arg ts nc mem swps ps" and c: "config_says c ts nc mem swps ps"
  shows "loadable e c"
  unfolding loadable_def
proof (intro allI impI)
  fix i assume i: "0 \<le> i \<and> i < num_processes c"
  obtain t w pr where p: "ps ! nat i = (t, w, pr)" by (cases "ps ! nat i")
  have n: "nat i < length ps" using i c by (auto simp: config_says_def)
  then have "(t, w, pr) \<in> set ps" using p nth_mem by metis
  then obtain lp insts where pr: "pr < 140"
    "fs e (''input/proc/'' @ w) = Some (program_text lp insts)" "length insts < 2 ^ 32"
    using inp by (auto simp: inputs_def)
  have "\<exists>x. load (fs e) (raw_pcb e b) (raw_text e b) (''input/proc/'' @ w) n = Inr x" for b n
    using load_text [of "fs e", OF pr(2,3), of "raw_pcb e b" "raw_text e b" n] by blast
  then show "\<exists>pth t pr. path_at c i = Inr pth \<and> aget (start_time c) i = Inr t \<and> aget (ld_prio c) i = Inr pr \<and> pr < 140 \<and>
      (\<forall>b n. \<exists>x. load (fs e) (raw_pcb e b) (raw_text e b) pth n = Inr x)"
    using c i n p pr(1) by (auto simp: config_says_def path_at_def aget_def in_bounds_def)
qed

lemma main_boots:
  assumes "inputs e arg ts nc mem swps ps"
  shows "\<exists>c s. main_boot e [prog, arg] = Inr (c, s) \<and> config_says c ts nc mem swps ps \<and> loadable e c \<and> os_inv c nc s \<and>
    cpus s = replicate nc cpu_start \<and> loader s = \<lparr>li = 0, lproc = None, lpc = L_start\<rparr> \<and>
    (\<forall>l. 0 \<le> l \<and> l < 140 \<longrightarrow> level (ksched (kern s)) l = [] \<and> 0 < slots (ksched (kern s)) l) \<and>
    dpc (tim s) = (\<lambda>_. D_run) \<and> now (tim s) = 0"
proof -
  have path: "config_path arg = Inr (''input/'' @ arg)"
    using assms by (simp add: inputs_def config_path_def strcat100_def)
  obtain c where c: "read_config (fs e) (raw_time e) (raw_prio e) (''input/'' @ arg) = Inr c"
    "config_says c ts nc mem swps ps"
    using read_config_text [of "fs e" "''input/'' @ arg" ts nc mem swps ps "raw_time e" "raw_prio e"] assms
    by (auto simp: inputs_def)
  obtain sw sw0 where sw: "init_swaps e c = Inr sw" "aget sw 0 = Inr sw0"
    using init_swaps_ok [of c e] c(2) by (auto simp: config_says_def)
  obtain sc where sc: "init_scheduler zero_sched = Inr sc" "sched_ok (\<lambda>_. Inl UseAfterFree) sc"
    "\<forall>l. 0 \<le> l \<and> l < 140 \<longrightarrow> level sc l = [] \<and> 0 < slots sc l"
    using init_scheduler_zero [of "\<lambda>_. Inl UseAfterFree"] by blast
  have "512 \<le> memramsz c" "memramsz c \<le> 2 ^ 21" using c(2) assms by (simp_all add: config_says_def inputs_def)
  from boot_ram [OF this, of "raw_dev e 0" "raw_cells e 0" sw0 sc] obtain m where
    m: "init_memphy (raw_dev e 0) (raw_cells e 0) (memramsz c) 1 = Inr (0, m)" "kernel_ok (first_kernel m sw0 sc)" by blast
  let ?s = "\<lparr>kern = first_kernel m sw0 sc, done_flag = 0, cpus = replicate nc cpu_start,
    loader = \<lparr>li = 0, lproc = None, lpc = L_start\<rparr>, tim = timer_boot (Suc nc)\<rparr>"
  have "main_boot e [prog, arg] = Inr (c, ?s)"
    using path c m(1) sw sc(1) by (simp add: main_boot_def config_says_def first_kernel_def)
  moreover have "held (replicate nc cpu_start) = {#}" by (induction nc) (simp_all add: held_def own_def cpu_start_def)
  then have "os_inv c nc ?s"
    using boot_pool [OF m(2) sc(2)] sc(3) timer_with_boot [of "Suc nc"]
    by (simp add: os_inv_def pending_def ld_own_def ld_ok_def at_slot_def cpu_ok_def cpu_start_def)
  moreover have "ksched (kern ?s) = sc" by (simp add: first_kernel_def)
  moreover have "dpc (tim ?s) = (\<lambda>_. D_run)" "now (tim ?s) = 0" by simp_all
  ultimately show ?thesis
    using c(2) sc(3) inputs_loadable [OF assms c(2)] by (intro exI [of _ c] exI [of _ ?s]) simp
qed

section \<open>The system implements the barrier\<close>

definition os_timer :: "nat \<Rightarrow> os \<Rightarrow> bool" where
  "os_timer n s \<longleftrightarrow> length (cpus s) = n \<and> timer_with (Suc n) (tim s)"

lemma ostep_cpus: "ostep e c s l s' \<Longrightarrow> length (cpus s') = length (cpus s)"
  by (erule ostepE) (auto simp: set_cpu_def main_join_Some)

interpretation os_sim: simulation "ostep e c" "os_timer n" "\<lambda>s. barrier_of (tim s)" "bstep {0..<Suc n}" for e c n
proof unfold_locales
  fix s l s' assume s: "os_timer n s" "ostep e c s l s'"
  then show "os_timer n s'"
    using os_timer_step [OF s(2)] timer_with_step ostep_cpus [OF s(2)] by (fastforce simp: os_timer_def)
next
  fix s s' assume s: "os_timer n s" "ostep e c s None s'"
  then show "barrier_of (tim s') = barrier_of (tim s)"
    using os_timer_step [OF s(2)] timer_sim.silent_step [of "Suc n" "tim s" "tim s'"] by (auto simp: os_timer_def)
next
  fix s ev s' assume s: "os_timer n s" "ostep e c s (Some ev) s'"
  then show "bstep {0..<Suc n} (barrier_of (tim s)) ev (barrier_of (tim s'))"
    using os_timer_step [OF s(2)] timer_sim.event_step [of "Suc n" "tim s" ev "tim s'"] by (auto simp: os_timer_def)
qed

section \<open>Nothing left to run\<close>

text \<open>
  No process waits, no CPU holds one, and the loader has none left. Every CPU that has not
  detached waits at the head of its loop or for the next slot.
\<close>

definition ld_finished :: "config \<Rightarrow> ldr \<Rightarrow> bool" where
  "ld_finished c u \<longleftrightarrow> lpc u \<in> {L_start, L_head, L_next, L_exit} \<and> num_processes c \<le> li u"

definition quiet :: "config \<Rightarrow> os \<Rightarrow> bool" where
  "quiet c s \<longleftrightarrow> sched_ok (prio_at (kern s)) (ksched (kern s)) \<and>
    (\<forall>l. 0 \<le> l \<and> l < 140 \<longrightarrow> level (ksched (kern s)) l = []) \<and>
    (\<forall>i < length (cpus s). cproc (cpus s ! i) = None \<and>
       (cpc (cpus s ! i) \<in> {C_top, C_slot} \<or> dpc (tim s) i = D_gone)) \<and>
    ld_finished c (loader s)"

lemma quiet_get: "quiet c s \<Longrightarrow> sched_get (kern s) = Inr (None, kern s)"
  by (simp add: quiet_def sched_get_def get_proc_def get_mlq_proc_idle)

lemma prio_at_kprint [simp]: "prio_at (kprint f as k) = prio_at k"
  by (simp add: fun_eq_iff prio_at_def pcb_at_def kernel_simps)

lemma quiet_step:
  assumes "ostep e c s l s'" "quiet c s"
  shows "quiet c s' \<and> (\<forall>i < length (cpus s). dpc (tim s) i \<noteq> D_gone \<longrightarrow> dpc (tim s') i \<noteq> D_gone)"
  using assms
proof (induction rule: ostep.induct)
  case (cpu i s k u)
  then have top: "cpc (cpus s ! i) = C_top" "cproc (cpus s ! i) = None" by (auto simp: quiet_def)
  then have "k = kern s" "u = (cpus s ! i)\<lparr>cproc := None, cpc := C_slot\<rparr>"
    using cpu.hyps(4) quiet_get [OF cpu.prems] by (simp_all add: cpu_routine_def)
  then show ?case using cpu.prems cpu.hyps(1) by (auto simp: quiet_def set_cpu_def nth_list_update)
next
  case (cpu_exit i s)
  then show ?case by (force simp: quiet_def)
next
  case (ld n s k b u)
  then have "lpc (loader s) = L_start \<or> lpc (loader s) = L_head" by (auto simp: quiet_def ld_finished_def)
  then show ?case using ld by (auto simp: quiet_def ld_finished_def ld_routine_def kernel_simps)
next
  case (timer s t)
  then show ?case using timer_routine_dpc [of "tim s" t] by (simp add: quiet_def)
next
  case (ld_exit n s)
  then show ?case by (auto simp: quiet_def device_defs)
qed (auto simp: quiet_def ld_finished_def device_defs nth_list_update split: if_splits)

lemma quiet_run:
  assumes "execs (ostep e c) s ls s'" "quiet c s" "i < length (cpus s)" "dpc (tim s) i \<noteq> D_gone"
  shows "quiet c s' \<and> length (cpus s') = length (cpus s) \<and> dpc (tim s') i \<noteq> D_gone"
  using execs_inv [OF assms(1), of "\<lambda>t. quiet c t \<and> length (cpus t) = length (cpus s) \<and> dpc (tim t) i \<noteq> D_gone"]
    assms(2-4) quiet_step ostep_cpus by (metis (no_types, lifting))

end
