(* ===== verification/Progress.thy ===== *)
theory Progress
  imports System
begin

text \<open>
  Progress of the whole system (\<open>src/os.c\<close> with \<open>src/timer.c\<close>): as long as a CPU or the loader
  has not left, some thread can take a step, and the clock ticks after a bounded number of steps.
\<close>

section \<open>What is left to do in a time slot\<close>

text \<open>
  How many steps a thread can still take before it waits for the next slot; 7 covers a thread that
  was released but has not yet returned from \<open>next_slot\<close>.
\<close>

fun cpc_rank :: "cpc \<Rightarrow> nat" where
  "cpc_rank C_top = 6"
| "cpc_rank C_put = 5"
| "cpc_rank C_get = 4"
| "cpc_rank C_check = 3"
| "cpc_rank C_run = 2"
| "cpc_rank C_slot = 1"
| "cpc_rank C_exit = 1"

fun lpc_rank :: "lpc \<Rightarrow> nat" where
  "lpc_rank L_start = 5"
| "lpc_rank L_head = 4"
| "lpc_rank L_time = 3"
| "lpc_rank L_add = 2"
| "lpc_rank L_wait = 1"
| "lpc_rank L_next = 1"
| "lpc_rank L_exit = 1"

definition thread_rank :: "os \<Rightarrow> nat \<Rightarrow> nat" where
  "thread_rank s d = 
    (if dpc (tim s) d = D_gone then 0
     else if dpc (tim s) d = D_wait then if t_done (dev (tim s) d) = 0 then 7 else 0
     else if d < length (cpus s) then cpc_rank (cpc (cpus s ! d))
     else lpc_rank (lpc (loader s)))"

text \<open>The timer thread; releasing a device gives its thread up to 7 steps.\<close>

fun tpc_rank :: "nat \<Rightarrow> tpc \<Rightarrow> nat" where
  "tpc_rank n (T_wait temp f e) = 1 + length temp"
| "tpc_rank n T_loop = 2 + n"
| "tpc_rank n (T_release temp f e) = 3 + n + 8 * length temp"
| "tpc_rank n T_exit = 0"

definition os_rank :: "nat \<Rightarrow> os \<Rightarrow> nat" where
  "os_rank n s = tpc_rank (Suc n) (tpc (tim s)) + (\<Sum>d < Suc n. thread_rank s d) +
    (if timer_stop (tim s) = 0 then 1 else 0)"

lemma thread_rank_le: "thread_rank s d \<le> 7"
  by (cases "cpc (cpus s ! d)"; cases "lpc (loader s)"; cases "dpc (tim s) d")
    (simp_all add: thread_rank_def)

lemma sum_split_at: "d < (n :: nat) \<Longrightarrow> (\<Sum>j < n. f j) = f d + (\<Sum>j \<in> {..<n} - {d}. f j :: nat)"
  by (intro sum.remove) simp_all

lemma sum_rest: "(\<And>j. j < n \<Longrightarrow> j \<noteq> d \<Longrightarrow> f' j = f j) \<Longrightarrow> (\<Sum>j \<in> {..<n} - {d}. f' j) = (\<Sum>j \<in> {..<n} - {d}. f j :: nat)"
  by (intro sum.cong) auto

lemma sum_drop:
  assumes "d < (n :: nat)" "f' d < f d" "\<And>j. j < n \<Longrightarrow> j \<noteq> d \<Longrightarrow> f' j = f j"
  shows "(\<Sum>j < n. f' j) < (\<Sum>j < n. f j :: nat)"
  using sum_split_at [OF assms(1), of f] sum_split_at [OF assms(1), of f'] sum_rest [of n d f' f, OF assms(3)] assms(2)
  by linarith

lemma sum_rise:
  assumes "f' d \<le> f d + k" "\<And>j :: nat. j \<noteq> d \<Longrightarrow> f' j = f j"
  shows "(\<Sum>j < (n :: nat). f' j) \<le> (\<Sum>j < n. f j :: nat) + k"
proof (cases "d < n")
  case True
  show ?thesis
    using sum_split_at [OF True, of f] sum_split_at [OF True, of f'] sum_rest [of n d f' f, OF assms(2)] assms(1)
    by linarith
next
  case False
  then have "f' j = f j" if "j < n" for j using that by (intro assms(2)) auto
  then have "(\<Sum>j < n. f' j) = (\<Sum>j < n. f j)" by (intro sum.cong) simp_all
  then show ?thesis by simp
qed

text \<open>A step of thread \<open>d\<close> that leaves the timer thread where it is.\<close>

lemma rank_thread:
  assumes "d \<le> n" "tpc (tim s') = tpc (tim s)" "timer_stop (tim s') = timer_stop (tim s)"
    and "thread_rank s' d < thread_rank s d"
    and "\<And>j. j \<le> n \<Longrightarrow> j \<noteq> d \<Longrightarrow> thread_rank s' j = thread_rank s j"
  shows "os_rank n s' < os_rank n s"
  unfolding os_rank_def assms(2,3)
  using sum_drop [of d "Suc n" "thread_rank s'" "thread_rank s"] assms(1,4,5) by simp

lemma cpu_rank_step:
  assumes "cpu_routine q dn i k u = Inr (k', u')" "cpc u \<notin> {C_slot, C_exit}"
  shows "cpc_rank (cpc u') < cpc_rank (cpc u)"
  using assms by (cases "cpc u") (auto simp: cpu_routine_def bindr_eq_Inr_iff split: option.splits if_splits)

lemma ld_rank_step:
  assumes "ld_routine e c tm k dn u = Inr (k', dn', u')" "lpc u \<notin> {L_wait, L_next, L_exit}"
  shows "lpc_rank (lpc u') < lpc_rank (lpc u)"
  using assms by (cases "lpc u") (auto simp: ld_routine_def bindr_eq_Inr_iff split: option.splits if_splits)

lemma timer_rank:
  assumes t: "timer_routine (tim s) = Some t" "\<not> ticks (tim s)" and n: "length (dev_list (tim s)) = Suc n"
  shows "os_rank n (s\<lparr>tim := t\<rparr>) < os_rank n s"
proof -
  have same: "thread_rank (s\<lparr>tim := t\<rparr>) = thread_rank s" if "dpc t = dpc (tim s)" "dev t = dev (tim s)"
    using that by (simp add: fun_eq_iff thread_rank_def)
  show ?thesis
  proof (cases "tpc (tim s)")
    case T_loop
    then show ?thesis using t(1) n same by (auto simp: timer_routine_def os_rank_def split: if_splits)
  next
    case (T_wait temp f ev)
    then obtain d rest where "temp = d # rest" using t(2) by (cases temp) (simp_all add: ticks_def)
    then show ?thesis using T_wait t(1) same by (auto simp: timer_routine_def os_rank_def split: if_splits)
  next
    case (T_release temp f ev)
    show ?thesis
    proof (cases temp)
      case Nil
      then show ?thesis using T_release t(1) same by (auto simp: timer_routine_def os_rank_def)
    next
      case (Cons d rest)
      then have t': "t = (set_dev d ((dev (tim s) d)\<lparr>t_done := 0\<rparr>) (tim s))\<lparr>tpc := T_release rest f ev\<rparr>"
        using T_release t(1) by (simp add: timer_routine_def)
      have "(\<Sum>j < Suc n. thread_rank (s\<lparr>tim := t\<rparr>) j) \<le> (\<Sum>j < Suc n. thread_rank s j) + 7"
      proof (rule sum_rise)
        show "thread_rank (s\<lparr>tim := t\<rparr>) d \<le> thread_rank s d + 7"
          using thread_rank_le [of "s\<lparr>tim := t\<rparr>" d] by simp
      qed (simp add: t' thread_rank_def set_dev_def)
      moreover have "tpc t = T_release rest f ev" "timer_stop t = timer_stop (tim s)" by (simp_all add: t' set_dev_def)
      ultimately show ?thesis using T_release Cons by (simp add: os_rank_def)
    qed
  next
    case T_exit
    then show ?thesis using t(1) by (simp add: timer_routine_def)
  qed
qed

text \<open>Every step but a tick makes the rank smaller.\<close>

lemma rank_step:
  assumes "ostep e c s l s'" "os_timer n s" "l \<noteq> Some Tick"
  shows "os_rank n s' < os_rank n s"
  using assms
proof (induction rule: ostep.induct)
  case (cpu i s k u)
  then show ?case
    using cpu_rank_step [OF cpu.hyps(4,3)]
    by (intro rank_thread [of i]) (auto simp: os_timer_def thread_rank_def set_cpu_def)
next
  case (cpu_slot i s)
  then show ?case
    by (intro rank_thread [of i]) (auto simp: os_timer_def thread_rank_def next_slot_signal_def)
next
  case (cpu_next i s t)
  then show ?case
    by (intro rank_thread [of i])
      (auto simp: os_timer_def thread_rank_def next_slot_return_def set_cpu_def split: if_splits)
next
  case (cpu_exit i s)
  then show ?case
    by (intro rank_thread [of i]) (auto simp: os_timer_def thread_rank_def detach_event_def)
next
  case (ld m s k b u)
  then show ?case
    using ld_rank_step [OF ld.hyps(4,3)]
    by (intro rank_thread [of m]) (auto simp: os_timer_def thread_rank_def)
next
  case (ld_slot m s)
  then show ?case
    by (intro rank_thread [of m]) (auto simp: os_timer_def thread_rank_def next_slot_signal_def)
next
  case (ld_next m s t)
  then show ?case
    by (intro rank_thread [of m])
      (auto simp: os_timer_def thread_rank_def next_slot_return_def split: if_splits)
next
  case (ld_exit m s)
  then show ?case
    by (intro rank_thread [of m]) (auto simp: os_timer_def thread_rank_def detach_event_def)
next
  case (timer s t)
  have "distinct (dev_list (tim s))" "set (dev_list (tim s)) = {0..<Suc n}"
    using timer.prems(1) by (simp_all add: os_timer_def timer_with_def timer_inv_def)
  then have "length (dev_list (tim s)) = Suc n" by (metis card_atLeastLessThan diff_zero distinct_card)
  then show ?case using timer by (intro timer_rank) (auto split: if_splits)
next
  case (stop s s')
  then have "thread_rank s' = thread_rank s" by (auto simp: fun_eq_iff thread_rank_def device_defs)
  then show ?case using stop by (auto simp: os_rank_def device_defs)
qed

section \<open>Runs without a tick\<close>

inductive tickless :: "env \<Rightarrow> config \<Rightarrow> os \<Rightarrow> nat \<Rightarrow> os \<Rightarrow> bool" for e c where
  none: "tickless e c s 0 s"
| more: "tickless e c s m t \<Longrightarrow> ostep e c t l u \<Longrightarrow> l \<noteq> Some Tick \<Longrightarrow> tickless e c s (Suc m) u"

text \<open>A thread that has left does not come back.\<close>

lemma gone_stays:
  assumes "ostep e c s l s'" "dpc (tim s) d = D_gone"
  shows "dpc (tim s') d = D_gone"
  using assms
proof (induction rule: ostep.induct)
  case (timer s t)
  then show ?case using timer_routine_dpc [of "tim s" t] by simp
qed (auto simp: device_defs split: if_splits)

lemma tickless_timer: "tickless e c s m s' \<Longrightarrow> os_timer n s \<Longrightarrow> os_timer n s'"
  by (induction rule: tickless.induct) (auto intro: os_sim.invar_step)

lemma tickless_rank:
  assumes "tickless e c s m s'" "os_timer n s"
  shows "os_rank n s' + m \<le> os_rank n s"
  using assms
proof (induction rule: tickless.induct)
  case (more s m t l u)
  have "os_timer n t" by (rule tickless_timer [OF more.hyps(1) more.prems])
  then have "os_rank n u < os_rank n t" by (rule rank_step [OF more.hyps(2) _ more.hyps(3)])
  then show ?case using more.IH [OF more.prems] by simp
qed simp

lemma os_rank_le:
  assumes "os_timer n s"
  shows "os_rank n s \<le> 16 * n + 20"
proof -
  have t: "timer_inv (tim s)" "set (dev_list (tim s)) = {0..<Suc n}" "distinct (dev_list (tim s))"
    using assms by (simp_all add: os_timer_def timer_with_def timer_inv_def)
  then have "length (dev_list (tim s)) = Suc n" by (metis card_atLeastLessThan diff_zero distinct_card)
  then have "tpc_rank (Suc n) (tpc (tim s)) \<le> 9 * Suc n + 3"
    using t(1) by (cases "tpc (tim s)") (auto simp: timer_inv_def)
  moreover have "(\<Sum>d < Suc n. thread_rank s d) \<le> (\<Sum>d < Suc n. 7)"
    by (intro sum_mono thread_rank_le)
  ultimately show ?thesis by (simp add: os_rank_def)
qed

section \<open>Some thread can go on\<close>

lemma timer_goes:
  assumes "timer_inv t" "d \<in> set (dev_list t)" "dpc t d \<noteq> D_gone"
    and "\<forall>j \<in> set (dev_list t). parked t j"
  shows "\<exists>t'. timer_routine t = Some t'"
proof (cases "tpc t")
  case (T_wait temp f ev)
  show ?thesis
  proof (cases temp)
    case (Cons j rest)
    then have "j \<in> set (dev_list t)" using assms(1) T_wait by (auto simp: timer_inv_def)
    then have "parked t j" "dev_inv t j" using assms(1,4) by (simp_all add: timer_inv_def)
    then show ?thesis using parked_ready [of t j] T_wait Cons by (auto simp: timer_routine_def)
  qed (simp add: T_wait timer_routine_def)
next
  case (T_release temp f ev)
  then show ?thesis by (cases temp) (simp_all add: timer_routine_def)
next
  case T_exit
  then show ?thesis using assms(1-3) by (auto simp: timer_inv_def)
qed (simp add: timer_routine_def)

lemma thread_goes:
  assumes inv: "os_inv c n s" "supported s" "clean_env e" "loadable e c" and d: "d \<le> n" "dpc (tim s) d = D_run"
  shows "\<exists>l s'. ostep e c s l s'"
proof -
  have p: "pool (kern s) (pending (loader s)) (ld_own (loader s) + held (cpus s))" and
    u: "\<forall>u \<in> set (cpus s). cpu_ok u" "ld_ok c (loader s)" "length (cpus s) = n" using inv(1) by (simp_all add: os_inv_def)
  show ?thesis
  proof (cases "d < n")
    case True
    consider "cpc (cpus s ! d) = C_slot" | "cpc (cpus s ! d) = C_exit" | "cpc (cpus s ! d) \<notin> {C_slot, C_exit}" by blast
    then show ?thesis
    proof cases
      case 3
      have "\<exists>k' u'. cpu_routine (time_slot c) (done_flag s) d (kern s) (cpus s ! d) = Inr (k', u')"
        using pool_cpu_step [OF p, of d "time_slot c" "done_flag s"] True 3 u inv(2) by (force simp: supported_def)
      then show ?thesis using ostep.cpu [of d s, OF _ d(2) 3] True u(3) by blast
    qed (use ostep.cpu_slot [of d s] ostep.cpu_exit [of d s] True d(2) u(3) in blast)+
  next
    case False
    then have d': "dpc (tim s) (length (cpus s)) = D_run" using d u(3) by simp
    consider "lpc (loader s) \<in> {L_wait, L_next}" | "lpc (loader s) = L_exit" | "lpc (loader s) \<notin> {L_wait, L_next, L_exit}"
      by blast
    then show ?thesis
    proof cases
      case 3
      from ld_step [OF p u(2) 3 inv(3,4), of "current_time (tim s)" "done_flag s"]
      show ?thesis using ostep.ld [OF refl d' 3] by blast
    qed (use ostep.ld_slot [OF refl d'] ostep.ld_exit [OF refl d'] in blast)+
  qed
qed

lemma os_goes:
  assumes inv: "os_inv c n s" "supported s" "clean_env e" "loadable e c" and d: "d \<le> n" "dpc (tim s) d \<noteq> D_gone"
  shows "\<exists>l s'. ostep e c s l s'"
proof -
  have t: "timer_inv (tim s)" "set (dev_list (tim s)) = {0..<Suc n}" "length (cpus s) = n"
    using inv(1) by (simp_all add: os_inv_def timer_with_def)
  consider (run) j where "j \<le> n" "dpc (tim s) j = D_run"
    | (wait) j where "j \<le> n" "dpc (tim s) j = D_wait" "t_done (dev (tim s) j) = 0"
    | (parked) "\<forall>j \<in> set (dev_list (tim s)). parked (tim s) j"
    unfolding parked_def t(2) by (metis atLeastLessThan_iff dpc.exhaust less_Suc_eq_le)
  then show ?thesis
  proof cases
    case run
    then show ?thesis by (rule thread_goes [OF inv])
  next
    case wait
    then have "\<exists>t. next_slot_return j (tim s) = Some t" by (simp add: next_slot_return_def)
    then show ?thesis
      using ostep.cpu_next [of j s] ostep.ld_next [of j s] wait t(3) by (metis le_neq_implies_less)
  next
    case parked
    have "d \<in> set (dev_list (tim s))" using d(1) t(2) by simp
    from timer_goes [OF t(1) this d(2) parked] show ?thesis using ostep.timer by blast
  qed
qed

section \<open>The end of the program\<close>

text \<open>
  After \<open>stop_timer\<close> has set its flag, with all threads gone: the steps the timer thread has left.
\<close>

fun end_rank :: "nat \<Rightarrow> tpc \<Rightarrow> nat" where
  "end_rank n T_exit = 0"
| "end_rank n T_loop = 1"
| "end_rank n (T_release temp f e) = 2 + length temp"
| "end_rank n (T_wait temp f e) = 3 + n + length temp"

definition stopping :: "nat \<Rightarrow> os \<Rightarrow> bool" where
  "stopping n s \<longleftrightarrow> os_timer n s \<and> timer_stop (tim s) \<noteq> 0 \<and> (\<forall>d \<le> n. dpc (tim s) d = D_gone)"

lemma dev_list_length: "os_timer n s \<Longrightarrow> length (dev_list (tim s)) = Suc n"
  unfolding os_timer_def timer_with_def timer_inv_def by (metis card_atLeastLessThan diff_zero distinct_card)

lemma end_step:
  assumes "ostep e c s l s'" "stopping n s"
  shows "stopping n s' \<and> end_rank (Suc n) (tpc (tim s')) < end_rank (Suc n) (tpc (tim s))"
  using assms
proof (induction rule: ostep.induct)
  case (timer s t)
  have ot: "os_timer n s" "timer_stop (tim s) \<noteq> 0" "\<forall>d \<le> n. dpc (tim s) d = D_gone"
    using timer.prems by (simp_all add: stopping_def)
  have "os_timer n (s\<lparr>tim := t\<rparr>)" by (rule os_sim.invar_step [OF ot(1) ostep.timer [OF timer.hyps]])
  moreover have "dpc t = dpc (tim s)" by (rule timer_routine_dpc [OF timer.hyps])
  moreover have "timer_stop t = timer_stop (tim s)"
    using timer.hyps
    by (auto simp: timer_routine_def set_dev_def split: tpc.splits list.splits if_splits)
  moreover have "end_rank (Suc n) (tpc t) < end_rank (Suc n) (tpc (tim s))"
    using timer.hyps dev_list_length [OF ot(1)] ot(2)
    by (auto simp: timer_routine_def set_dev_def split: tpc.splits list.splits if_splits)
  ultimately show ?case using ot by (simp add: stopping_def)
qed (auto simp: stopping_def os_timer_def main_join_Some)

lemma end_run:
  assumes "((\<lambda>s s'. \<exists>l. ostep e c s l s') ^^ m) s s'" "stopping n s"
  shows "stopping n s' \<and> end_rank (Suc n) (tpc (tim s')) + m \<le> end_rank (Suc n) (tpc (tim s))"
  using assms
proof (induction m arbitrary: s')
  case (Suc m)
  then obtain t l where t: "((\<lambda>s s'. \<exists>l. ostep e c s l s') ^^ m) s t" "ostep e c t l s'" by auto
  have "stopping n t \<and> end_rank (Suc n) (tpc (tim t)) + m \<le> end_rank (Suc n) (tpc (tim s))"
    using Suc.IH [OF t(1) Suc.prems(2)] .
  then show ?case using end_step [OF t(2), of n] by fastforce
qed simp

lemma end_rank_le:
  assumes "os_timer n s"
  shows "end_rank (Suc n) (tpc (tim s)) \<le> 2 * n + 5"
proof -
  have "timer_inv (tim s)" using assms by (simp add: os_timer_def timer_with_def)
  then show ?thesis
    using dev_list_length [OF assms] by (cases "tpc (tim s)") (auto simp: timer_inv_def)
qed

lemma end_reached:
  assumes "stopping n s" "\<nexists>l s'. ostep e c s l s'"
  shows "\<exists>u. main_end s = Some (0, u) \<and> dev_list (tim u) = []"
proof -
  have t: "timer_inv (tim s)" "set (dev_list (tim s)) = {0..<Suc n}"
    using assms(1) by (simp_all add: stopping_def os_timer_def timer_with_def)
  have stuck: "timer_routine (tim s) = None" using assms(2) ostep.timer [of s] by fastforce
  have "tpc (tim s) = T_exit"
  proof (cases "tpc (tim s)")
    case (T_wait temp f ev)
    show ?thesis
    proof (cases temp)
      case (Cons d rest)
      then have "d \<in> set (dev_list (tim s))" using t(1) T_wait by (auto simp: timer_inv_def)
      then have "dev_inv (tim s) d" "dpc (tim s) d = D_gone"
        using t assms(1) by (simp_all add: timer_inv_def stopping_def)
      then have "t_fsh (dev (tim s) d) \<noteq> 0" by (simp add: dev_inv_def)
      then show ?thesis using stuck T_wait Cons by (simp add: timer_routine_def)
    qed (use stuck T_wait in \<open>simp add: timer_routine_def\<close>)
  next
    case (T_release temp f ev)
    then show ?thesis using stuck by (cases temp) (simp_all add: timer_routine_def)
  qed (use stuck in \<open>simp_all add: timer_routine_def split: if_splits\<close>)
  then show ?thesis by (simp add: main_end_def stop_timer_free_def)
qed

end
