(* ===== verification/Steps.thy ===== *)
theory Steps
  imports Fairness Progress
begin

text \<open>
  What the steps of \<open>src/os.c\<close> leave alone: the blocks of the processes a thread does not have, and the
  place of a CPU in its loop and in the time slot when another thread goes on.
\<close>

section \<open>What a step of a thread leaves alone\<close>

text \<open>A CPU changes only the block of its process and allocates none.\<close>

definition only_own :: "nat multiset \<Rightarrow> kernel \<Rightarrow> kernel \<Rightarrow> bool" where
  "only_own ps k k' \<longleftrightarrow> next_block k' = next_block k \<and> (\<forall>q. q \<notin># ps \<longrightarrow> procs k' q = procs k q)"

lemma only_own_kprint [simp]: "only_own ps k (kprint f as k') = only_own ps k k'" "only_own ps (kprint f as k) k' = only_own ps k k'"
  by (simp_all add: only_own_def kernel_simps)

lemma only_own_refl [simp]: "only_own ps k k"
  by (simp add: only_own_def)

lemma get_only_own: "sched_get k = Inr (r, k') \<Longrightarrow> only_own ps k k'"
  by (auto simp: sched_get_def bindr_eq_Inr_iff only_own_def)

lemma put_only_own: "sched_put p k = Inr k' \<Longrightarrow> p \<in># ps \<Longrightarrow> only_own ps k k'"
  by (auto simp: sched_put_def link_queues_def bindr_eq_Inr_iff only_own_def kernel_simps)

lemma add_only_own: "sched_add p k = Inr k' \<Longrightarrow> p \<in># ps \<Longrightarrow> only_own ps k k'"
  by (auto simp: sched_add_def link_queues_def bindr_eq_Inr_iff only_own_def kernel_simps)

lemma free_only_own: "free_pcb p (kprint f as k) = Inr k' \<Longrightarrow> p \<in># ps \<Longrightarrow> only_own ps k k'"
  by (auto simp: free_pcb_def bindr_eq_Inr_iff only_own_def kernel_simps)

text \<open>The instructions a process has left, and what \<open>run\<close> does to them.\<close>

definition left_of :: "kernel \<Rightarrow> nat \<Rightarrow> int" where
  "left_of k p = (case procs k p of None \<Rightarrow> 0 | Some x \<Rightarrow> uint (code_size x) - uint (pc x))"

lemma left_of_cong: "procs k' p = procs k p \<Longrightarrow> left_of k' p = left_of k p"
  by (simp add: left_of_def)

lemma left_of_kprint [simp]: "left_of (kprint f as k) p = left_of k p"
  by (simp add: left_of_def kernel_simps)

lemma left_of_nonneg: "proc_ready k p \<Longrightarrow> 0 \<le> left_of k p"
  by (auto simp: left_of_def proc_ready_def word_le_def)

lemma run_left:
  assumes pool: "pool k fr ps" and p: "p \<in># ps" and x: "procs k p = Some x" "p_mm x = Some M"
    and ins: "pc x < code_size x \<longrightarrow> ins_ok (caller_of x M k) (next_ins x)" and run: "run k p = Inr (r, k')"
  shows "only_own {#p#} k k' \<and> left_of k' p = (if left_of k p = 0 then 0 else left_of k p - 1)"
proof (cases "pc x < code_size x")
  case False
  have "pc x \<le> code_size x" using pool_block [OF pool p] x by auto
  then have "pc x = code_size x" using False by simp
  then show ?thesis using x(1) run by (simp add: run_def pcb_at_def left_of_def)
next
  case True
  have "code_ok x" "kernel_ok k" using pool_block [OF pool p] x pool by (auto simp: pool_def)
  then obtain M' where k': "calm p k k'" "procs k' p = Some (x\<lparr>pc := pc x + 1, p_mm := Some M'\<rparr>)"
    using run_calm [of k p x M] x True ins run by auto
  have "uint (pc x + 1) = uint (pc x) + 1"
    using True uint_lt2p [of "code_size x"] by (simp add: word_less_def uint_plus_if')
  then show ?thesis
    using k' x(1) True by (simp add: left_of_def only_own_def calm_def same_but_def word_less_def)
qed

lemma cpu_only_own:
  assumes pool: "pool k fr (own u + ps)" and u: "cpu_ok u" "cpu_supported k u" "cpc u \<notin> {C_slot, C_exit}"
    and step: "cpu_routine q dn i k u = Inr (k', u')"
  shows "only_own (own u) k k'"
proof (cases "cpc u")
  case C_top
  then show ?thesis
    using step get_only_own free_only_own
    by (auto simp: cpu_routine_def own_def bindr_eq_Inr_iff split: option.splits if_splits)
next
  case C_put
  then show ?thesis using step put_only_own
    by (auto simp: cpu_routine_def own_def bindr_eq_Inr_iff split: option.splits)
next
  case C_get
  then show ?thesis using step get_only_own by (auto simp: cpu_routine_def bindr_eq_Inr_iff)
next
  case C_check
  then show ?thesis
    using step by (auto simp: cpu_routine_def bindr_eq_Inr_iff split: option.splits if_splits)
next
  case C_run
  then obtain p where p: "cproc u = Some p" using u(1) by (auto simp: cpu_ok_def)
  then have own: "own u = {#p#}" using C_run by (simp add: own_def)
  have pin: "p \<in># own u + ps" by (simp add: own)
  obtain x M where x: "procs k p = Some x" "p_mm x = Some M" using pool_block [OF pool pin] by metis
  have "pc x < code_size x \<longrightarrow> ins_ok (caller_of x M k) (next_ins x)"
    using u(2) C_run p x by (simp add: cpu_supported_def)
  then show ?thesis
    using run_left [OF pool pin x] C_run p step by (auto simp: cpu_routine_def own bindr_eq_Inr_iff)
qed (use u(3) in simp_all)

text \<open>The loader allocates a block for each process, and touches only the blocks it has not added yet.\<close>

lemma ld_blocks:
  assumes "ld_ok c u" "lpc u \<notin> {L_wait, L_next, L_exit}" "ld_routine e c tm k dn u = Inr (k', dn', u')"
    and "q < next_block k" "q \<notin># ld_own u" "pending u \<noteq> Some q"
  shows "procs k' q = procs k q"
proof (cases "lpc u")
  case L_add
  then obtain b where b: "lproc u = Some b" using assms(1) by (auto simp: ld_ok_def)
  then have "only_own (ld_own u) k k'" using L_add assms(3) add_only_own
    by (auto simp: ld_routine_def ld_own_def bindr_eq_Inr_iff)
  then show ?thesis using assms(5) by (simp add: only_own_def)
qed (use assms in \<open>auto simp: ld_routine_def ld_load_def ld_setup_def Let_def bindr_eq_Inr_iff pending_def
      kernel_simps split: if_splits option.splits\<close>)

section \<open>Where the processes are\<close>

text \<open>The state in which a CPU takes its step, as the step lemmas of a CPU want it.\<close>

lemma cpu_pool:
  assumes "os_inv c n s" "supported s" "k < length (cpus s)"
  shows "pool (kern s) (pending (loader s)) (own (cpus s ! k) + (ld_own (loader s) + held (without k (cpus s))))"
    "cpu_ok (cpus s ! k)" "cpu_supported (kern s) (cpus s ! k)"
proof -
  have "pool (kern s) (pending (loader s)) (ld_own (loader s) + held (cpus s))" using assms(1) by (simp add: os_inv_def)
  then show "pool (kern s) (pending (loader s)) (own (cpus s ! k) + (ld_own (loader s) + held (without k (cpus s))))"
    using held_split [OF assms(3)] by (simp add: ac_simps)
  show "cpu_ok (cpus s ! k)" "cpu_supported (kern s) (cpus s ! k)"
    using assms by (simp_all add: os_inv_def supported_def)
qed

lemma waiting_block:
  assumes "pool k fr ps" "waiting k q"
  shows "q < next_block k"
proof -
  have "proc_ready k q" using assms by (simp add: pool_def)
  then have "procs k q \<noteq> None" by (auto simp: proc_ready_def)
  moreover have "\<forall>b \<ge> next_block k. procs k b = None" using assms(1) by (simp add: pool_def)
  ultimately show ?thesis by (meson not_le)
qed

text \<open>Where a process can be: on a level of the scheduler or with a CPU.\<close>

definition in_system :: "os \<Rightarrow> nat \<Rightarrow> bool" where
  "in_system s p \<longleftrightarrow> waiting (kern s) p \<or> p \<in># held (cpus s)"

lemma in_system_facts:
  assumes "os_inv c n s" "in_system s p"
  shows "proc_ready (kern s) p" "p < next_block (kern s)" "p \<notin># ld_own (loader s)" "pending (loader s) \<noteq> Some p"
proof -
  have pool: "pool (kern s) (pending (loader s)) (ld_own (loader s) + held (cpus s))" using assms(1) by (simp add: os_inv_def)
  then show r: "proc_ready (kern s) p" using assms(2) by (auto simp: pool_def in_system_def)
  then show "pending (loader s) \<noteq> Some p" using pool loaded_not_ready by (auto simp: pool_def)
  have "procs (kern s) p \<noteq> None" using r by (auto simp: proc_ready_def)
  then show "p < next_block (kern s)" using pool by (auto simp: pool_def not_le [symmetric])
  show "p \<notin># ld_own (loader s)"
  proof
    assume ld: "p \<in># ld_own (loader s)"
    then have "\<not> waiting (kern s) p" using pool by (auto simp: pool_def)
    then have "p \<in># held (cpus s)" using assms(2) by (simp add: in_system_def)
    then have "0 < count (ld_own (loader s)) p" "0 < count (held (cpus s)) p" using ld by simp_all
    then have "2 \<le> count (ld_own (loader s) + held (cpus s)) p" unfolding count_union by linarith
    moreover have "count (ld_own (loader s) + held (cpus s)) p \<le> 1" using pool unfolding pool_def by blast
    ultimately show False by linarith
  qed
qed

lemma only_holder:
  assumes "os_inv c n s" "k < length (cpus s)" "k' < length (cpus s)" "p \<in># own (cpus s ! k)" "p \<in># own (cpus s ! k')"
  shows "k = k'"
proof (rule ccontr)
  assume "k \<noteq> k'"
  then have "cpus s ! k' \<in> set (without k (cpus s))" using nth_in_without assms(3) by metis
  then obtain m where m: "m < length (without k (cpus s))" "without k (cpus s) ! m = cpus s ! k'"
    by (auto simp: in_set_conv_nth)
  have "p \<in># held (without k (cpus s))" using held_split [OF m(1)] m(2) assms(5) by simp
  then have "0 < count (held (without k (cpus s))) p" "0 < count (own (cpus s ! k)) p" using assms(4) by simp_all
  then have "2 \<le> count (ld_own (loader s) + held (cpus s)) p"
    unfolding held_split [OF assms(2)] count_union by linarith
  moreover have "count (ld_own (loader s) + held (cpus s)) p \<le> 1"
    using assms(1) unfolding os_inv_def pool_def by blast
  ultimately show False by simp
qed

lemma step_left:
  assumes "ostep e c s l s'" "os_inv c n s" "supported s" "waiting (kern s) p"
  shows "procs (kern s') p = procs (kern s) p"
  using assms
proof (induction rule: ostep.induct)
  case (cpu i s k u)
  have "p \<notin># own (cpus s ! i)"
    using pool_held(1) [OF cpu_pool(1) [OF cpu.prems(1,2) cpu.hyps(1)], of p] cpu.prems(3) by auto
  then show ?case
    using cpu_only_own [OF cpu_pool [OF cpu.prems(1,2) cpu.hyps(1)] cpu.hyps(3,4)] by (simp add: only_own_def set_cpu_def)
next
  case (ld m s k b u)
  then have "in_system s p" "ld_ok c (loader s)" by (simp_all add: in_system_def os_inv_def)
  then show ?case
    using ld_blocks [OF _ ld.hyps(3,4)] in_system_facts(2-4) [OF ld.prems(1)] by simp
qed (auto simp: set_cpu_def main_join_Some)

section \<open>The time slot as a CPU sees it\<close>

text \<open>The CPU is in \<open>next_slot\<close> and the slot it waits for has begun.\<close>

definition cpu_behind :: "os \<Rightarrow> nat \<Rightarrow> bool" where
  "cpu_behind s i \<longleftrightarrow> dpc (tim s) i = D_wait \<and> i \<notin> turned (barrier_of (tim s))"

lemma behind_timer:
  assumes "timer_routine (tim s) = Some t" "os_inv c n s" "i < n" "dpc (tim s) i \<noteq> D_gone"
  shows "if ticks (tim s) then \<not> cpu_behind s i \<and> cpu_behind (s\<lparr>tim := t\<rparr>) i \<and> cpc (cpus s ! i) = C_slot
    else cpu_behind (s\<lparr>tim := t\<rparr>) i = cpu_behind s i"
proof -
  have d: "dpc t = dpc (tim s)" by (rule timer_routine_dpc [OF assms(1)])
  have inv: "timer_inv (tim s)" "set (dev_list (tim s)) = {0..<Suc n}" "length (cpus s) = n" "at_slot s"
    using assms(2) by (simp_all add: os_inv_def timer_with_def)
  have b: "if ticks (tim s) then bstep (set (dev_list (tim s))) (barrier_of (tim s)) Tick (barrier_of t)
      else barrier_of t = barrier_of (tim s)"
    using barrier_timer [OF inv(1) assms(1)] .
  show ?thesis
  proof (cases "ticks (tim s)")
    case True
    then have tk: "{0..<Suc n} \<subseteq> turned (barrier_of (tim s)) \<union> gone (barrier_of (tim s))" "turned (barrier_of t) = {}"
      using b inv(2) by (auto simp: bstep_simps)
    have "i \<in> {0..<Suc n}" "i \<notin> gone (barrier_of (tim s))" using assms(3,4) by (simp_all add: barrier_of_def)
    then have tu: "i \<in> turned (barrier_of (tim s))" using tk(1) by blast
    then have w: "dpc (tim s) i = D_wait" by (simp add: barrier_of_def)
    then have "cpc (cpus s ! i) = C_slot" using inv(3,4) assms(3) by (simp add: at_slot_def)
    then show ?thesis using True w tu tk(2) d by (simp add: cpu_behind_def)
  next
    case False
    then show ?thesis using b d by (simp add: cpu_behind_def)
  qed
qed

text \<open>The timer operations of the threads.\<close>

lemma behind_turn:
  assumes "ostep e c s (Some (Turn k)) (s\<lparr>tim := next_slot_signal k (tim s)\<rparr>)" "os_timer n s" "dpc (tim s) k = D_run"
  shows "cpu_behind (s\<lparr>tim := next_slot_signal k (tim s)\<rparr>) i = cpu_behind s i"
proof -
  have "turned (barrier_of (next_slot_signal k (tim s))) = insert k (turned (barrier_of (tim s)))"
    using os_sim.event_step [OF assms(2,1)] by (auto simp: bstep_simps)
  moreover have "dpc (next_slot_signal k (tim s)) = (dpc (tim s))(k := D_wait)" by (simp add: next_slot_signal_def)
  ultimately show ?thesis using assms(3) by (auto simp: cpu_behind_def)
qed

lemma behind_leave:
  assumes "ostep e c s (Some (Leave k)) (s\<lparr>tim := detach_event k (tim s)\<rparr>)" "os_timer n s" "k \<noteq> i"
  shows "cpu_behind (s\<lparr>tim := detach_event k (tim s)\<rparr>) i = cpu_behind s i"
proof -
  have "turned (barrier_of (detach_event k (tim s))) = turned (barrier_of (tim s))"
    using os_sim.event_step [OF assms(2,1)] by (auto simp: bstep_simps)
  moreover have "dpc (detach_event k (tim s)) = (dpc (tim s))(k := D_gone)" by (simp add: detach_event_def)
  ultimately show ?thesis using assms(3) by (simp add: cpu_behind_def)
qed

lemma behind_return:
  assumes "next_slot_return k (tim s) = Some t" "barrier_of t = barrier_of (tim s)" "k \<noteq> i"
  shows "cpu_behind (s\<lparr>tim := t\<rparr>) i = cpu_behind s i"
  using assms by (auto simp: cpu_behind_def next_slot_return_def split: if_splits)

lemma behind_next:
  assumes "k < length (cpus s)" "dpc (tim s) k = D_wait" "next_slot_return k (tim s) = Some t" and inv: "os_inv c n s"
  shows "if k = i then cpu_behind s i \<and> cpc (cpus s ! i) = C_slot
    else cpu_behind (set_cpu k u (s\<lparr>tim := t\<rparr>)) i = cpu_behind s i"
proof -
  have n: "os_timer n s" "cpc (cpus s ! k) = C_slot"
    using inv assms(1,2) by (simp_all add: os_inv_def os_timer_def at_slot_def)
  have b: "barrier_of t = barrier_of (tim s)"
    using os_sim.silent_step [OF n(1) ostep.cpu_next [OF assms(1-3)]] by (simp add: set_cpu_def)
  have "t_done (dev (tim s) k) = 0" using assms(3) by (simp add: next_slot_return_def split: if_splits)
  then have "cpu_behind s k" using assms(2) by (simp add: cpu_behind_def barrier_of_def)
  then show ?thesis using n(2) behind_return [OF assms(3) b, of i] by (auto simp: cpu_behind_def set_cpu_def)
qed

text \<open>
  The steps as CPU \<open>k\<close> sees them: one that changes neither its place in the loop nor its process, one of
  its own, its return from \<open>next_slot\<close>, or one of the timer.
\<close>

lemma step_cases:
  assumes step: "ostep e c s l s'" and inv: "os_inv c n s" "supported s" "k < n" "dpc (tim s') k \<noteq> D_gone"
  obtains
    (quiet) "length (cpus s') = length (cpus s)" "cpus s' ! k = cpus s ! k" "cpu_behind s' k = cpu_behind s k" "l \<noteq> Some Tick"
      "\<And>p. p \<in># own (cpus s ! k) \<Longrightarrow> procs (kern s') p = procs (kern s) p"
  | (own) k' u where "dpc (tim s) k = D_run" "cpc (cpus s ! k) \<notin> {C_slot, C_exit}"
      "cpu_routine (time_slot c) (done_flag s) k (kern s) (cpus s ! k) = Inr (k', u)"
      "s' = set_cpu k u (s\<lparr>kern := k'\<rparr>)" "l = None"
  | (return) t where "dpc (tim s) k = D_wait" "next_slot_return k (tim s) = Some t"
      "s' = set_cpu k ((cpus s ! k)\<lparr>cpc := C_top\<rparr>) (s\<lparr>tim := t\<rparr>)" "l = None"
  | (clock) t where "timer_routine (tim s) = Some t" "s' = s\<lparr>tim := t\<rparr>" "l = (if ticks (tim s) then Some Tick else None)"
proof -
  have n: "length (cpus s) = n" "os_timer n s" "ld_ok c (loader s)" using inv(1) by (simp_all add: os_inv_def os_timer_def)
  have k: "k < length (cpus s)" using inv(3) n(1) by simp
  from step show thesis
  proof (cases rule: ostep.cases)
    case (cpu i k' u)
    show thesis
    proof (cases "i = k")
      case True
      then show thesis using cpu own by simp
    next
      case False
      have "procs k' p = procs (kern s) p" if "p \<in># own (cpus s ! k)" for p
      proof -
        have "p \<notin># own (cpus s ! i)" using only_holder [OF inv(1) cpu(3) k _ that] False by blast
        then show ?thesis
          using cpu_only_own [OF cpu_pool [OF inv(1,2) cpu(3)] cpu(5,6)] by (simp add: only_own_def)
      qed
      then show thesis using cpu False by (intro quiet) (simp_all add: set_cpu_def cpu_behind_def)
    qed
  next
    case (cpu_slot i)
    then show thesis using behind_turn [of e c s i n k] step n(2) by (intro quiet) simp_all
  next
    case (cpu_next i t)
    show thesis
    proof (cases "i = k")
      case True
      then show thesis using cpu_next return by simp
    next
      case False
      then show thesis using behind_next [OF cpu_next(3-5) inv(1), of k "(cpus s ! i)\<lparr>cpc := C_top\<rparr>"] cpu_next
        by (intro quiet) (simp_all add: set_cpu_def)
    qed
  next
    case (cpu_exit i)
    then have "i \<noteq> k" using inv(4) by (auto simp: detach_event_def)
    then show thesis using behind_leave [of e c s i n k] step n(2) cpu_exit by (intro quiet) simp_all
  next
    case (ld m k' b u)
    have "procs k' p = procs (kern s) p" if "p \<in># own (cpus s ! k)" for p
    proof -
      have "in_system s p" using held_split [OF k] that by (simp add: in_system_def)
      then show ?thesis using ld_blocks [OF n(3) ld(5,6)] in_system_facts(2-4) [OF inv(1)] by simp
    qed
    then show thesis using ld by (intro quiet) (simp_all add: cpu_behind_def)
  next
    case (ld_slot m)
    then show thesis using behind_turn [of e c s m n k] step n(2) by (intro quiet) simp_all
  next
    case (ld_next m t)
    have "barrier_of (tim s') = barrier_of (tim s)" using os_sim.silent_step [OF n(2), of e c s'] step ld_next(1) by simp
    then have "barrier_of t = barrier_of (tim s)" using ld_next(2) by simp
    then show thesis using behind_return [of m s t k] ld_next k by (intro quiet) (simp_all add: cpu_behind_def)
  next
    case (ld_exit m)
    then show thesis using behind_leave [of e c s m n k] step n k by (intro quiet) simp_all
  next
    case (timer t)
    then show thesis using clock by simp
  next
    case stop
    then have "barrier_of (tim s') = barrier_of (tim s)" using os_sim.silent_step [OF n(2)] step by blast
    then show thesis using stop by (intro quiet) (auto simp: main_join_Some cpu_behind_def stop_timer_flag_def)
  qed
qed

end
