(* ===== verification/Waiting.thy ===== *)
theory Waiting
  imports Steps
begin

text \<open>
  How long a ready process can wait for a CPU in the whole system of \<open>src/os.c\<close>, \<open>src/sched.c\<close> and
  \<open>src/timer.c\<close>: each CPU calls \<open>get_proc\<close> again after at most \<open>time_slot\<close> slots, and each call
  brings the process closer to its turn.
\<close>

section \<open>The scheduler as the threads use it\<close>

text \<open>
  \<open>x\<close> stays on level \<open>p\<close> and its waiting time does not grow; with \<open>b\<close> it shrinks.
\<close>

definition advances :: "nat \<Rightarrow> int \<Rightarrow> bool \<Rightarrow> kernel \<Rightarrow> kernel \<Rightarrow> bool" where
  "advances x p b k k' \<longleftrightarrow> (\<forall>j. waits_at (ksched k) x p j \<longrightarrow>
    (\<exists>j'. waits_at (ksched k') x p j' \<and>
       wait_rank (ksched k') p j' + (if b then 1 else 0) \<le> wait_rank (ksched k) p j))"

lemma advances_same: "ksched k' = ksched k \<Longrightarrow> advances x p False k k'"
  by (auto simp: advances_def)

lemma advances_joined: "joined y pr (ksched k) (ksched k') \<Longrightarrow> advances x p False k k'"
  using joined_waits [of y pr "ksched k" "ksched k'" x p] unfolding advances_def by fastforce

lemma advances_weaken: "advances x p True k k' \<Longrightarrow> advances x p False k k'"
  unfolding advances_def by fastforce

lemma advances_get:
  assumes "sched_ok (prio_at k) (ksched k)" "sched_get k = Inr (r, k')" "r \<noteq> Some x"
  shows "advances x p True k k'"
proof -
  have "\<exists>j'. waits_at (ksched k') x p j' \<and> wait_rank (ksched k') p j' + 1 \<le> wait_rank (ksched k) p j"
    if "waits_at (ksched k) x p j" for j
    using get_advances [OF assms(1) that] assms(2,3) by (fastforce simp: sched_get_def)
  then show ?thesis by (simp add: advances_def)
qed

text \<open>The steps of a CPU in which it calls \<open>get_proc\<close>.\<close>

definition gets_proc :: "cpu \<Rightarrow> bool" where
  "gets_proc u \<longleftrightarrow> cpc u = C_get \<or> cpc u = C_top \<and> cproc u = None"

lemma ksched_kprint [simp]: "ksched (kprint f as k) = ksched k"
  by (simp add: kernel_simps)

lemma cpu_advances:
  assumes pool: "pool k fr (own u + ps)" and u: "cpu_ok u" "cpu_supported k u" "cpc u \<notin> {C_slot, C_exit}"
    and step: "cpu_routine q dn i k u = Inr (k', u')" and not_x: "x \<notin># own u'"
  shows "advances x p (gets_proc u) k k'"
proof -
  have ok: "sched_ok (prio_at k) (ksched k)" using pool by (simp add: pool_def)
  show ?thesis
  proof (cases "gets_proc u")
    case True
    then obtain r k1 where r: "sched_get k = Inr (r, k1)" "k' = k1" "cproc u' = r" "cpc u' \<noteq> C_get"
      using step by (auto simp: gets_proc_def cpu_routine_def bindr_eq_Inr_iff split: if_splits)
    then have "r \<noteq> Some x" using not_x by (auto simp: own_def)
    then show ?thesis using advances_get [OF ok r(1)] r(2) True by simp
  next
    case no: False
    show ?thesis
    proof (cases "cpc u")
      case C_top
      then obtain y where "cproc u = Some y" using no by (auto simp: gets_proc_def)
      then have "ksched k' = ksched k"
        using C_top step by (auto simp: cpu_routine_def bindr_eq_Inr_iff free_pcb_def split: if_splits)
      then show ?thesis using no by (simp add: advances_same)
    next
      case C_put
      then obtain y where y: "cproc u = Some y" using u(1) by (auto simp: cpu_ok_def)
      then have "pool k fr (add_mset y ps)" using pool C_put by (simp add: own_def)
      from pool_put [OF this] obtain pr where "joined y pr (ksched k) (ksched k')"
        using C_put y step by (auto simp: cpu_routine_def bindr_eq_Inr_iff)
      then show ?thesis using no by (simp add: advances_joined)
    next
      case C_check
      then have "ksched k' = ksched k"
        using step by (auto simp: cpu_routine_def bindr_eq_Inr_iff split: option.splits if_splits)
      then show ?thesis using no by (simp add: advances_same)
    next
      case C_run
      then obtain y where y: "cproc u = Some y" using u(1) by (auto simp: cpu_ok_def)
      then have pool1: "pool k fr (add_mset y ps)" using pool C_run by (simp add: own_def)
      have yin: "y \<in># add_mset y ps" by simp
      obtain z M where z: "procs k y = Some z" "p_mm z = Some M" using pool_block [OF pool1 yin] by metis
      have "pc z < code_size z \<longrightarrow> ins_ok (caller_of z M k) (next_ins z)"
        using u(2) C_run y z by (simp add: cpu_supported_def)
      from pool_run [OF pool1 yin z this] have "ksched k' = ksched k"
        using C_run y step by (auto simp: cpu_routine_def bindr_eq_Inr_iff)
      then show ?thesis using no by (simp add: advances_same)
    qed (use u(3) no in \<open>simp_all add: gets_proc_def\<close>)
  qed
qed

lemma waiting_not_own:
  assumes "pool k fr (own u + ps)" "cpu_ok u" "cpu_supported k u" "cpc u \<notin> {C_slot, C_exit}"
    and "cpu_routine q dn i k u = Inr (k', u')" "waiting k' x"
  shows "x \<notin># own u'"
proof -
  have "pool k' fr (own u' + ps)" using cpu_step [OF assms(1-4), of q dn i] assms(5) by simp
  from pool_held(1) [OF this, of x] show ?thesis using assms(6) by auto
qed

section \<open>How long until a CPU asks again\<close>

text \<open>\<open>b\<close> says that the CPU waits for a slot that has begun.\<close>

definition until_get :: "int \<Rightarrow> cpu \<Rightarrow> bool \<Rightarrow> int" where
  "until_get q u b = (case cpc u of
      C_top \<Rightarrow> time_left u
    | C_put \<Rightarrow> 0
    | C_get \<Rightarrow> 0
    | C_check \<Rightarrow> if cproc u = None then 1 else if time_left u = 0 then q else time_left u
    | C_run \<Rightarrow> time_left u
    | C_slot \<Rightarrow> if b then time_left u else time_left u + 1
    | C_exit \<Rightarrow> 0)"

definition slice_ok :: "int \<Rightarrow> cpu \<Rightarrow> bool" where
  "slice_ok q u \<longleftrightarrow> 0 \<le> time_left u \<and> time_left u \<le> q \<and>
    (cproc u = None \<or> cpc u \<in> {C_get, C_put} \<longrightarrow> time_left u = 0) \<and> (cpc u = C_run \<longrightarrow> 0 < time_left u)"

lemma until_get_bounds: "slice_ok q u \<Longrightarrow> 0 < q \<Longrightarrow> 0 \<le> until_get q u b \<and> until_get q u b \<le> q + 1"
  by (cases "cpc u") (auto simp: until_get_def slice_ok_def)

lemma cpu_until:
  assumes u: "slice_ok q u" "cpu_ok u" "0 < q" "q < 2 ^ 31" "cpc u \<notin> {C_slot, C_exit}"
    and step: "cpu_routine q dn i k u = Inr (k', u')"
  shows "slice_ok q u' \<and> until_get q u' False \<le> until_get q u False + (if gets_proc u then q + 1 else 0)"
proof (cases "cpc u")
  case C_run
  then have t: "0 < time_left u" "time_left u \<le> q" using u(1) by (simp_all add: slice_ok_def)
  then have "i32 (time_left u - 1) = time_left u - 1" using u(4) by (intro i32_small) simp_all
  then show ?thesis
    using C_run u t step by (auto simp: cpu_routine_def slice_ok_def until_get_def gets_proc_def cpu_ok_def bindr_eq_Inr_iff)
qed (use u step in \<open>auto simp: cpu_routine_def slice_ok_def until_get_def gets_proc_def cpu_ok_def bindr_eq_Inr_iff
        split: option.splits if_splits\<close>)

section \<open>Steps of the system\<close>

definition until :: "config \<Rightarrow> os \<Rightarrow> nat \<Rightarrow> int" where
  "until c s i = until_get (time_slot c) (cpus s ! i) (cpu_behind s i)"

lemma ld_advances:
  assumes pool: "pool k (pending u) (ld_own u + ps)" and u: "ld_ok c u" "lpc u \<notin> {L_wait, L_next, L_exit}"
    and step: "ld_routine e c tm k dn u = Inr (k', dn', u')"
  shows "advances x p False k k'"
proof (cases "lpc u")
  case L_add
  then obtain b where b: "lproc u = Some b" using u(1) by (auto simp: ld_ok_def)
  then have "pool k None (add_mset b ps)" using pool L_add by (simp add: pending_def ld_own_def)
  from pool_add [OF this] obtain pr where "joined b pr (ksched k) (ksched k')"
    using L_add b step by (auto simp: ld_routine_def bindr_eq_Inr_iff)
  then show ?thesis by (rule advances_joined)
next
  case L_head
  then have "ksched k' = ksched k"
    using step by (auto simp: ld_routine_def ld_load_def Let_def bindr_eq_Inr_iff kernel_simps split: if_splits)
  then show ?thesis by (rule advances_same)
next
  case L_time
  then have "ksched k' = ksched k"
    using step by (auto simp: ld_routine_def ld_setup_def Let_def bindr_eq_Inr_iff kernel_simps
        split: if_splits option.splits)
  then show ?thesis by (rule advances_same)
next
  case L_start
  then have "ksched k' = ksched k" using step by (auto simp: ld_routine_def kernel_simps)
  then show ?thesis by (rule advances_same)
qed (use u(2) in simp_all)

lemma until_cong:
  "cpus s' ! i = cpus s ! i \<Longrightarrow> cpu_behind s' i = cpu_behind s i \<Longrightarrow> until c s' i = until c s i"
  by (simp add: until_def)

lemma until_timer:
  assumes "timer_routine (tim s) = Some t" "os_inv c n s" "i < n" "dpc (tim s) i \<noteq> D_gone"
  shows "until c (s\<lparr>tim := t\<rparr>) i + (if ticks (tim s) then 1 else 0) \<le> until c s i"
  using behind_timer [OF assms] by (auto simp: until_def until_get_def split: if_splits)

text \<open>Everything a step does to the waiting time of \<open>x\<close> and to the next call of CPU \<open>i\<close>.\<close>

definition closer :: "config \<Rightarrow> nat \<Rightarrow> int \<Rightarrow> nat \<Rightarrow> os \<Rightarrow> event option \<Rightarrow> os \<Rightarrow> bool" where
  "closer c x p i s l s' \<longleftrightarrow> (\<exists>g. advances x p g (kern s) (kern s') \<and>
    until c s' i + (if l = Some Tick then 1 else 0) \<le> until c s i + (if g then time_slot c + 1 else 0))"

lemma closer_quiet:
  assumes "ksched (kern s') = ksched (kern s)" "until c s' i = until c s i" "l \<noteq> Some Tick"
  shows "closer c x p i s l s'"
  unfolding closer_def using assms advances_same [OF assms(1)] by (intro exI [of _ False]) simp

lemma closer_own:
  assumes inv: "os_inv c n s" "supported s" "i < length (cpus s)" "slice_ok (time_slot c) (cpus s ! i)"
    and q: "0 < time_slot c" "time_slot c < 2 ^ 31"
    and i: "dpc (tim s) i = D_run" "cpc (cpus s ! i) \<notin> {C_slot, C_exit}"
      "cpu_routine (time_slot c) (done_flag s) i (kern s) (cpus s ! i) = Inr (k', u)" and x: "x \<notin># own u"
  shows "closer c x p i s None (set_cpu i u (s\<lparr>kern := k'\<rparr>))"
proof -
  note P = cpu_pool [OF inv(1-3)]
  have "advances x p (gets_proc (cpus s ! i)) (kern s) k'" by (rule cpu_advances [OF P i(2,3) x])
  moreover have "until_get (time_slot c) u False \<le>
      until_get (time_slot c) (cpus s ! i) False + (if gets_proc (cpus s ! i) then time_slot c + 1 else 0)"
    using cpu_until [OF inv(4) P(2) q i(2,3)] by simp
  moreover have "cpu_behind s i = False" "cpu_behind (set_cpu i u (s\<lparr>kern := k'\<rparr>)) i = False"
    using i(1) by (simp_all add: cpu_behind_def set_cpu_def)
  ultimately show ?thesis
    using inv(3) unfolding closer_def by (intro exI [of _ "gets_proc (cpus s ! i)"]) (simp_all add: until_def set_cpu_def)
qed

lemma closer_return:
  assumes i: "i < length (cpus s)" "dpc (tim s) i = D_wait" "next_slot_return i (tim s) = Some t" and inv: "os_inv c n s"
  shows "closer c x p i s None (set_cpu i ((cpus s ! i)\<lparr>cpc := C_top\<rparr>) (s\<lparr>tim := t\<rparr>))"
  using behind_next [OF i inv, of i "(cpus s ! i)\<lparr>cpc := C_top\<rparr>"] i(1)
  by (intro closer_quiet) (simp_all add: until_def until_get_def set_cpu_def)

text \<open>No step of any thread takes the process further back.\<close>

lemma step_advances:
  assumes "ostep e c s l s'" "os_inv c n s" "supported s" "waiting (kern s') x"
  shows "advances x p False (kern s) (kern s')"
  using assms
proof (induction rule: ostep.induct)
  case (cpu i s k u)
  note P = cpu_pool [OF cpu.prems(1,2) cpu.hyps(1)]
  have "waiting k x" using cpu.prems(3) by (simp add: set_cpu_def)
  then have "x \<notin># own u" using waiting_not_own [OF P cpu.hyps(3,4)] by blast
  from cpu_advances [OF P cpu.hyps(3,4) this] show ?case
    using advances_weaken by (cases "gets_proc (cpus s ! i)") (auto simp: set_cpu_def)
next
  case (ld m s k b u)
  then have p: "pool (kern s) (pending (loader s)) (ld_own (loader s) + held (cpus s))" "ld_ok c (loader s)"
    by (simp_all add: os_inv_def)
  from ld_advances [OF p ld.hyps(3,4)] show ?case by simp
qed (auto intro: advances_same simp: set_cpu_def main_join_Some)

lemma os_step_closer:
  assumes step: "ostep e c s l s'" and inv: "os_inv c n s" "supported s" "i < n" "slice_ok (time_slot c) (cpus s ! i)"
    and q: "0 < time_slot c" "time_slot c < 2 ^ 31" and x: "waiting (kern s') x" "dpc (tim s') i \<noteq> D_gone"
  shows "closer c x p i s l s'"
  using step inv(1-3) x(2)
proof (cases rule: step_cases)
  case quiet
  then show ?thesis
    using step_advances [OF step inv(1,2) x(1), of p] until_cong [of s' i s c] unfolding closer_def
    by (intro exI [of _ False]) simp
next
  case (own k' u)
  have i: "i < length (cpus s)" using inv(1,3) by (simp add: os_inv_def)
  have "waiting k' x" using x(1) own(4) by (simp add: set_cpu_def)
  then have "x \<notin># own u" using waiting_not_own [OF cpu_pool [OF inv(1,2) i] own(2,3)] by blast
  then show ?thesis unfolding own(4,5) by (rule closer_own [OF inv(1,2) i inv(4) q own(1-3)])
next
  case (return t)
  have "i < length (cpus s)" using inv(1,3) by (simp add: os_inv_def)
  then show ?thesis unfolding return(3,4) by (rule closer_return [OF _ return(1,2) inv(1)])
next
  case (clock t)
  have "dpc (tim s) i \<noteq> D_gone" using x(2) clock(1,2) timer_routine_dpc by simp
  from until_timer [OF clock(1) inv(1,3) this] show ?thesis
    using advances_same [of "kern s" "kern s" x p] clock unfolding closer_def by (intro exI [of _ False]) auto
qed

section \<open>Runs in which a process keeps waiting\<close>

definition slices_ok :: "config \<Rightarrow> os \<Rightarrow> bool" where
  "slices_ok c s \<longleftrightarrow> (\<forall>u \<in> set (cpus s). slice_ok (time_slot c) u)"

lemma slices_step:
  assumes "ostep e c s l s'" "os_inv c n s" "slices_ok c s" "0 < time_slot c" "time_slot c < 2 ^ 31"
  shows "slices_ok c s'"
  using assms
proof (induction rule: ostep.induct)
  case (cpu i s k u)
  have "slice_ok (time_slot c) (cpus s ! i)" "cpu_ok (cpus s ! i)"
    using cpu.hyps(1) cpu.prems(1,2) by (simp_all add: slices_ok_def os_inv_def)
  then have "slice_ok (time_slot c) u" using cpu_until cpu.prems(3,4) cpu.hyps(3,4) by blast
  then show ?case using cpu.prems(2) set_update_subset_insert [of "cpus s" i u] by (auto simp: slices_ok_def set_cpu_def)
next
  case (cpu_next i s t)
  let ?u = "(cpus s ! i)\<lparr>cpc := C_top\<rparr>"
  have "slice_ok (time_slot c) (cpus s ! i)" using cpu_next.hyps(1) cpu_next.prems(2) by (simp add: slices_ok_def)
  then have "slice_ok (time_slot c) ?u" by (simp add: slice_ok_def)
  then show ?case
    using cpu_next.prems(2) set_update_subset_insert [of "cpus s" i ?u] by (auto simp: slices_ok_def set_cpu_def)
qed (auto simp: slices_ok_def main_join_Some)

lemma slices_run:
  assumes "execs (sstep e c) s ls s'" "os_inv c n s" "slices_ok c s" "clean_env e" "loadable e c"
    and "0 < time_slot c" "time_slot c < 2 ^ 31"
  shows "slices_ok c s'"
proof -
  have "os_inv c n s' \<and> slices_ok c s'"
    by (rule execs_inv [OF assms(1)]) (use assms(2-7) os_inv_step slices_step in \<open>auto simp: sstep_def\<close>)
  then show ?thesis ..
qed

text \<open>\<open>x\<close> waits after every step of the run.\<close>

definition waits_step :: "env \<Rightarrow> config \<Rightarrow> nat \<Rightarrow> os \<Rightarrow> event option \<Rightarrow> os \<Rightarrow> bool" where
  "waits_step e c x s l s' \<longleftrightarrow> sstep e c s l s' \<and> waiting (kern s') x"

definition wait_time :: "config \<Rightarrow> os \<Rightarrow> int \<Rightarrow> nat \<Rightarrow> nat \<Rightarrow> int" where
  "wait_time c s p j i = wait_rank (ksched (kern s)) p j * (time_slot c + 1) + until c s i"

lemma wait_time_bounds:
  assumes "os_inv c n s" "slices_ok c s" "i < n" "0 < time_slot c"
  shows "0 \<le> wait_time c s p j i" "wait_time c s p j i \<le> (int j + 2) * 9871 * (time_slot c + 1)"
proof -
  have ok: "sched_ok (prio_at (kern s)) (ksched (kern s))" and n: "length (cpus s) = n"
    using assms(1) by (simp_all add: os_inv_def pool_def)
  have "slice_ok (time_slot c) (cpus s ! i)" using assms(2,3) n by (simp add: slices_ok_def)
  from until_get_bounds [OF this assms(4)] have u: "0 \<le> until c s i" "until c s i \<le> time_slot c + 1"
    by (simp_all add: until_def)
  then show "0 \<le> wait_time c s p j i" using wait_rank_bounds(1) [OF ok] assms(4) by (simp add: wait_time_def)
  have "wait_rank (ksched (kern s)) p j + 1 \<le> (int j + 2) * 9871" using wait_rank_bounds(2) [OF ok, of p j] by simp
  then have "(wait_rank (ksched (kern s)) p j + 1) * (time_slot c + 1) \<le> (int j + 2) * 9871 * (time_slot c + 1)"
    using assms(4) by (intro mult_right_mono) simp_all
  then show "wait_time c s p j i \<le> (int j + 2) * 9871 * (time_slot c + 1)"
    using u(2) by (simp add: wait_time_def distrib_right)
qed

lemma closer_wait:
  assumes "closer c x p i s l s'" "waits_at (ksched (kern s)) x p j" "0 < time_slot c"
  shows "\<exists>j'. waits_at (ksched (kern s')) x p j' \<and> wait_time c s' p j' i + (if l = Some Tick then 1 else 0) \<le> wait_time c s p j i"
proof -
  obtain g j' where j': "waits_at (ksched (kern s')) x p j'"
    "wait_rank (ksched (kern s')) p j' + (if g then 1 else 0) \<le> wait_rank (ksched (kern s)) p j"
    "until c s' i + (if l = Some Tick then 1 else 0) \<le> until c s i + (if g then time_slot c + 1 else 0)"
    using assms(1,2) unfolding closer_def advances_def by blast
  have "(wait_rank (ksched (kern s')) p j' + (if g then 1 else 0)) * (time_slot c + 1) \<le>
      wait_rank (ksched (kern s)) p j * (time_slot c + 1)"
    using assms(3) by (intro mult_right_mono j'(2)) simp
  then show ?thesis using j'(1,3) by (intro exI [of _ j']) (cases g; simp add: wait_time_def algebra_simps)
qed

lemma wait_run:
  assumes "execs (waits_step e c x) s ls s'" "os_inv c n s" "slices_ok c s" "clean_env e" "loadable e c"
    and "0 < time_slot c" "time_slot c < 2 ^ 31" "waits_at (ksched (kern s)) x p j" "i < n" "dpc (tim s') i \<noteq> D_gone"
  shows "os_inv c n s' \<and> slices_ok c s' \<and>
    (\<exists>j'. waits_at (ksched (kern s')) x p j' \<and> wait_time c s' p j' i + int (count_list ls Tick) \<le> wait_time c s p j i)"
proof -
  have stay: "dpc (tim t) i \<noteq> D_gone" if "ostep e c t l u" "dpc (tim u) i \<noteq> D_gone" for t l u
    using that gone_stays by blast
  have step: "os_inv c n u \<and> slices_ok c u \<and>
      (\<exists>j'. waits_at (ksched (kern u)) x p j' \<and> wait_time c u p j' i + (if l = Some Tick then 1 else 0) \<le> wait_time c t p k i)"
    if t: "waits_step e c x t l u" "os_inv c n t" "slices_ok c t" "waits_at (ksched (kern t)) x p k" "dpc (tim u) i \<noteq> D_gone" for t l u k
  proof -
    have st: "ostep e c t l u" "supported t" "waiting (kern u) x" using t(1) by (simp_all add: waits_step_def sstep_def)
    have "i < length (cpus t)" using t(2) assms(9) by (simp add: os_inv_def)
    then have "slice_ok (time_slot c) (cpus t ! i)" using t(3) by (simp add: slices_ok_def)
    from os_step_closer [OF st(1) t(2) st(2) assms(9) this assms(6,7) st(3) t(5)]
    have "closer c x p i t l u" .
    from closer_wait [OF this t(4) assms(6)]
    show ?thesis using os_inv_step [OF st(1) t(2) st(2) assms(4,5)] slices_step [OF st(1) t(2,3) assms(6,7)] by blast
  qed
  show ?thesis using assms(1,2,3,8,10)
  proof (induction rule: execs.induct)
    case (silent s ls s' s'')
    then have "dpc (tim s') i \<noteq> D_gone" using stay by (auto simp: waits_step_def sstep_def)
    then obtain j' where j': "os_inv c n s'" "slices_ok c s'" "waits_at (ksched (kern s')) x p j'"
      "wait_time c s' p j' i + int (count_list ls Tick) \<le> wait_time c s p j i" using silent by blast
    from step [OF silent.hyps(2) j'(1-3) silent.prems(4)] show ?case using j'(4) by fastforce
  next
    case (event s ls s' ev s'')
    then have "dpc (tim s') i \<noteq> D_gone" using stay by (auto simp: waits_step_def sstep_def)
    then obtain j' where j': "os_inv c n s'" "slices_ok c s'" "waits_at (ksched (kern s')) x p j'"
      "wait_time c s' p j' i + int (count_list ls Tick) \<le> wait_time c s p j i" using event by blast
    from step [OF event.hyps(2) j'(1-3) event.prems(4)] show ?case using j'(4) by (fastforce split: if_splits)
  qed auto
qed

end
