(* ===== verification/Room.thy ===== *)
theory Room
  imports Waiting
begin

text \<open>
  Why no ready queue overflows when there are at most ten processes: a queue of \<open>src/queue.c\<close> holds
  ten, and \<open>src/os.c\<close> has one block for each process.
\<close>

section \<open>Room in the ready queues\<close>

definition in_hand :: "ldr \<Rightarrow> int" where
  "in_hand u = (if lpc u \<in> {L_time, L_wait, L_add} then 1 else 0)"

text \<open>The loader has allocated one block for each process it is through with, and one it has in hand.\<close>

definition blocks_ok :: "config \<Rightarrow> os \<Rightarrow> bool" where
  "blocks_ok c s \<longleftrightarrow> int (next_block (kern s)) = li (loader s) + in_hand (loader s) \<and> li (loader s) \<le> num_processes c"

lemma blocks_ok_bound:
  assumes "blocks_ok c s" "os_inv c n s"
  shows "int (next_block (kern s)) \<le> num_processes c"
  using assms by (auto simp: blocks_ok_def in_hand_def os_inv_def ld_ok_def)

lemma ld_counts:
  assumes "ld_ok c u" "lpc u \<notin> {L_wait, L_next, L_exit}" "ld_routine e c tm k dn u = Inr (k', dn', u')"
    and "int (next_block k) = li u + in_hand u" "li u \<le> num_processes c"
  shows "int (next_block k') = li u' + in_hand u' \<and> li u' \<le> num_processes c"
proof (cases "lpc u")
  case L_add
  then obtain b where b: "lproc u = Some b" using assms(1) by (auto simp: ld_ok_def)
  then have "only_own (ld_own u) k k'" using L_add assms(3) add_only_own
    by (auto simp: ld_routine_def ld_own_def bindr_eq_Inr_iff)
  then show ?thesis
    using L_add b assms by (auto simp: only_own_def ld_routine_def in_hand_def ld_ok_def bindr_eq_Inr_iff)
qed (use assms in \<open>auto simp: ld_routine_def ld_load_def ld_setup_def Let_def bindr_eq_Inr_iff in_hand_def
      kernel_simps split: if_splits option.splits\<close>)

lemma blocks_step:
  assumes "ostep e c s l s'" "os_inv c n s" "supported s" "blocks_ok c s"
  shows "blocks_ok c s'"
  using assms
proof (induction rule: ostep.induct)
  case (cpu i s k u)
  from cpu_only_own [OF cpu_pool [OF cpu.prems(1,2) cpu.hyps(1)] cpu.hyps(3,4)]
  show ?case using cpu.prems(3) by (simp add: blocks_ok_def only_own_def set_cpu_def)
next
  case (ld m s k b u)
  then have "ld_ok c (loader s)" by (simp add: os_inv_def)
  from ld_counts [OF this ld.hyps(3,4)] show ?case using ld.prems(3) by (simp add: blocks_ok_def)
qed (auto simp: blocks_ok_def in_hand_def set_cpu_def main_join_Some os_inv_def at_slot_def)

text \<open>With at most ten blocks a level that a process joins has room for it.\<close>

lemma level_blocks:
  assumes "pool k fr ps" "next_block k \<le> m" "0 \<le> l" "l < 140"
  shows "length (level (ksched k) l) \<le> m"
proof -
  have "set (level (ksched k) l) \<subseteq> {0..<next_block k}"
  proof
    fix q assume "q \<in> set (level (ksched k) l)"
    then have "waiting k q" using assms(3,4) unfolding waiting_def by blast
    then show "q \<in> {0..<next_block k}" using waiting_block [OF assms(1)] by simp
  qed
  then have "card (set (level (ksched k) l)) \<le> card {0..<next_block k}" by (intro card_mono) simp_all
  moreover have "distinct (level (ksched k) l)" using assms by (simp add: pool_def)
  ultimately show ?thesis using assms(2) by (simp add: distinct_card)
qed

lemma joins_level:
  assumes "pool k fr (add_mset p ps)" "pool k' fr ps" "joined p pr (ksched k) (ksched k')" "pr < 140"
    and "next_block k = next_block k'" "next_block k' \<le> 10" "procs k' p \<noteq> None"
  shows "waits_at (ksched k') p (uint pr) (length (level (ksched k) (uint pr))) \<and> length (level (ksched k) (uint pr)) < 10"
proof -
  have l: "0 \<le> uint pr" "uint pr < 140" using assms(4) by (simp_all add: word_less_def)
  have "set (level (ksched k) (uint pr)) \<subseteq> {0..<next_block k} - {p}"
  proof
    fix q assume "q \<in> set (level (ksched k) (uint pr))"
    then have "waiting k q" using l unfolding waiting_def by blast
    moreover have "\<not> waiting k p" using pool_held(1) [OF assms(1), of p] by simp
    ultimately show "q \<in> {0..<next_block k} - {p}" using waiting_block [OF assms(1)] by auto
  qed
  then have "card (set (level (ksched k) (uint pr))) \<le> card ({0..<next_block k} - {p})" by (intro card_mono) simp_all
  also have "\<dots> = next_block k - 1"
    using pool_held(3) [OF assms(1), of p] by (simp add: card_Diff_singleton)
  finally have "card (set (level (ksched k) (uint pr))) < 10" using assms(5,6) pool_held(3) [OF assms(1), of p] by simp
  moreover have "distinct (level (ksched k) (uint pr))" using assms(1) l by (simp add: pool_def)
  ultimately have "length (level (ksched k) (uint pr)) < 10" by (simp add: distinct_card)
  then show ?thesis using assms(3) l by (simp add: joined_def waits_at_def)
qed

end
