(* ===== verification/Race.thy ===== *)
theory Race
  imports Memphy
begin

text \<open>
  Two CPUs inside \<open>MEMPHY_get_freefp\<close> of \<open>src/mm-memphy.c\<close> at the same time. All processes share the
  device and no code takes a lock around the call (\<open>mmvm_lock\<close> of \<open>src/libmem.c\<close> is declared and
  never used), so the function is modelled here statement by statement.
\<close>

section \<open>The function, statement by statement\<close>

text \<open>
  Where a call is, with the pointer \<open>fp\<close> it has loaded: at the load of the head; at the test for
  NULL; at the store of \<open>*retfpn\<close>; at the store of the new head; at \<open>free(fp)\<close>; returned.
\<close>

datatype gf_pc =
    GF_load
  | GF_test "int chain"
  | GF_number "int chain"
  | GF_unlink "int chain"
  | GF_free "int chain"
  | GF_return int

record gf_call =
  gf_at :: gf_pc
  gf_retfpn :: "int option"

text \<open>The device, and the nodes given to \<open>free\<close>; a node is named by its frame number.\<close>

record gf_mem =
  gf_dev :: memphy_struct
  gf_freed :: "int set"

text \<open>The node a pointer points to.\<close>

definition gf_node :: "gf_mem \<Rightarrow> int chain \<Rightarrow> (int \<times> int chain) res" where
  "gf_node r fp = (case fp of
      Null \<Rightarrow> Inl NullDeref
    | Wild \<Rightarrow> Inl WildDeref
    | Node fpn fp_next \<Rightarrow> if fpn \<in> gf_freed r then Inl UseAfterFree else Inr (fpn, fp_next))"

definition gf_step :: "gf_call \<Rightarrow> gf_mem \<Rightarrow> (gf_call \<times> gf_mem) res" where
  "gf_step x r = (case gf_at x of
      GF_load \<Rightarrow> Inr (x\<lparr>gf_at := GF_test (free_fp_list (gf_dev r))\<rparr>, r)
    | GF_test fp \<Rightarrow> Inr (x\<lparr>gf_at := (if fp = Null then GF_return (-1) else GF_number fp)\<rparr>, r)
    | GF_number fp \<Rightarrow> bindr (gf_node r fp) (\<lambda>(fpn, fp_next).
        Inr (\<lparr>gf_at = GF_unlink fp, gf_retfpn = Some fpn\<rparr>, r))
    | GF_unlink fp \<Rightarrow> bindr (gf_node r fp) (\<lambda>(fpn, fp_next).
        Inr (x\<lparr>gf_at := GF_free fp\<rparr>, r\<lparr>gf_dev := (gf_dev r)\<lparr>free_fp_list := fp_next\<rparr>\<rparr>))
    | GF_free fp \<Rightarrow> bindr (gf_node r fp) (\<lambda>(fpn, fp_next).
        Inr (x\<lparr>gf_at := GF_return 0\<rparr>, r\<lparr>gf_freed := insert fpn (gf_freed r)\<rparr>))
    | GF_return v \<Rightarrow> Inr (x, r))"

definition gf_start :: gf_call where
  "gf_start = \<lparr>gf_at = GF_load, gf_retfpn = None\<rparr>"

section \<open>Two calls\<close>

text \<open>Two calls under a schedule that says whose statement is next.\<close>

fun gf_calls :: "bool list \<Rightarrow> gf_call \<times> gf_call \<times> gf_mem \<Rightarrow> (gf_call \<times> gf_call \<times> gf_mem) res" where
  "gf_calls [] (x, y, r) = Inr (x, y, r)"
| "gf_calls (True # bs) (x, y, r) = bindr (gf_step x r) (\<lambda>(x, r). gf_calls bs (x, y, r))"
| "gf_calls (False # bs) (x, y, r) = bindr (gf_step y r) (\<lambda>(y, r). gf_calls bs (x, y, r))"

lemmas gf_simps = gf_step_def gf_node_def gf_start_def

text \<open>What the caller sees of a call, and one call that nobody disturbs.\<close>

definition gf_result :: "gf_call \<times> gf_mem \<Rightarrow> (int \<times> int option \<times> memphy_ptr) res" where
  "gf_result = (\<lambda>(x, r). Inr (case gf_at x of GF_return v \<Rightarrow> v | _ \<Rightarrow> 0, gf_retfpn x, Some (gf_dev r)))"

definition gf_alone :: "memphy_struct \<Rightarrow> (int \<times> int option \<times> memphy_ptr) res" where
  "gf_alone m = bindr (gf_calls (replicate 5 True) (gf_start, gf_start, \<lparr>gf_dev = m, gf_freed = {}\<rparr>))
    (\<lambda>(x, y, r). gf_result (x, r))"

lemma gf_alone_eq: "gf_alone m = MEMPHY_get_freefp (Some m)"
proof -
  have "replicate 5 True = [True, True, True, True, True]" by (simp add: numeral_eq_Suc)
  then show ?thesis
    by (cases "free_fp_list m") (simp_all add: gf_alone_def gf_result_def gf_simps MEMPHY_get_freefp_def)
qed

text \<open>
  C17: a frame is handed out twice. Executed without interruption, the statements are
  \<open>MEMPHY_get_freefp\<close> as the rest of the development uses it. But two calls of two CPUs can
  interleave so that both have stored the same frame number for their callers and the frame is
  off the list once; whichever call goes on first, the two calls of \<open>free\<close> then hit the same node.
\<close>

theorem frame_race:
  assumes "free_fp_list m = Node fpn rest"
  shows "gf_alone m = MEMPHY_get_freefp (Some m) \<and>
    (\<exists>bs x y r. gf_calls bs (gf_start, gf_start, \<lparr>gf_dev = m, gf_freed = {}\<rparr>) = Inr (x, y, r) \<and>
       gf_retfpn x = Some fpn \<and> gf_retfpn y = Some fpn \<and> free_fp_list (gf_dev r) = rest \<and>
       (\<forall>b. gf_calls [b, \<not> b] (x, y, r) = Inl UseAfterFree))"
proof -
  let ?bs = "[True, False, True, False, True, False, True, False]"
  let ?x = "\<lparr>gf_at = GF_free (Node fpn rest), gf_retfpn = Some fpn\<rparr>"
  let ?r = "\<lparr>gf_dev = m\<lparr>free_fp_list := rest\<rparr>, gf_freed = {}\<rparr>"
  have "gf_calls ?bs (gf_start, gf_start, \<lparr>gf_dev = m, gf_freed = {}\<rparr>) = Inr (?x, ?x, ?r)"
    using assms by (simp add: gf_simps)
  moreover have "gf_calls [b, \<not> b] (?x, ?x, ?r) = Inl UseAfterFree" for b
    by (cases b) (simp_all add: gf_simps)
  ultimately show ?thesis
    by (intro conjI gf_alone_eq exI [of _ ?bs] exI [of _ ?x] exI [of _ ?r]) simp_all
qed

theorem frame_race_witness:
  "\<exists>bs x y r. gf_calls bs (gf_start, gf_start, \<lparr>gf_dev = dev4\<lparr>free_fp_list := chain_of [0, 1]\<rparr>, gf_freed = {}\<rparr>) = Inr (x, y, r) \<and>
    gf_retfpn x = Some 0 \<and> gf_retfpn y = Some 0 \<and> free_fp_list (gf_dev r) = chain_of [1]"
  using frame_race [of "dev4\<lparr>free_fp_list := chain_of [0, 1]\<rparr>" 0 "chain_of [1]"] by auto

end
