(* ===== verification/Overlap.thy ===== *)
theory Overlap
  imports Steps Race
begin

text \<open>
  When executing an instruction as one step is what the threads of \<open>src/os.c\<close> do. \<open>run\<close> takes no
  lock, and theory \<open>Race\<close> shows what two overlapping calls can do to the devices. This theory says
  which instructions use nothing but the memory of their process, and which runs of the system never
  have two CPUs inside \<open>run\<close> with instructions that use the devices.
\<close>

section \<open>Instructions that use no device\<close>

definition private_ins :: "inst_t \<Rightarrow> bool" where
  "private_ins i \<longleftrightarrow> opcode i = CALC \<or> opcode i = FREE \<or> opcode i = SYSCALL \<and> arg_0 i \<noteq> 101 \<and> arg_0 i \<noteq> 17"

lemma private_ins_ok: "private_ins i \<Longrightarrow> ins_ok c i"
  by (auto simp: private_ins_def ins_ok_def)

text \<open>
  The same state with other devices. A call that behaves alike whatever the devices are neither reads
  nor writes them.
\<close>

definition on_devices :: "memphy_struct \<Rightarrow> memphy_struct \<Rightarrow> caller \<Rightarrow> caller" where
  "on_devices m w c = c\<lparr>mram := Some m, active_mswp := Some w\<rparr>"

definition with_devices :: "memphy_struct \<Rightarrow> memphy_struct \<Rightarrow> kernel \<Rightarrow> kernel" where
  "with_devices m w k = k\<lparr>ram := m, swp := w\<rparr>"

lemma on_devices_simps [simp]:
  "mm (on_devices m w c) = mm c" "pid (on_devices m w c) = pid c"
  "print_line f as (on_devices m w c) = on_devices m w (print_line f as c)"
  "(on_devices m w c)\<lparr>mm := M\<rparr> = on_devices m w (c\<lparr>mm := M\<rparr>)"
  by (simp_all add: on_devices_def print_line_def)

lemma with_devices_simps [simp]:
  "procs (with_devices m w k) = procs k" "ksched (with_devices m w k) = ksched k"
  "ram (with_devices m w k) = m" "swp (with_devices m w k) = w"
  "kprint f as (with_devices m w k) = with_devices m w (kprint f as k)"
  "set_pcb p x (with_devices m w k) = with_devices m w (set_pcb p x k)"
  "caller_of x M (with_devices m w k) = on_devices m w (caller_of x M k)"
  "store_caller p x (on_devices m w c) (with_devices m w k) = with_devices m w (store_caller p x c k)"
  by (simp_all add: with_devices_def on_devices_def kprint_def set_pcb_def caller_of_def store_caller_def)

lemma for_loop_map:
  assumes "for_loop lo hi f s = Inr s'" "\<And>i t t'. f i t = Inr t' \<Longrightarrow> f i (g t) = Inr (g t')"
  shows "for_loop lo hi f (g s) = Inr (g s')"
  using assms
proof (induction lo hi f s rule: for_loop.induct)
  case (1 lo hi f s)
  show ?case
  proof (cases "lo < hi")
    case True
    then obtain t where "f lo s = Inr t" "for_loop (lo + 1) hi f t = Inr s'"
      using "1.prems"(1) by (auto simp: for_loop_step bindr_eq_Inr_iff)
    then show ?thesis using "1.IH" [OF True] "1.prems"(2) True by (simp add: for_loop_step)
  qed (use "1.prems"(1) in simp)
qed

lemma print_free_list_devices:
  "print_free_list rs c = Inr c' \<Longrightarrow> print_free_list rs (on_devices m w c) = Inr (on_devices m w c')"
  by (induction rs c rule: print_free_list.induct) (simp_all split: if_splits)

lemma print_pgtbl_devices:
  assumes "print_pgtbl c s e = Inr (r, c')"
  shows "print_pgtbl (on_devices m w c) s e = Inr (r, on_devices m w c')"
proof -
  have loop: "for_loop lo hi (\<lambda>i c. bindr (aget (pgd (mm c)) i) (\<lambda>pte. Inr (print_line f (h i pte) c))) (on_devices m w c1) =
      Inr (on_devices m w c2)"
    if "for_loop lo hi (\<lambda>i c. bindr (aget (pgd (mm c)) i) (\<lambda>pte. Inr (print_line f (h i pte) c))) c1 = Inr c2"
    for lo hi f h c1 c2
    using that by (rule for_loop_map) (auto simp: bindr_eq_Inr_iff)
  let ?last = "\<lambda>c. if e = u32_of_int (-1) then bindr (get_vma_by_num (mm c) 0) (\<lambda>p.
      bindr (vma_at (mm c) p) (\<lambda>v. Inr (u32_of_u64 (vm_end v)))) else Inr e"
  from assms obtain e' c1 where r: "r = 0" and e: "?last c = Inr e'"
    and p: "for_loop (int_of_u32 (PAGING_PGN s)) (int_of_u32 (PAGING_PGN e')) (\<lambda>i c. bindr (aget (pgd (mm c)) i) (\<lambda>pte.
        Inr (print_line F_pgtbl_pte [AL (u64_of_int (i * 4)), AU pte] c))) (print_line F_pgtbl_head [AU s, AU e'] c) = Inr c1"
      "for_loop (int_of_u32 (PAGING_PGN s)) (int_of_u32 (PAGING_PGN e')) (\<lambda>i c. bindr (aget (pgd (mm c)) i) (\<lambda>pte.
        Inr (print_line F_pgtbl_fpn [AI i, AI (int_of_u32 (PAGING_FPN pte))] c))) c1 = Inr c'"
    by (auto simp: print_pgtbl_def bindr_eq_Inr_iff Let_def)
  have "?last (on_devices m w c) = Inr e'" using e by (simp only: on_devices_simps)
  then have "print_pgtbl (on_devices m w c) s e = bindr (Inr e') (\<lambda>e. bindr (for_loop (int_of_u32 (PAGING_PGN s)) (int_of_u32 (PAGING_PGN e))
      (\<lambda>i c. bindr (aget (pgd (mm c)) i) (\<lambda>pte. Inr (print_line F_pgtbl_pte [AL (u64_of_int (i * 4)), AU pte] c)))
      (print_line F_pgtbl_head [AU s, AU e] (on_devices m w c))) (\<lambda>c. bindr (for_loop (int_of_u32 (PAGING_PGN s)) (int_of_u32 (PAGING_PGN e))
      (\<lambda>i c. bindr (aget (pgd (mm c)) i) (\<lambda>pte. Inr (print_line F_pgtbl_fpn [AI i, AI (int_of_u32 (PAGING_FPN pte))] c))) c)
      (\<lambda>c. Inr (0, c))))"
    unfolding print_pgtbl_def Let_def by (simp only:)
  then show ?thesis using r loop [OF p(1)] loop [OF p(2)] by simp
qed

lemma print_heap_devices:
  assumes "print_heap c = Inr c'"
  shows "print_heap (on_devices m w c) = Inr (on_devices m w c')"
proof -
  obtain v c1 p vma c2 where h: "print_pgtbl c 0 (u32_of_int (-1)) = Inr (v, c1)" "get_vma_by_num (mm c1) 0 = Inr p"
      "vma_at (mm c1) p = Inr vma"
    and l: "print_free_list (vm_freerg_list vma) (print_line F_free_list [] (print_line F_heap_sbrk [AL (sbrk vma)]
      (print_line F_heap_end [AL (vm_end vma)] (print_line F_heap_start [AL (vm_start vma)] (print_line F_heap_info [] c1))))) = Inr c2"
    and c': "c' = print_line F_rule [] c2"
    using assms by (auto simp: print_heap_def bindr_eq_Inr_iff Let_def)
  show ?thesis
    using print_pgtbl_devices [OF h(1)] print_free_list_devices [OF l] h(2,3) c' by (simp add: print_heap_def Let_def)
qed

lemma mm_free_devices:
  assumes "mm_free c a i = Inr (v, c')"
  shows "mm_free (on_devices m w c) a i = Inr (v, on_devices m w c')"
  using assms by (auto simp: mm_free_def bindr_eq_Inr_iff split: if_splits)

lemma libfree_devices:
  assumes "libfree c r = Inr (v, c')"
  shows "libfree (on_devices m w c) r = Inr (v, on_devices m w c')"
proof -
  let ?c = "print_line F_dealloc_head [AU (pid c), AU r] (print_line F_rule [] c)"
  have p: "pid (print_line f as d) = pid d" for f as d by (simp add: print_line_def)
  obtain c1 where f: "mm_free ?c 0 (int_of_u32 r) = Inr (v, c1)"
    and h: "print_heap (print_line F_dealloc_region [AU (pid c1), AU r] (print_line F_dealloc_mem [] c1)) = Inr c'"
    using assms by (auto simp: libfree_def bindr_eq_Inr_iff Let_def p)
  show ?thesis
    using mm_free_devices [OF f] print_heap_devices [OF h] by (simp add: libfree_def Let_def p)
qed

lemma as_caller_devices:
  assumes "as_caller k p f = Inr (r, k')" "\<And>c r c'. f c = Inr (r, c') \<Longrightarrow> f (on_devices m w c) = Inr (r, on_devices m w c')"
  shows "as_caller (with_devices m w k) p f = Inr (r, with_devices m w k')"
proof -
  obtain x M c where c: "procs k p = Some x" "p_mm x = Some M" "f (caller_of x M k) = Inr (r, c)" "k' = store_caller p x c k"
    using assms(1) by (auto simp: as_caller_Inr_iff)
  show ?thesis unfolding as_caller_Inr_iff
    by (intro exI [of _ x] exI [of _ M] exI [of _ "on_devices m w c"]) (simp add: c assms(2) [OF c(3)])
qed

lemma syscall_devices:
  assumes "libsyscall k p nr x y z = Inr (r, k')" "nr \<noteq> 17" "nr \<noteq> 101"
  shows "libsyscall (with_devices m w k) p nr x y z = Inr (r, with_devices m w k')"
proof -
  let ?f = "\<lambda>i k. bindr (aget (array_of sys_call_table) i) (\<lambda>s. Inr (kprint F_sysname [AS s] k))"
  have step: "?f i (with_devices m w t) = Inr (with_devices m w t')" if "?f i t = Inr t'" for i t t'
    using that by (cases "aget (array_of sys_call_table) i") auto
  show ?thesis
  proof (cases "nr = 0")
    case True
    then have "r = 0" and l: "for_loop 0 syscall_table_size ?f k = Inr k'"
      using assms(1) by (auto simp: libsyscall_def syscall_def sys_listsyscall_def bindr_eq_Inr_iff)
    then show ?thesis
      using True for_loop_map [where g = "with_devices m w", OF l step] by (simp add: libsyscall_def syscall_def sys_listsyscall_def)
  next
    case False
    then show ?thesis
      using assms by (auto simp: libsyscall_def syscall_def sys_xxxhandler_def sys_ni_syscall_def split: if_splits)
  qed
qed

text \<open>The instruction a process executes next is private, or it has none left.\<close>

definition private_next :: "kernel \<Rightarrow> nat \<Rightarrow> bool" where
  "private_next k p \<longleftrightarrow> (\<forall>x. procs k p = Some x \<and> pc x < code_size x \<longrightarrow> private_ins (next_ins x))"

lemma private_run:
  assumes "run k p = Inr (r, k')" "private_next k p"
  shows "run (with_devices m w k) p = Inr (r, with_devices m w k')"
proof -
  obtain x where x: "procs k p = Some x" using assms(1) by (auto simp: run_def bindr_eq_Inr_iff)
  show ?thesis
  proof (cases "pc x < code_size x")
    case False
    then show ?thesis using assms(1) x by (simp add: run_def pcb_at_def not_less)
  next
    case True
    let ?k = "set_pcb p (x\<lparr>pc := pc x + 1\<rparr>) k"
    have i: "aget (code_text x) (uint (pc x)) = Inr (next_ins x)" "exec_ins ?k p (next_ins x) = Inr (r, k')"
      using assms(1) x True by (auto simp: run_def pcb_at_def Let_def aget_def next_ins_def bindr_eq_Inr_iff split: if_splits)
    have "private_ins (next_ins x)" using assms(2) x True by (simp add: private_next_def)
    then have "exec_ins (with_devices m w ?k) p (next_ins x) = Inr (r, with_devices m w k')"
      unfolding private_ins_def
    proof (elim disjE conjE)
      assume "opcode (next_ins x) = FREE"
      then show ?thesis
        using i(2) as_caller_devices [of ?k p "\<lambda>c. libfree c (arg_0 (next_ins x))"] libfree_devices by (simp add: exec_ins_def)
    qed (use i(2) syscall_devices in \<open>simp_all add: exec_ins_def\<close>)
    then show ?thesis using x True [folded not_le] i(1) by (simp add: run_def pcb_at_def Let_def)
  qed
qed

lemma private_run_keeps:
  assumes "run k p = Inr (r, k')" "private_next k p"
  shows "ram k' = ram k" "swp k' = swp k"
proof -
  have "with_devices (ram k) (swp k) k = k" by (simp add: with_devices_def)
  then have "k' = with_devices (ram k) (swp k) k'" using private_run [OF assms, of "ram k" "swp k"] assms(1) by simp
  then show "ram k' = ram k" "swp k' = swp k" by (metis with_devices_simps(3,4))+
qed

section \<open>Runs in which the devices are used by one CPU at a time\<close>

text \<open>
  A CPU is at \<open>C_run\<close> from the moment it has decided to call \<open>run\<close> until the call has returned. So
  two calls overlap exactly when two CPUs are at \<open>C_run\<close> in one state.
\<close>

definition uses_device :: "kernel \<Rightarrow> cpu \<Rightarrow> bool" where
  "uses_device k u \<longleftrightarrow> cpc u = C_run \<and> (\<exists>p. cproc u = Some p \<and> \<not> private_next k p)"

definition apart :: "os \<Rightarrow> bool" where
  "apart s \<longleftrightarrow> (\<forall>i < length (cpus s). \<forall>j < length (cpus s).
     uses_device (kern s) (cpus s ! i) \<and> uses_device (kern s) (cpus s ! j) \<longrightarrow> i = j)"

lemma apart_single: "length (cpus s) \<le> 1 \<Longrightarrow> apart s"
  by (auto simp: apart_def)

lemma apart_private: "(\<And>p. private_next (kern s) p) \<Longrightarrow> apart s"
  by (simp add: apart_def uses_device_def)

lemma apart_idle: "\<forall>u \<in> set (cpus s). cpc u \<noteq> C_run \<Longrightarrow> apart s"
  by (simp add: apart_def uses_device_def)

text \<open>Executions in which every instruction is supported and no two CPUs use the devices at once.\<close>

definition rstep :: "env \<Rightarrow> config \<Rightarrow> os \<Rightarrow> event option \<Rightarrow> os \<Rightarrow> bool" where
  "rstep e c s l s' \<longleftrightarrow> apart s \<and> sstep e c s l s'"

lemma rstep_simps: "rstep e c s l s' \<longleftrightarrow> apart s \<and> supported s \<and> ostep e c s l s'"
  by (simp add: rstep_def sstep_def)

lemma rstep_execs: "execs (rstep e c) s ls s' \<Longrightarrow> execs (sstep e c) s ls s'"
  by (erule execs_mono) (simp add: rstep_def)

text \<open>With one CPU every supported run is of this kind.\<close>

lemma single_rstep:
  assumes "execs (sstep e c) s ls s'" "length (cpus s) \<le> 1"
  shows "execs (rstep e c) s ls s' \<and> length (cpus s') \<le> 1"
  using assms
proof (induction rule: execs.induct)
  case (silent s ls s' s'')
  then have r: "execs (rstep e c) s ls s'" "length (cpus s') \<le> 1" by blast+
  have "rstep e c s' None s''" using apart_single [OF r(2)] silent.hyps(2) by (simp add: rstep_def)
  moreover have "length (cpus s'') = length (cpus s')" using silent.hyps(2) by (auto simp: sstep_def dest: ostep_cpus)
  ultimately show ?case using r execs.silent by simp
next
  case (event s ls s' ev s'')
  then have r: "execs (rstep e c) s ls s'" "length (cpus s') \<le> 1" by blast+
  have "rstep e c s' (Some ev) s''" using apart_single [OF r(2)] event.hyps(2) by (simp add: rstep_def)
  moreover have "length (cpus s'') = length (cpus s')" using event.hyps(2) by (auto simp: sstep_def dest: ostep_cpus)
  ultimately show ?case using r execs.event by simp
qed (auto intro: execs.start)

end
