(* ===== verification/Completion.thy ===== *)
theory Completion
  imports Room Overlap
begin

text \<open>
  How long a process stays in the running system of \<open>src/os.c\<close>: it is handed from the scheduler to a CPU,
  run and put back until its last instruction is done.
\<close>

section \<open>How long a process can take\<close>

text \<open>A CPU about to detach has no process, and one that has detached stays there.\<close>

definition exits_ok :: "os \<Rightarrow> bool" where
  "exits_ok s \<longleftrightarrow> (\<forall>k < length (cpus s). (cpc (cpus s ! k) = C_exit \<longrightarrow> cproc (cpus s ! k) = None) \<and>
    (dpc (tim s) k = D_gone \<longrightarrow> cpc (cpus s ! k) = C_exit))"

lemma cpu_exits: "cpu_routine q dn i k u = Inr (k', u') \<Longrightarrow> cpc u \<notin> {C_slot, C_exit} \<Longrightarrow> cpc u' = C_exit \<Longrightarrow> cproc u' = None"
  by (cases "cpc u") (auto simp: cpu_routine_def bindr_eq_Inr_iff split: option.splits if_splits)

lemma exits_step:
  assumes "ostep e c s l s'" "exits_ok s"
  shows "exits_ok s'"
  using assms
proof (induction rule: ostep.induct)
  case (cpu i s k u)
  then show ?case
    using cpu_exits [OF cpu.hyps(4,3)] by (auto simp: exits_ok_def set_cpu_def nth_list_update)
next
  case (timer s t)
  then show ?case by (simp add: exits_ok_def timer_routine_dpc [OF timer.hyps])
qed (auto simp: exits_ok_def main_join_Some set_cpu_def nth_list_update next_slot_signal_def next_slot_return_def
    detach_event_def stop_timer_flag_def split: if_splits)

lemma holder_stays:
  assumes "exits_ok s" "k < length (cpus s)" "p \<in># own (cpus s ! k)"
  shows "dpc (tim s) k \<noteq> D_gone" "cpc (cpus s ! k) \<noteq> C_exit"
  using assms by (auto simp: exits_ok_def own_def)

lemma holder_not_gone:
  assumes "ostep e c s l s'" "exits_ok s" "k < length (cpus s)" "p \<in># own (cpus s ! k)"
  shows "dpc (tim s') k \<noteq> D_gone"
  using assms holder_stays [OF assms(2-4)]
proof (induction rule: ostep.induct)
  case (timer s t)
  then show ?case by (simp add: timer_routine_dpc [OF timer.hyps])
qed (auto simp: main_join_Some set_cpu_def next_slot_signal_def next_slot_return_def detach_event_def
    stop_timer_flag_def split: if_splits)

text \<open>
  A process waits at most \<open>full_wait\<close> slots (its level has at most ten processes), and each instruction
  costs a slot and at most one wait. \<open>hold_time w r u b\<close> bounds the ticks until a process that CPU
  \<open>u\<close> holds is done, with \<open>r\<close> instructions left.
\<close>

definition full_wait :: "config \<Rightarrow> int" where
  "full_wait c = 11 * 9871 * (time_slot c + 1)"

definition hold_time :: "int \<Rightarrow> int \<Rightarrow> cpu \<Rightarrow> bool \<Rightarrow> int" where
  "hold_time w r u b =
    (if cpc u = C_check \<or> cpc u = C_run then r * (w + 1) + 1
     else if cpc u = C_put then (r + 1) * (w + 1)
     else (if r = 0 then 0 else (r + 1) * (w + 1)) + (if cpc u = C_slot \<and> \<not> b then 1 else 0))"

lemma hold_time_bounds:
  assumes "0 \<le> r" "0 \<le> w"
  shows "0 \<le> hold_time w r u b" "hold_time w r u b \<le> (r + 1) * (w + 1) + 1"
  using assms by (auto simp: hold_time_def distrib_right)

lemma cpu_hold:
  assumes pool: "pool k fr (own u + ps)" and u: "cpu_ok u" "cpu_supported k u" "cpc u \<notin> {C_slot, C_exit}"
    and step: "cpu_routine q dn i k u = Inr (k', u')" and p: "p \<in># own u" "procs k' p \<noteq> None" and w: "0 \<le> w"
  shows "p \<in># own u' \<and> hold_time w (left_of k' p) u' False \<le> hold_time w (left_of k p) u False \<or>
    cpc u = C_put \<and> left_of k' p = left_of k p \<and> own u = {#p#} \<and> own u' = {#} \<and>
      (\<exists>pr. pr < 140 \<and> joined p pr (ksched k) (ksched k'))"
proof -
  have own: "cproc u = Some p" "own u = {#p#}" "cpc u \<noteq> C_get"
    using p(1) by (auto simp: own_def split: if_splits option.splits)
  have pool1: "pool k fr (add_mset p ps)" using pool own(2) by simp
  obtain x M where x: "procs k p = Some x" "p_mm x = Some M" "pc x \<le> code_size x" using pool_block [OF pool1, of p] by (metis union_single_eq_member)
  have r: "0 \<le> left_of k p" using pool_ready [OF pool1, of p] by (simp add: left_of_nonneg)
  have r0: "left_of k p = 0 \<longleftrightarrow> pc x = code_size x" using x(1) by (auto simp: left_of_def word_uint_eq_iff)
  show ?thesis
  proof (cases "cpc u")
    case C_top
    then have ne: "pc x \<noteq> code_size x"
      using p(2) step own x by (auto simp: cpu_routine_def pcb_at_def free_pcb_def bindr_eq_Inr_iff)
    then have "left_of k p \<noteq> 0" using r0 by simp
    moreover have "0 \<le> w * left_of k p" using r w by simp
    moreover have "left_of k' p = left_of k p" "own u' = {#p#}" "cpc u' = C_put \<or> cpc u' = C_check"
      using C_top ne step own x by (auto simp: cpu_routine_def pcb_at_def own_def split: if_splits)
    ultimately show ?thesis using C_top w by (auto simp: hold_time_def algebra_simps)
  next
    case C_put
    then have "sched_put p k = Inr k'" "own u' = {#}" using step own by (auto simp: cpu_routine_def own_def bindr_eq_Inr_iff)
    moreover have "left_of k' p = left_of k p"
      using calculation(1) by (auto simp: sched_put_def link_queues_def pcb_at_def bindr_eq_Inr_iff left_of_def
          kernel_simps split: option.splits)
    ultimately show ?thesis using pool_put [OF pool1] C_put own(2) by auto
  next
    case C_check
    then have "left_of k' p = left_of k p" "own u' = {#p#}" "cpc u' = C_run"
      using step own x by (auto simp: cpu_routine_def pcb_at_def own_def split: if_splits)
    then show ?thesis using C_check by (simp add: hold_time_def)
  next
    case C_run
    have "pc x < code_size x \<longrightarrow> ins_ok (caller_of x M k) (next_ins x)"
      using u(2) C_run own(1) x by (simp add: cpu_supported_def)
    moreover obtain a where "run k p = Inr (a, k')" "u' = u\<lparr>time_left := i32 (time_left u - 1), cpc := C_slot\<rparr>"
      using C_run own(1) step by (auto simp: cpu_routine_def bindr_eq_Inr_iff)
    ultimately have "left_of k' p = (if left_of k p = 0 then 0 else left_of k p - 1)" "own u' = {#p#}" "cpc u' = C_slot"
      using run_left [OF pool1 _ x(1,2)] own by (auto simp: own_def)
    then show ?thesis using C_run r w by (auto simp: hold_time_def algebra_simps)
  qed (use u(3) own(3) in simp_all)
qed

text \<open>\<open>t\<close> bounds the ticks process \<open>p\<close> can stay, counting on CPU \<open>i\<close> while it waits.\<close>

definition due :: "config \<Rightarrow> nat \<Rightarrow> os \<Rightarrow> nat \<Rightarrow> int \<Rightarrow> bool" where
  "due c i s p t \<longleftrightarrow>
    (\<exists>l j. waits_at (ksched (kern s)) p l j \<and> t = left_of (kern s) p * (full_wait c + 1) + wait_time c s l j i + 1) \<or>
    (\<exists>k < length (cpus s). p \<in># own (cpus s ! k) \<and>
      t = hold_time (full_wait c) (left_of (kern s) p) (cpus s ! k) (cpu_behind s k))"

lemma due_holdI:
  "k < length (cpus s) \<Longrightarrow> p \<in># own (cpus s ! k) \<Longrightarrow>
    due c i s p (hold_time (full_wait c) (left_of (kern s) p) (cpus s ! k) (cpu_behind s k))"
  unfolding due_def by blast

definition fair :: "config \<Rightarrow> nat \<Rightarrow> os \<Rightarrow> bool" where
  "fair c n s \<longleftrightarrow> os_inv c n s \<and> slices_ok c s \<and> blocks_ok c s \<and> exits_ok s"

lemma fair_step:
  assumes "sstep e c s l s'" "fair c n s" "clean_env e" "loadable e c" "0 < time_slot c" "time_slot c < 2 ^ 31"
  shows "fair c n s'"
proof -
  have st: "ostep e c s l s'" "supported s" using assms(1) by (simp_all add: sstep_def)
  have f: "os_inv c n s" "slices_ok c s" "blocks_ok c s" "exits_ok s" using assms(2) by (simp_all add: fair_def)
  show ?thesis unfolding fair_def
    using os_inv_step [OF st(1) f(1) st(2) assms(3,4)] slices_step [OF st(1) f(1,2) assms(5,6)]
      blocks_step [OF st(1) f(1) st(2) f(3)] exits_step [OF st(1) f(4)] by simp
qed

lemma full_wait_bound:
  assumes "fair c n s" "num_processes c \<le> 10" "waits_at (ksched (kern s)) p l j" "i < n" "0 < time_slot c"
  shows "0 \<le> wait_time c s l j i" "wait_time c s l j i \<le> full_wait c"
proof -
  have inv: "os_inv c n s" "slices_ok c s" "blocks_ok c s" using assms(1) by (simp_all add: fair_def)
  have w: "0 \<le> l" "l < 140" "j < length (level (ksched (kern s)) l)" using assms(3) by (simp_all add: waits_at_def)
  have "next_block (kern s) \<le> 10" using blocks_ok_bound [OF inv(3,1)] assms(2) by simp
  then have "length (level (ksched (kern s)) l) \<le> 10" using level_blocks w(1,2) inv(1) unfolding os_inv_def by blast
  then have "(int j + 2) * 9871 * (time_slot c + 1) \<le> 11 * 9871 * (time_slot c + 1)"
    using w(3) assms(5) by (intro mult_right_mono) simp_all
  then show "wait_time c s l j i \<le> full_wait c"
    using wait_time_bounds(2) [OF inv(1,2) assms(4,5), of l j] unfolding full_wait_def by (rule order_trans [rotated])
  show "0 \<le> wait_time c s l j i" by (rule wait_time_bounds(1) [OF inv(1,2) assms(4,5)])
qed

text \<open>The three ways of a process through a step: it goes on waiting, it is taken, or a CPU has it.\<close>

lemma due_waits:
  assumes step: "ostep e c s l s'" and s: "fair c n s" "supported s" "i < n" "dpc (tim s') i \<noteq> D_gone"
    and q: "0 < time_slot c" "time_slot c < 2 ^ 31"
    and w: "waits_at (ksched (kern s)) p lv j" "waiting (kern s') p"
  shows "\<exists>t'. due c i s' p t' \<and>
    t' + (if l = Some Tick then 1 else 0) \<le> left_of (kern s) p * (full_wait c + 1) + wait_time c s lv j i + 1"
proof -
  have inv: "os_inv c n s" "slice_ok (time_slot c) (cpus s ! i)"
    using s(1,3) by (auto simp: fair_def slices_ok_def os_inv_def)
  have "waiting (kern s) p" using w(1) by (auto simp: waits_at_def waiting_def)
  then have "left_of (kern s') p = left_of (kern s) p" using step_left [OF step inv(1) s(2)] by (intro left_of_cong) simp
  moreover have "closer c p lv i s l s'" by (rule os_step_closer [OF step inv(1) s(2,3) inv(2) q w(2) s(4)])
  then obtain j' where "waits_at (ksched (kern s')) p lv j'"
    "wait_time c s' lv j' i + (if l = Some Tick then 1 else 0) \<le> wait_time c s lv j i"
    using closer_wait [OF _ w(1) q(1)] by blast
  ultimately show ?thesis unfolding due_def by fastforce
qed

lemma own_gets:
  assumes "cpu_routine q dn i k u = Inr (k', u')" "cpc u \<notin> {C_slot, C_exit}" "p \<in># own u'" "p \<notin># own u"
  shows "cpc u' = C_check"
  using assms by (cases "cpc u") (auto simp: cpu_routine_def own_def bindr_eq_Inr_iff split: option.splits if_splits)

lemma due_taken:
  assumes "ostep e c s l s'" "fair c n s" "supported s" "i < n" "num_processes c \<le> 10" "0 < time_slot c"
    and "waits_at (ksched (kern s)) p lv j" "\<not> waiting (kern s') p"
  shows "\<exists>t'. due c i s' p t' \<and>
    t' + (if l = Some Tick then 1 else 0) \<le> left_of (kern s) p * (full_wait c + 1) + wait_time c s lv j i + 1"
  using assms
proof (induction rule: ostep.induct)
  case (cpu k s k' u)
  let ?s = "set_cpu k u (s\<lparr>kern := k'\<rparr>)"
  have inv: "os_inv c n s" using cpu.prems(1) by (simp add: fair_def)
  have w: "waiting (kern s) p" using cpu.prems(6) by (auto simp: waits_at_def waiting_def)
  note P = cpu_pool [OF inv cpu.prems(2) cpu.hyps(1)]
  have "p \<in># own u"
  proof (rule ccontr)
    assume "p \<notin># own u"
    then obtain g where "advances p lv g (kern s) k'" using cpu_advances [OF P cpu.hyps(3,4)] by blast
    then obtain j' where "waits_at (ksched k') p lv j'" using cpu.prems(6) unfolding advances_def by blast
    then show False using cpu.prems(7) by (auto simp: waits_at_def waiting_def set_cpu_def)
  qed
  moreover have "p \<notin># own (cpus s ! k)" using pool_held(1) [OF P(1), of p] w by auto
  ultimately have u: "p \<in># own u" "cpc u = C_check" using own_gets [OF cpu.hyps(4,3)] by blast+
  have "left_of (kern ?s) p = left_of (kern s) p"
    using step_left [OF ostep.cpu [OF cpu.hyps] inv cpu.prems(2) w] by (rule left_of_cong)
  moreover have "due c i ?s p (hold_time (full_wait c) (left_of (kern ?s) p) (cpus ?s ! k) (cpu_behind ?s k))"
    using cpu.hyps(1) u(1) by (intro due_holdI) (simp_all add: set_cpu_def)
  moreover have "0 \<le> wait_time c s lv j i"
    by (rule full_wait_bound(1) [OF cpu.prems(1,4,6,3,5)])
  ultimately show ?case using u(2) cpu.hyps(1) by (auto simp: hold_time_def set_cpu_def)
next
  case (ld m s k b u)
  then have "pool (kern s) (pending (loader s)) (ld_own (loader s) + held (cpus s))" "ld_ok c (loader s)"
    by (simp_all add: fair_def os_inv_def)
  then have "advances p lv False (kern s) k" by (rule ld_advances [OF _ _ ld.hyps(3,4)])
  then obtain j' where "waits_at (ksched k) p lv j'" using ld.prems(6) unfolding advances_def by blast
  then show ?case using ld.prems(7) by (auto simp: waits_at_def waiting_def)
qed (auto simp: waits_at_def waiting_def set_cpu_def main_join_Some)

text \<open>\<open>stays_due\<close>: after the step the process is due no later, and earlier if the clock ticked.\<close>

definition stays_due :: "config \<Rightarrow> nat \<Rightarrow> os \<Rightarrow> event option \<Rightarrow> nat \<Rightarrow> int \<Rightarrow> bool" where
  "stays_due c i s' l p t \<longleftrightarrow> (\<exists>t'. due c i s' p t' \<and> t' + (if l = Some Tick then 1 else 0) \<le> t)"

lemma stays_same:
  assumes "k < length (cpus s)" "p \<in># own (cpus s ! k)" "l \<noteq> Some Tick"
    and "length (cpus s') = length (cpus s)" "cpus s' ! k = cpus s ! k" "cpu_behind s' k = cpu_behind s k"
    and "procs (kern s') p = procs (kern s) p"
  shows "stays_due c i s' l p (hold_time (full_wait c) (left_of (kern s) p) (cpus s ! k) (cpu_behind s k))"
  using due_holdI [of k s' p c i] assms left_of_cong [OF assms(7)] unfolding stays_due_def
  by (intro exI [of _ "hold_time (full_wait c) (left_of (kern s) p) (cpus s ! k) (cpu_behind s k)"]) simp

lemma held_cpu:
  assumes k: "k < length (cpus s)" "dpc (tim s) k = D_run" "cpc (cpus s ! k) \<notin> {C_slot, C_exit}"
      "cpu_routine (time_slot c) (done_flag s) k (kern s) (cpus s ! k) = Inr (k', u)"
    and s: "os_inv c n s" "supported s" and s': "fair c n (set_cpu k u (s\<lparr>kern := k'\<rparr>))"
    and env: "num_processes c \<le> 10" "0 < time_slot c" "i < n"
    and p: "p \<in># own (cpus s ! k)" "procs k' p \<noteq> None"
  shows "stays_due c i (set_cpu k u (s\<lparr>kern := k'\<rparr>)) None p
    (hold_time (full_wait c) (left_of (kern s) p) (cpus s ! k) (cpu_behind s k))"
proof -
  let ?s = "set_cpu k u (s\<lparr>kern := k'\<rparr>)" and ?w = "full_wait c"
  note P = cpu_pool [OF s k(1)]
  have w: "0 \<le> ?w" using env(2) by (simp add: full_wait_def)
  have b: "cpu_behind s k = False" "cpu_behind ?s k = False" using k(2) by (simp_all add: cpu_behind_def set_cpu_def)
  from cpu_hold [OF P k(3,4) p w] show ?thesis
  proof (elim disjE conjE exE)
    assume "p \<in># own u" "hold_time ?w (left_of k' p) u False \<le> hold_time ?w (left_of (kern s) p) (cpus s ! k) False"
    then show ?thesis using due_holdI [of k ?s p c i] k(1) b unfolding stays_due_def
      by (intro exI [of _ "hold_time ?w (left_of k' p) u False"]) (simp add: set_cpu_def)
  next
    fix pr assume j: "cpc (cpus s ! k) = C_put" "left_of k' p = left_of (kern s) p" "own (cpus s ! k) = {#p#}"
      "own u = {#}" "pr < 140" "joined p pr (ksched (kern s)) (ksched k')"
    let ?l = "uint pr" and ?j = "length (level (ksched (kern s)) (uint pr))"
    have pl: "pool (kern s) (pending (loader s)) (add_mset p (ld_own (loader s) + held (without k (cpus s))))"
      using P(1) j(3) by simp
    have pl': "pool k' (pending (loader s)) (ld_own (loader s) + held (without k (cpus s)))"
      using cpu_step [OF P k(3), of "time_slot c" "done_flag s" k] k(4) j(4) by auto
    have nb: "next_block (kern s) = next_block k'" using cpu_only_own [OF P k(3,4)] by (simp add: only_own_def)
    have "int (next_block (kern ?s)) \<le> num_processes c" using s' blocks_ok_bound unfolding fair_def by blast
    then have "next_block k' \<le> 10" using env(1) by (simp add: set_cpu_def)
    from joins_level [OF pl pl' j(6,5) nb this p(2)] have at: "waits_at (ksched (kern ?s)) p ?l ?j"
      by (simp add: set_cpu_def)
    let ?t = "left_of (kern ?s) p * (?w + 1) + wait_time c ?s ?l ?j i + 1"
    have "due c i ?s p ?t" using at unfolding due_def by blast
    moreover have "wait_time c ?s ?l ?j i \<le> ?w" by (rule full_wait_bound(2) [OF s' env(1) at env(3,2)])
    then have "?t \<le> hold_time ?w (left_of (kern s) p) (cpus s ! k) (cpu_behind s k)"
      using j(1,2) by (simp add: hold_time_def set_cpu_def distrib_right)
    ultimately show ?thesis unfolding stays_due_def by (intro exI [of _ ?t]) simp
  qed
qed

lemma held_timer:
  assumes "timer_routine (tim s) = Some t" "fair c n s" "k < length (cpus s)" "p \<in># own (cpus s ! k)"
    and "0 \<le> left_of (kern s) p" "0 < time_slot c"
  shows "stays_due c i (s\<lparr>tim := t\<rparr>) (if ticks (tim s) then Some Tick else None) p
    (hold_time (full_wait c) (left_of (kern s) p) (cpus s ! k) (cpu_behind s k))"
proof -
  have k: "dpc (tim s) k \<noteq> D_gone" "os_inv c n s" "k < n"
    using holder_stays(1) [OF _ assms(3,4)] assms(2,3) by (auto simp: fair_def os_inv_def)
  from behind_timer [OF assms(1) k(2,3,1)] show ?thesis
    using due_holdI [of k "s\<lparr>tim := t\<rparr>" p c i] assms(3,4) unfolding stays_due_def
    by (intro exI [of _ "hold_time (full_wait c) (left_of (kern s) p) (cpus s ! k) (cpu_behind (s\<lparr>tim := t\<rparr>) k)"])
      (auto simp: hold_time_def split: if_splits)
qed

lemma held_return:
  assumes k: "k < length (cpus s)" "dpc (tim s) k = D_wait" "next_slot_return k (tim s) = Some t" and inv: "os_inv c n s"
    and p: "p \<in># own (cpus s ! k)"
  shows "stays_due c i (set_cpu k ((cpus s ! k)\<lparr>cpc := C_top\<rparr>) (s\<lparr>tim := t\<rparr>)) None p
    (hold_time (full_wait c) (left_of (kern s) p) (cpus s ! k) (cpu_behind s k))"
proof -
  let ?u = "(cpus s ! k)\<lparr>cpc := C_top\<rparr>"
  have b: "cpu_behind s k" "cpc (cpus s ! k) = C_slot" using behind_next [OF k inv, of k ?u] by simp_all
  then have "p \<in># own ?u" using p by (auto simp: own_def)
  then show ?thesis
    using b due_holdI [of k "set_cpu k ?u (s\<lparr>tim := t\<rparr>)" p c i] k(1) unfolding stays_due_def
    by (intro exI [of _ "hold_time (full_wait c) (left_of (kern s) p) (cpus s ! k) (cpu_behind s k)"])
      (simp add: set_cpu_def hold_time_def)
qed

lemma due_held:
  assumes step: "ostep e c s l s'" and f: "fair c n s" "fair c n s'" "supported s"
    and env: "num_processes c \<le> 10" "0 < time_slot c" "i < n"
    and k: "k < length (cpus s)" and p: "p \<in># own (cpus s ! k)" "procs (kern s') p \<noteq> None"
  shows "stays_due c i s' l p (hold_time (full_wait c) (left_of (kern s) p) (cpus s ! k) (cpu_behind s k))"
proof -
  have inv: "os_inv c n s" "exits_ok s" "k < n" using f(1) k by (auto simp: fair_def os_inv_def)
  have "dpc (tim s') k \<noteq> D_gone" by (rule holder_not_gone [OF step inv(2) k p(1)])
  with step inv(1) f(3) inv(3) show ?thesis
  proof (cases rule: step_cases)
    case quiet
    show ?thesis by (rule stays_same [OF k p(1) quiet(4,1-3) quiet(5) [OF p(1)]])
  next
    case (own k' u)
    then show ?thesis
      using held_cpu [OF k own(1-3) inv(1) f(3) _ env p(1)] f(2) p(2) by (simp add: set_cpu_def)
  next
    case (return t)
    show ?thesis unfolding return(3,4) by (rule held_return [OF k return(1,2) inv(1) p(1)])
  next
    case (clock t)
    have "p \<in># held (cpus s)" using held_split [OF k] p(1) by simp
    then have "0 \<le> left_of (kern s) p"
      using in_system_facts(1) [OF inv(1), of p] by (simp add: in_system_def left_of_nonneg)
    then show ?thesis unfolding clock(2,3) by (rule held_timer [OF clock(1) f(1) k p(1) _ env(2)])
  qed
qed

text \<open>The block of a process is freed after its last instruction, never before.\<close>

lemma cpu_frees:
  assumes pool: "pool k fr (own u + ps)" and u: "cpu_ok u" "cpu_supported k u" "cpc u \<notin> {C_slot, C_exit}"
    and step: "cpu_routine q dn i k u = Inr (k', u')" and p: "procs k p = Some x" "procs k' p = None"
  shows "pc x = code_size x"
proof (cases "cpc u")
  case C_run
  then obtain q r where q: "cproc u = Some q" "q \<in># own u + ps" "run k q = Inr (r, k')"
    using u(1) step by (auto simp: cpu_ok_def own_def cpu_routine_def bindr_eq_Inr_iff)
  obtain y M where y: "procs k q = Some y" "p_mm y = Some M" using pool_block [OF pool q(2)] by metis
  have "pc y < code_size y \<longrightarrow> ins_ok (caller_of y M k) (next_ins y)"
    using u(2) C_run q(1) y by (simp add: cpu_supported_def)
  from run_left [OF pool q(2) y this q(3)] have "p = q" using p by (auto simp: only_own_def)
  moreover have "procs k' q \<noteq> None"
  proof (cases "pc y < code_size y")
    case True
    have "code_ok y" "kernel_ok k" using pool_block [OF pool q(2)] y pool by (auto simp: pool_def)
    then show ?thesis using run_calm [of k q y M] y True u(2) C_run q(1,3) by (auto simp: cpu_supported_def)
  next
    case False
    then show ?thesis using y q(3) by (simp add: run_def not_less pcb_at_def)
  qed
  ultimately show ?thesis using p(2) by simp
qed (use u(3) step p in \<open>auto simp: cpu_routine_def sched_get_def sched_put_def link_queues_def free_pcb_def pcb_at_def
    bindr_eq_Inr_iff kernel_simps split: option.splits if_splits\<close>)

lemma freed_when_done:
  assumes "ostep e c s l s'" "os_inv c n s" "supported s" "procs (kern s) p = Some x" "procs (kern s') p = None"
  shows "pc x = code_size x"
  using assms
proof (induction rule: ostep.induct)
  case (cpu i s k u)
  from cpu_frees [OF cpu_pool [OF cpu.prems(1,2) cpu.hyps(1)] cpu.hyps(3,4) cpu.prems(3)]
  show ?case using cpu.prems(4) by (simp add: set_cpu_def)
next
  case (ld m s k b u)
  then show ?case
    by (cases "lpc (loader s)") (auto simp: ld_routine_def ld_load_def ld_setup_def sched_add_def link_queues_def Let_def
        bindr_eq_Inr_iff kernel_simps split: option.splits if_splits)
qed (auto simp: set_cpu_def main_join_Some)

section \<open>Runs\<close>

text \<open>\<open>p\<close> is alive after every step of the run: \<open>cpu_routine\<close> has not freed its block.\<close>

definition alive_step :: "env \<Rightarrow> config \<Rightarrow> nat \<Rightarrow> os \<Rightarrow> event option \<Rightarrow> os \<Rightarrow> bool" where
  "alive_step e c p s l s' \<longleftrightarrow> rstep e c s l s' \<and> procs (kern s') p \<noteq> None"

lemma due_step:
  assumes "alive_step e c p s l s'" "fair c n s" "clean_env e" "loadable e c"
    and "num_processes c \<le> 10" "0 < time_slot c" "time_slot c < 2 ^ 31" "i < n" "dpc (tim s') i \<noteq> D_gone"
    and "due c i s p t"
  shows "fair c n s' \<and> stays_due c i s' l p t"
proof -
  have st: "sstep e c s l s'" "ostep e c s l s'" "supported s" "procs (kern s') p \<noteq> None"
    using assms(1) by (simp_all add: alive_step_def rstep_def sstep_def)
  have f': "fair c n s'" by (rule fair_step [OF st(1) assms(2-4,6,7)])
  have "stays_due c i s' l p t" using assms(10) unfolding due_def
  proof (elim disjE exE conjE)
    fix lv j assume w: "waits_at (ksched (kern s)) p lv j"
      "t = left_of (kern s) p * (full_wait c + 1) + wait_time c s lv j i + 1"
    show ?thesis unfolding stays_due_def w(2)
      using due_waits [OF st(2) assms(2) st(3) assms(8,9,6,7) w(1)] due_taken [OF st(2) assms(2) st(3) assms(8,5,6) w(1)]
      by (cases "waiting (kern s') p") blast+
  next
    fix k assume k: "k < length (cpus s)" "p \<in># own (cpus s ! k)"
      "t = hold_time (full_wait c) (left_of (kern s) p) (cpus s ! k) (cpu_behind s k)"
    show ?thesis unfolding k(3) by (rule due_held [OF st(2) assms(2) f' st(3) assms(5,6,8) k(1,2) st(4)])
  qed
  then show ?thesis using f' by blast
qed

lemma due_run:
  assumes "execs (alive_step e c p) s ls s'" "fair c n s" "clean_env e" "loadable e c"
    and "num_processes c \<le> 10" "0 < time_slot c" "time_slot c < 2 ^ 31" "i < n" "dpc (tim s') i \<noteq> D_gone"
    and "due c i s p t"
  shows "fair c n s' \<and> (\<exists>t'. due c i s' p t' \<and> t' + int (count_list ls Tick) \<le> t)"
proof -
  have stay: "dpc (tim u) i \<noteq> D_gone" if "alive_step e c p u l v" "dpc (tim v) i \<noteq> D_gone" for u l v
    using that gone_stays unfolding alive_step_def rstep_def sstep_def by blast
  note step = due_step [OF _ _ assms(3-8)]
  show ?thesis using assms(1,2,9,10)
  proof (induction rule: execs.induct)
    case (silent s ls s' s'')
    obtain t' where t': "fair c n s'" "due c i s' p t'" "t' + int (count_list ls Tick) \<le> t"
      using silent stay [OF silent.hyps(2) silent.prems(2)] by blast
    from step [OF silent.hyps(2) t'(1) silent.prems(2) t'(2)] show ?case
      using t'(3) by (fastforce simp: stays_due_def)
  next
    case (event s ls s' ev s'')
    obtain t' where t': "fair c n s'" "due c i s' p t'" "t' + int (count_list ls Tick) \<le> t"
      using event stay [OF event.hyps(2) event.prems(2)] by blast
    from step [OF event.hyps(2) t'(1) event.prems(2) t'(2)] show ?case
      using t'(3) by (fastforce simp: stays_due_def split: if_splits)
  qed auto
qed

lemma due_bounds:
  assumes "fair c n s" "in_system s p" "num_processes c \<le> 10" "0 < time_slot c" "i < n"
  shows "due c i s p t \<Longrightarrow> 0 \<le> t" "\<exists>t. due c i s p t \<and> t \<le> (left_of (kern s) p + 1) * (full_wait c + 1) + 1"
proof -
  have r: "0 \<le> left_of (kern s) p" using in_system_facts(1) assms(1,2) left_of_nonneg unfolding fair_def by blast
  have w: "0 \<le> full_wait c" using assms(4) by (simp add: full_wait_def)
  note wt = full_wait_bound [OF assms(1,3) _ assms(5,4)]
  show "0 \<le> t" if "due c i s p t"
    using that wt(1) hold_time_bounds(1) [OF r w] r w unfolding due_def by fastforce
  consider l j where "waits_at (ksched (kern s)) p l j" | "p \<in># held (cpus s)"
    using assms(2) by (fastforce simp: in_system_def waiting_def waits_at_def in_set_conv_nth)
  then show "\<exists>t. due c i s p t \<and> t \<le> (left_of (kern s) p + 1) * (full_wait c + 1) + 1"
  proof cases
    case 1
    then show ?thesis using wt(2) [OF 1] unfolding due_def
      by (intro exI [of _ "left_of (kern s) p * (full_wait c + 1) + wait_time c s l j i + 1"]) (auto simp: distrib_right)
  next
    case 2
    then obtain u where "u \<in> set (cpus s)" "p \<in># own u" by (auto simp: held_def)
    then obtain k where "k < length (cpus s)" "p \<in># own (cpus s ! k)" by (auto simp: in_set_conv_nth)
    then show ?thesis using due_holdI hold_time_bounds(2) [OF r w] by blast
  qed
qed

lemma due_in_system:
  assumes "due c i s p t"
  shows "in_system s p"
  using assms unfolding due_def
proof (elim disjE exE conjE)
  fix l j assume "waits_at (ksched (kern s)) p l j"
  then show ?thesis by (auto simp: in_system_def waiting_def waits_at_def)
next
  fix k assume "k < length (cpus s)" "p \<in># own (cpus s ! k)"
  then show ?thesis using held_split by (simp add: in_system_def)
qed

text \<open>All steps counted: every step brings the next tick closer, and every tick the end of \<open>p\<close>.\<close>

lemma due_steps:
  assumes "((\<lambda>s s'. \<exists>l. alive_step e c p s l s') ^^ m) s s'" "fair c n s" "clean_env e" "loadable e c"
    and "num_processes c \<le> 10" "0 < time_slot c" "time_slot c < 2 ^ 31" "i < n" "dpc (tim s') i \<noteq> D_gone"
    and "due c i s p t"
  shows "fair c n s' \<and> (\<exists>t'. due c i s' p t' \<and>
    t' * (16 * int n + 21) + int (os_rank n s') + int m \<le> t * (16 * int n + 21) + int (os_rank n s))"
  using assms(1,9)
proof (induction m arbitrary: s')
  case 0
  then show ?case using assms(2,10) by auto
next
  case (Suc m)
  let ?R = "16 * int n + 21"
  from Suc.prems(1) obtain s1 l where run: "((\<lambda>s s'. \<exists>l. alive_step e c p s l s') ^^ m) s s1"
    and step: "alive_step e c p s1 l s'" by auto
  then have st: "ostep e c s1 l s'" by (simp add: alive_step_def rstep_def sstep_def)
  then have "dpc (tim s1) i \<noteq> D_gone" using Suc.prems(2) gone_stays by blast
  from Suc.IH [OF run this] obtain t1 where t1: "fair c n s1" "due c i s1 p t1"
    "t1 * ?R + int (os_rank n s1) + int m \<le> t * ?R + int (os_rank n s)" by blast
  from due_step [OF step t1(1) assms(3-8) Suc.prems(2) t1(2)] obtain t2 where
    t2: "fair c n s'" "due c i s' p t2" "t2 + (if l = Some Tick then 1 else 0) \<le> t1" unfolding stays_due_def by blast
  have timer: "os_timer n s1" "os_timer n s'" using t1(1) t2(1) by (simp_all add: fair_def os_inv_def os_timer_def)
  have "t2 * ?R + int (os_rank n s') + 1 \<le> t1 * ?R + int (os_rank n s1)"
  proof (cases "l = Some Tick")
    case True
    then have "(t2 + 1) * ?R \<le> t1 * ?R" using t2(3) by (intro mult_right_mono) simp_all
    moreover have "int (os_rank n s') \<le> 16 * int n + 20" using os_rank_le [OF timer(2)] by simp
    ultimately show ?thesis by (simp add: distrib_right)
  next
    case False
    then have "t2 * ?R \<le> t1 * ?R" using t2(3) by (intro mult_right_mono) simp_all
    moreover have "int (os_rank n s') + 1 \<le> int (os_rank n s1)" using rank_step [OF st timer(1) False] by simp
    ultimately show ?thesis by linarith
  qed
  then show ?case using t1(3) t2(1,2) by (intro conjI exI [of _ t2]) simp_all
qed

text \<open>The state after the start.\<close>

lemma boot_fair:
  assumes "main_boot e args = Inr (c, s)" "os_inv c n s" "cpus s = replicate n cpu_start" "dpc (tim s) = (\<lambda>_. D_run)"
    and "0 \<le> num_processes c" "0 < time_slot c"
  shows "fair c n s"
proof -
  have "next_block (kern s) = 0" "loader s = \<lparr>li = 0, lproc = None, lpc = L_start\<rparr>"
    using assms(1) by (auto simp: main_boot_def Let_def bindr_eq_Inr_iff split: list.splits option.splits if_splits)
  then have "blocks_ok c s" using assms(5) by (simp add: blocks_ok_def in_hand_def)
  moreover have "slices_ok c s" "exits_ok s"
    using assms(3,4,6) by (auto simp: slices_ok_def slice_ok_def exits_ok_def cpu_start_def)
  ultimately show ?thesis using assms(2) by (simp add: fair_def)
qed

lemma fair_run:
  assumes "execs (sstep e c) s ls s'" "fair c n s" "clean_env e" "loadable e c" "0 < time_slot c" "time_slot c < 2 ^ 31"
  shows "fair c n s'"
  by (rule execs_inv [OF assms(1), of "fair c n"]) (use assms(2) fair_step [OF _ _ assms(3-6)] in blast)+

end
