(* ===== verification/Arrival.thy ===== *)
theory Arrival
  imports System
begin

text \<open>
  When the loader (\<open>ld_routine\<close> of \<open>src/os.c\<close>) hands a process to the scheduler: the slots in
  which the processes of the configuration arrive, computed from their start times alone.
\<close>

section \<open>The schedule of arrivals\<close>

text \<open>
  After a process was added the loader waits for the next slot, so two processes never arrive in
  one slot; \<open>earliest ts i\<close> is the first slot in which the i-th process can arrive.
\<close>

fun earliest :: "u64 list \<Rightarrow> nat \<Rightarrow> nat" where
  "earliest ts 0 = 0"
| "earliest ts (Suc i) = max (earliest ts i) (unat (ts ! i)) + 1"

definition arrival :: "u64 list \<Rightarrow> nat \<Rightarrow> nat" where
  "arrival ts i = max (earliest ts i) (unat (ts ! i))"

lemma earliest_Suc [simp]: "earliest ts (Suc i) = Suc (arrival ts i)"
  by (simp add: arrival_def)

declare earliest.simps(2) [simp del]

section \<open>Where the loader is in time\<close>

definition ld_turned :: "os \<Rightarrow> bool" where
  "ld_turned s \<longleftrightarrow> length (cpus s) \<in> turned (barrier_of (tim s))"

text \<open>
  \<open>t\<close> is the number of ticks so far; \<open>w\<close> says that the loader is inside \<open>next_slot\<close>, \<open>b\<close> that
  the slot it waits for has begun.
\<close>

definition ld_at :: "u64 list \<Rightarrow> nat \<Rightarrow> ldr \<Rightarrow> bool \<Rightarrow> bool \<Rightarrow> bool" where
  "ld_at ts t u w b \<longleftrightarrow> (case lpc u of
      L_start \<Rightarrow> li u = 0 \<and> t = 0 \<and> \<not> w
    | L_head \<Rightarrow> 0 \<le> li u \<and> t = earliest ts (nat (li u)) \<and> \<not> w
    | L_time \<Rightarrow> 0 \<le> li u \<and> earliest ts (nat (li u)) \<le> t \<and> t \<le> arrival ts (nat (li u)) \<and> \<not> w
    | L_add \<Rightarrow> 0 \<le> li u \<and> t = arrival ts (nat (li u)) \<and> \<not> w
    | L_wait \<Rightarrow> 0 \<le> li u \<and> earliest ts (nat (li u)) \<le> t \<and>
        (if b then t \<le> unat (ts ! nat (li u)) else t < unat (ts ! nat (li u)))
    | L_next \<Rightarrow> 0 \<le> li u \<and> (if b then t = earliest ts (nat (li u)) else t + 1 = earliest ts (nat (li u)))
    | L_exit \<Rightarrow> True)"

definition ld_waits :: "os \<Rightarrow> bool" where
  "ld_waits s \<longleftrightarrow> dpc (tim s) (length (cpus s)) = D_wait"

definition ld_timed :: "u64 list \<Rightarrow> nat \<Rightarrow> os \<Rightarrow> bool" where
  "ld_timed ts t s \<longleftrightarrow> ld_at ts t (loader s) (ld_waits s) (ld_waits s \<and> \<not> ld_turned s) \<and>
    (dpc (tim s) (length (cpus s)) = D_gone \<longrightarrow> lpc (loader s) = L_exit) \<and> now (tim s) = of_nat t"

text \<open>A step that the loader does not see.\<close>

lemma ld_timed_cong:
  assumes "ld_timed ts t s" "loader s' = loader s" "length (cpus s') = length (cpus s)"
    "dpc (tim s') (length (cpus s)) = dpc (tim s) (length (cpus s))" "ld_turned s' = ld_turned s" "now (tim s') = now (tim s)"
  shows "ld_timed ts t s'"
  using assms by (simp add: ld_timed_def ld_waits_def)

lemma turned_waits: "ld_turned s \<Longrightarrow> dpc (tim s) (length (cpus s)) = D_wait"
  by (simp add: ld_turned_def barrier_of_def)

lemma not_turned: "t_done (dev (tim s) (length (cpus s))) = 0 \<Longrightarrow> \<not> ld_turned s"
  by (simp add: ld_turned_def barrier_of_def)

text \<open>The clock ticks only when the loader waits for it.\<close>

lemma ld_timed_tick:
  assumes "ld_timed ts t s" "at_slot s" "bstep {0..<Suc (length (cpus s))} (barrier_of (tim s)) Tick (barrier_of t')"
    "dpc t' = dpc (tim s)"
  shows "ld_timed ts (Suc t) (s\<lparr>tim := t'\<rparr>)"
proof -
  let ?n = "length (cpus s)" and ?s = "s\<lparr>tim := t'\<rparr>"
  have b: "{0..<Suc ?n} \<subseteq> turned (barrier_of (tim s)) \<union> gone (barrier_of (tim s))"
    "barrier_of t' = (barrier_of (tim s))\<lparr>clock := clock (barrier_of (tim s)) + 1, turned := {}\<rparr>"
    using assms(3) by (simp_all add: bstep_simps)
  have n: "now t' = now (tim s) + 1" using arg_cong [OF b(2), of clock] by (simp add: barrier_of_def)
  have nt: "\<not> ld_turned ?s" using arg_cong [OF b(2), of turned] by (simp add: ld_turned_def)
  have "?n \<in> {0..<Suc ?n}" by simp
  then have "ld_turned s \<or> dpc (tim s) ?n = D_gone"
    using b(1) unfolding ld_turned_def barrier_of_def by auto
  then show ?thesis
  proof
    assume tu: "ld_turned s"
    then have w: "ld_waits s" "ld_waits ?s" using turned_waits assms(4) by (simp_all add: ld_waits_def)
    then have "lpc (loader s) \<in> {L_wait, L_next}" using assms(2) by (simp add: at_slot_def ld_waits_def)
    then have "ld_at ts (Suc t) (loader s) True True" using assms(1) tu by (auto simp: ld_timed_def ld_at_def)
    then show ?thesis using assms(1,4) tu w nt n by (simp add: ld_timed_def)
  next
    assume g: "dpc (tim s) ?n = D_gone"
    then have "lpc (loader s) = L_exit" using assms(1) by (simp add: ld_timed_def)
    then show ?thesis using assms(1,4) g n by (simp add: ld_timed_def ld_at_def)
  qed
qed

text \<open>The steps of the loader itself.\<close>

definition starts :: "config \<Rightarrow> u64 list \<Rightarrow> bool" where
  "starts c ts \<longleftrightarrow> (\<forall>i. 0 \<le> i \<and> i < num_processes c \<longrightarrow> aget (start_time c) i = Inr (ts ! nat i))"

lemma ld_at_routine:
  assumes t: "ld_at ts t u0 False False" "unat tm = t" and c: "starts c ts" "ld_ok c u0"
    and run: "lpc u0 \<notin> {L_wait, L_next, L_exit}" and step: "ld_routine e c tm k0 dn u0 = Inr (k, b, u)"
  shows "ld_at ts t u False False"
proof (cases "lpc u0")
  case L_start
  then show ?thesis using t(1) step by (auto simp: ld_routine_def ld_at_def)
next
  case L_head
  then show ?thesis using t(1) step
    by (auto simp: ld_routine_def ld_at_def arrival_def bindr_eq_Inr_iff split: if_splits)
next
  case L_time
  then have "0 \<le> li u0" "li u0 < num_processes c" using c(2) by (simp_all add: ld_ok_def)
  then have st: "aget (start_time c) (li u0) = Inr (ts ! nat (li u0))" using c(1) by (simp add: starts_def)
  show ?thesis
  proof (cases "tm < ts ! nat (li u0)")
    case True
    then have "t < unat (ts ! nat (li u0))" using t(2) by (simp add: word_less_nat_alt)
    then show ?thesis using L_time True t(1) step st by (auto simp: ld_routine_def ld_at_def)
  next
    case False
    then have "unat (ts ! nat (li u0)) \<le> t" using t(2) by (simp add: word_less_nat_alt)
    then have "t = arrival ts (nat (li u0))" using t(1) L_time by (auto simp: ld_at_def arrival_def)
    moreover have "lpc u = L_add" "li u = li u0"
      using L_time False step st by (auto simp: ld_routine_def bindr_eq_Inr_iff split: option.splits)
    ultimately show ?thesis using t(1) L_time by (simp add: ld_at_def)
  qed
next
  case L_add
  then have "lpc u = L_next" "li u = li u0 + 1"
    using step by (auto simp: ld_routine_def bindr_eq_Inr_iff split: option.splits)
  moreover have "nat (li u0 + 1) = Suc (nat (li u0))" using t(1) L_add by (simp add: ld_at_def nat_add_distrib)
  ultimately show ?thesis using t(1) L_add by (simp add: ld_at_def)
qed (use run in simp_all)

lemma turned_eq:
  "ld_turned s \<longleftrightarrow> length (cpus s) \<in> set (dev_list (tim s)) \<and> ld_waits s \<and>
    t_done (dev (tim s) (length (cpus s))) \<noteq> 0 \<and> \<not> releasing (tim s) (length (cpus s))"
  by (simp add: ld_turned_def ld_waits_def barrier_of_def)

lemma releasing_dev [simp]: "releasing (t\<lparr>dev := f\<rparr>) d = releasing t d" "releasing (t\<lparr>dpc := g\<rparr>) d = releasing t d"
    "releasing (t\<lparr>timer_stop := b\<rparr>) d = releasing t d"
  by (simp_all add: releasing_def)

lemma ld_timed_timer:
  assumes "timer_routine (tim s) = Some t'" "ld_timed ts t s" "os_timer n s" "at_slot s"
  shows "ld_timed ts (if ticks (tim s) then Suc t else t) (s\<lparr>tim := t'\<rparr>)"
proof -
  have d: "dpc t' = dpc (tim s)" by (rule timer_routine_dpc [OF assms(1)])
  have b: "if ticks (tim s) then bstep (set (dev_list (tim s))) (barrier_of (tim s)) Tick (barrier_of t')
      else barrier_of t' = barrier_of (tim s)"
    using assms(1,3) by (intro barrier_timer) (simp_all add: os_timer_def timer_with_def)
  have ds: "set (dev_list (tim s)) = {0..<Suc (length (cpus s))}" using assms(3) by (auto simp: os_timer_def timer_with_def)
  show ?thesis
  proof (cases "ticks (tim s)")
    case True
    then show ?thesis using ld_timed_tick [OF assms(2,4), of t'] d b ds by simp
  next
    case False
    then have same: "barrier_of t' = barrier_of (tim s)" using b by simp
    then have "now t' = now (tim s)" using arg_cong [OF same, of clock] by (simp add: barrier_of_def)
    then show ?thesis using False assms(2) d same by (simp add: ld_timed_def ld_waits_def ld_turned_def)
  qed
qed

lemma ld_timed_step:
  assumes "ostep e c s l s'" "ld_timed ts t s" "t < 2 ^ 64" "starts c ts" "os_timer n s" "at_slot s" "ld_ok c (loader s)"
  shows "ld_timed ts (if l = Some Tick then Suc t else t) s'"
  using assms
proof (induction rule: ostep.induct)
  case (cpu i s k u)
  then show ?case by (simp add: ld_timed_def ld_turned_def ld_waits_def set_cpu_def)
next
  case (cpu_slot i s)
  then show ?case by (simp add: ld_timed_def turned_eq ld_waits_def next_slot_signal_def set_dev_def)
next
  case (cpu_next i s t')
  then show ?case
    by (auto simp: ld_timed_def turned_eq ld_waits_def next_slot_return_def set_cpu_def split: if_splits)
next
  case (cpu_exit i s)
  then show ?case by (simp add: ld_timed_def turned_eq ld_waits_def detach_event_def set_dev_def)
next
  case (ld m s k b u)
  then have "\<not> ld_turned s" using turned_waits [of s] by auto
  moreover have "unat (current_time (tim s)) = t"
    using ld.prems by (simp add: ld_timed_def current_time_def unsigned_of_nat take_bit_nat_eq_self)
  ultimately show ?case
    using ld ld_at_routine [of ts t "loader s", OF _ _ ld.prems(3,6) ld.hyps(3,4)]
    by (simp add: ld_timed_def ld_waits_def ld_turned_def)
next
  case (ld_slot m s)
  let ?s = "s\<lparr>tim := next_slot_signal m (tim s)\<rparr>"
  have "bstep {0..<Suc n} (barrier_of (tim s)) (Turn m) (barrier_of (tim ?s))"
    using ostep.ld_slot [OF ld_slot.hyps] ld_slot.prems(4) by (rule os_sim.event_step [rotated])
  then have tu: "ld_turned ?s" using ld_slot.hyps(1) by (simp add: ld_turned_def bstep_simps)
  have "\<not> ld_waits s" using ld_slot.hyps by (simp add: ld_waits_def)
  then have "ld_at ts t (loader s) True False"
    using ld_slot.prems(1) ld_slot.hyps(3) by (auto simp: ld_timed_def ld_at_def)
  then show ?case
    using tu ld_slot by (simp add: ld_timed_def ld_waits_def) (simp add: next_slot_signal_def set_dev_def)
next
  case (ld_next m s t')
  then have t': "t_done (dev (tim s) m) = 0" "t' = (tim s)\<lparr>dpc := (dpc (tim s))(m := D_run)\<rparr>"
    by (auto simp: next_slot_return_def split: if_splits)
  have "lpc (loader s) \<in> {L_wait, L_next}" using ld_next by (simp add: at_slot_def)
  moreover have "ld_at ts t (loader s) True True" using ld_next t'(1) not_turned [of s] by (simp add: ld_timed_def ld_waits_def)
  ultimately show ?case
    using ld_next t' by (auto simp: ld_timed_def ld_at_def ld_waits_def arrival_def)
next
  case (ld_exit m s)
  then show ?case by (simp add: ld_timed_def ld_at_def detach_event_def set_dev_def)
next
  case (timer s t')
  then show ?case using ld_timed_timer [of s t' ts t n] by (simp split: if_splits)
next
  case (stop s s')
  then have e: "s' = s\<lparr>tim := stop_timer_flag (tim s)\<rparr>" by (simp add: main_join_Some)
  from stop.prems(1) show ?case unfolding e by (simp add: ld_timed_def turned_eq ld_waits_def stop_timer_flag_def)
qed

section \<open>Runs\<close>

lemma ld_ok_routine:
  assumes "ld_routine e c tm k dn u = Inr (k', b, u')" "ld_ok c u"
  shows "ld_ok c u'"
  using assms by (cases "lpc u") (auto simp: ld_routine_def ld_ok_def bindr_eq_Inr_iff split: option.splits if_splits)

lemma ld_ok_step:
  assumes "ostep e c s l s'" "ld_ok c (loader s)" "at_slot s"
  shows "ld_ok c (loader s')"
  using assms
proof (induction rule: ostep.induct)
  case (ld m s k b u)
  then show ?case using ld_ok_routine [OF ld.hyps(4)] by simp
next
  case (ld_next m s t)
  then show ?case by (auto simp: at_slot_def ld_ok_def)
qed (auto simp: set_cpu_def main_join_Some)

definition arrivals_inv :: "config \<Rightarrow> u64 list \<Rightarrow> nat \<Rightarrow> nat \<Rightarrow> os \<Rightarrow> bool" where
  "arrivals_inv c ts n t s \<longleftrightarrow> ld_timed ts t s \<and> os_timer n s \<and> at_slot s \<and> ld_ok c (loader s)"

lemma arrivals_step:
  assumes "ostep e c s l s'" "arrivals_inv c ts n t s" "t < 2 ^ 64" "starts c ts"
  shows "arrivals_inv c ts n (if l = Some Tick then Suc t else t) s'"
  using assms ld_timed_step [OF assms(1), of ts t n] os_sim.invar_step [of n s e c l s'] at_slot_step [OF assms(1)]
    ld_ok_step [OF assms(1)] by (simp add: arrivals_inv_def)

lemma arrivals_run:
  assumes "execs (ostep e c) s ls s'" "arrivals_inv c ts n 0 s" "count_list ls Tick < 2 ^ 64" "starts c ts"
  shows "arrivals_inv c ts n (count_list ls Tick) s'"
  using assms
proof (induction rule: execs.induct)
  case (silent s ls s' s'')
  then show ?case using arrivals_step [OF silent.hyps(2)] by simp
next
  case (event s ls s' ev s'')
  then have "count_list ls Tick < 2 ^ 64" by simp
  then show ?case
    using event arrivals_step [OF event.hyps(2), of ts n "count_list ls Tick"] by (simp split: if_splits)
qed simp

lemma arrivals_boot:
  assumes "os_inv c n s" "loader s = \<lparr>li = 0, lproc = None, lpc = L_start\<rparr>" "dpc (tim s) = (\<lambda>_. D_run)" "now (tim s) = 0"
  shows "arrivals_inv c ts n 0 s"
  using assms by (simp add: arrivals_inv_def ld_timed_def ld_at_def ld_waits_def os_timer_def os_inv_def)

text \<open>The loader alone gets its first process to the scheduler when that starts in slot 0.\<close>

lemma ld_goes:
  assumes "os_inv c n s" "clean_env e" "loadable e c" "supported s" "dpc (tim s) n = D_run"
    and "lpc (loader s) \<notin> {L_wait, L_next, L_exit}"
  shows "\<exists>k b u. ld_routine e c (current_time (tim s)) (kern s) (done_flag s) (loader s) = Inr (k, b, u) \<and>
    ostep e c s None (s\<lparr>kern := k, done_flag := b, loader := u\<rparr>) \<and>
    os_inv c n (s\<lparr>kern := k, done_flag := b, loader := u\<rparr>)"
proof -
  have p: "pool (kern s) (pending (loader s)) (ld_own (loader s) + held (cpus s))" "ld_ok c (loader s)"
    "length (cpus s) = n" using assms(1) by (simp_all add: os_inv_def)
  obtain k b u where r: "ld_routine e c (current_time (tim s)) (kern s) (done_flag s) (loader s) = Inr (k, b, u)"
    using ld_step [OF p(1,2) assms(6,2,3), of "current_time (tim s)" "done_flag s"] by blast
  have st: "ostep e c s None (s\<lparr>kern := k, done_flag := b, loader := u\<rparr>)"
    using ostep.ld [OF refl _ assms(6) r] p(3) assms(5) by simp
  then show ?thesis using r os_inv_step [OF st assms(1,4,2,3)] by blast
qed

lemma first_added:
  assumes "os_inv c n s" "clean_env e" "loadable e c" "cpus s = replicate n cpu_start" "dpc (tim s) = (\<lambda>_. D_run)"
    and "loader s = \<lparr>li = 0, lproc = None, lpc = L_start\<rparr>" "now (tim s) = 0" "0 < num_processes c" "starts c ts" "ts ! 0 = 0"
  shows "\<exists>s'. execs (sstep e c) s [] s' \<and> lpc (loader s') = L_add \<and> li (loader s') = 0 \<and> os_inv c n s' \<and>
    cpus s' = replicate n cpu_start \<and> dpc (tim s') = (\<lambda>_. D_run) \<and> ksched (kern s') = ksched (kern s)"
proof -
  have sup: "supported t" if "cpus t = replicate n cpu_start" for t
    using that by (auto simp: supported_def cpu_supported_def cpu_start_def)
  obtain k b u where s1: "ld_routine e c (current_time (tim s)) (kern s) (done_flag s) (loader s) = Inr (k, b, u)"
    "ostep e c s None (s\<lparr>kern := k, done_flag := b, loader := u\<rparr>)" "os_inv c n (s\<lparr>kern := k, done_flag := b, loader := u\<rparr>)"
    using ld_goes [OF assms(1-3) sup [OF assms(4)]] assms(5,6) by auto
  then have u: "lpc u = L_head" "li u = 0" "ksched k = ksched (kern s)"
    using assms(6) by (auto simp: ld_routine_def kernel_simps)
  let ?s1 = "s\<lparr>kern := k, done_flag := b, loader := u\<rparr>"
  obtain k2 b2 u2 where s2: "ld_routine e c (current_time (tim ?s1)) (kern ?s1) (done_flag ?s1) (loader ?s1) = Inr (k2, b2, u2)"
    "ostep e c ?s1 None (?s1\<lparr>kern := k2, done_flag := b2, loader := u2\<rparr>)" "os_inv c n (?s1\<lparr>kern := k2, done_flag := b2, loader := u2\<rparr>)"
    using ld_goes [OF s1(3) assms(2,3) sup] assms(4,5) u by auto
  then have u2: "lpc u2 = L_time" "li u2 = 0" "ksched k2 = ksched (kern s)"
    using u assms(8) by (auto simp: ld_routine_def ld_load_def Let_def bindr_eq_Inr_iff kernel_simps)
  let ?s2 = "?s1\<lparr>kern := k2, done_flag := b2, loader := u2\<rparr>"
  obtain k3 b3 u3 where s3: "ld_routine e c (current_time (tim ?s2)) (kern ?s2) (done_flag ?s2) (loader ?s2) = Inr (k3, b3, u3)"
    "ostep e c ?s2 None (?s2\<lparr>kern := k3, done_flag := b3, loader := u3\<rparr>)" "os_inv c n (?s2\<lparr>kern := k3, done_flag := b3, loader := u3\<rparr>)"
    using ld_goes [OF s2(3) assms(2,3) sup] assms(4,5) u2 by auto
  have "aget (start_time c) 0 = Inr 0" using assms(8-10) by (simp add: starts_def)
  then have "lpc u3 = L_add" "li u3 = 0" "ksched k3 = ksched (kern s)"
    using s3(1) u2 assms(7) by (auto simp: ld_routine_def ld_setup_def current_time_def Let_def bindr_eq_Inr_iff kernel_simps
        split: option.splits)
  moreover have "sstep e c s None ?s1" "sstep e c ?s1 None ?s2" "sstep e c ?s2 None (?s2\<lparr>kern := k3, done_flag := b3, loader := u3\<rparr>)"
    using s1(2) s2(2) s3(2) assms(4) by (simp_all add: sstep_def sup)
  ultimately show ?thesis
    using execs.silent [OF execs.silent [OF execs_silent1 [of "sstep e c" s ?s1]]] s3(3) assms(4,5)
    by (intro exI [of _ "?s2\<lparr>kern := k3, done_flag := b3, loader := u3\<rparr>"]) auto
qed

lemma first_waits:
  assumes "os_inv c n s" "clean_env e" "loadable e c" "cpus s = replicate n cpu_start" "dpc (tim s) = (\<lambda>_. D_run)"
    and "loader s = \<lparr>li = 0, lproc = None, lpc = L_start\<rparr>" "now (tim s) = 0" "0 < num_processes c" "starts c ts" "ts ! 0 = 0"
  shows "\<exists>s' p. execs (sstep e c) s [] s' \<and> 0 \<le> p \<and> p < 140 \<and> level (ksched (kern s')) p \<noteq> [] \<and>
    os_inv c n s' \<and> cpus s' = replicate n cpu_start \<and> dpc (tim s') = (\<lambda>_. D_run) \<and>
    (\<forall>l \<ge> 0. slots (ksched (kern s')) l = slots (ksched (kern s)) l)"
proof -
  obtain t where t: "execs (sstep e c) s [] t" "lpc (loader t) = L_add" "os_inv c n t"
    "cpus t = replicate n cpu_start" "dpc (tim t) = (\<lambda>_. D_run)" "ksched (kern t) = ksched (kern s)"
    using first_added [OF assms] by blast
  have sup: "supported t" using t(4) by (auto simp: supported_def cpu_supported_def cpu_start_def)
  obtain k b u where k: "ld_routine e c (current_time (tim t)) (kern t) (done_flag t) (loader t) = Inr (k, b, u)"
    "ostep e c t None (t\<lparr>kern := k, done_flag := b, loader := u\<rparr>)" "os_inv c n (t\<lparr>kern := k, done_flag := b, loader := u\<rparr>)"
    using ld_goes [OF t(3) assms(2,3) sup] t(2,5) by auto
  have pool: "pool (kern t) (pending (loader t)) (ld_own (loader t) + held (cpus t))" "ld_ok c (loader t)"
    using t(3) by (simp_all add: os_inv_def)
  then obtain q where q: "lproc (loader t) = Some q" using t(2) by (auto simp: ld_ok_def)
  then have "pool (kern t) None (add_mset q (held (cpus t)))" using pool(1) t(2) by (simp add: pending_def ld_own_def)
  from pool_add [OF this] obtain pr where pr: "pr < 140" "joined q pr (ksched (kern t)) (ksched k)"
    using k(1) t(2) q by (auto simp: ld_routine_def bindr_eq_Inr_iff)
  then have "level (ksched k) (uint pr) \<noteq> []" by (auto simp: joined_def split: if_splits)
  moreover have "0 \<le> uint pr" "uint pr < 140" using pr(1) by (simp_all add: word_less_def)
  moreover have "execs (sstep e c) s [] (t\<lparr>kern := k, done_flag := b, loader := u\<rparr>)"
    using execs.silent [OF t(1), of "t\<lparr>kern := k, done_flag := b, loader := u\<rparr>"] k(2) sup by (simp add: sstep_def)
  moreover have "\<forall>l \<ge> 0. slots (ksched k) l = slots (ksched (kern s)) l" using pr(2) t(6) by (simp add: joined_def)
  ultimately show ?thesis using t(4,5) k(3)
    by (intro exI [of _ "t\<lparr>kern := k, done_flag := b, loader := u\<rparr>"] exI [of _ "uint pr"]) simp
qed

lemma first_held:
  assumes "os_inv c n s" "clean_env e" "loadable e c" "cpus s = replicate n cpu_start" "dpc (tim s) = (\<lambda>_. D_run)"
    and "loader s = \<lparr>li = 0, lproc = None, lpc = L_start\<rparr>" "now (tim s) = 0" "0 < num_processes c" "starts c ts" "ts ! 0 = 0"
    and "0 < n" "\<forall>l. 0 \<le> l \<and> l < 140 \<longrightarrow> 0 < slots (ksched (kern s)) l"
  shows "\<exists>s' p. execs (sstep e c) s [] s' \<and> length (cpus s') = n \<and> p \<in># own (cpus s' ! 0)"
proof -
  obtain t l where t: "execs (sstep e c) s [] t" "0 \<le> l" "l < 140" "level (ksched (kern t)) l \<noteq> []" "os_inv c n t"
    "cpus t = replicate n cpu_start" "dpc (tim t) = (\<lambda>_. D_run)" "\<forall>l \<ge> 0. slots (ksched (kern t)) l = slots (ksched (kern s)) l"
    using first_waits [OF assms(1-10)] by blast
  have "sched_ok (prio_at (kern t)) (ksched (kern t))" using t(5) by (simp add: os_inv_def pool_def)
  then obtain p sc where p: "get_proc (prio_at (kern t)) (ksched (kern t)) = Inr (Some p, sc)"
  proof (cases rule: get_proc_cases)
    case (reset q s')
    then have "serves (ksched (kern t)) q" using assms(12) t(8) by (simp add: serves_def)
    then show thesis using reset(5) by blast
  qed (use t(2-4) that in blast)+
  let ?k = "kern t\<lparr>ksched := sc\<rparr>" and ?u = "cpu_start\<lparr>cproc := Some p, cpc := C_check\<rparr>"
  have u: "cpus t ! 0 = cpu_start" "0 < length (cpus t)" "length (cpus t) = n" using t(6) assms(11) by simp_all
  have "cpu_routine (time_slot c) (done_flag t) 0 (kern t) (cpus t ! 0) = Inr (?k, ?u)"
    using p u(1) by (simp add: cpu_routine_def cpu_start_def sched_get_def)
  then have "ostep e c t None (set_cpu 0 ?u (t\<lparr>kern := ?k\<rparr>))"
    using u t(7) by (intro ostep.cpu) (simp_all add: cpu_start_def)
  moreover have "supported t" using t(6) by (auto simp: supported_def cpu_supported_def cpu_start_def)
  ultimately have "execs (sstep e c) s [] (set_cpu 0 ?u (t\<lparr>kern := ?k\<rparr>))"
    using execs.silent [OF t(1)] by (simp add: sstep_def)
  moreover have "p \<in># own (cpus (set_cpu 0 ?u (t\<lparr>kern := ?k\<rparr>)) ! 0)"
    using u(2) by (simp add: set_cpu_def own_def cpu_start_def)
  ultimately show ?thesis using u(3) by (intro exI [of _ "set_cpu 0 ?u (t\<lparr>kern := ?k\<rparr>)"] exI [of _ p]) (simp add: set_cpu_def)
qed

end
