(* ===== verification/Isolation.thy ===== *)
theory Isolation
  imports Overlap
begin

text \<open>
  The memory of a process in the running system of \<open>src/os.c\<close>: what the CPUs and the loader do while it
  is not run leaves its address space and the bytes of its pages as they are.
\<close>

section \<open>The memory of one process\<close>

text \<open>\<open>p\<close> keeps its memory descriptor, and its frames keep their bytes.\<close>

definition keeps_view :: "nat \<Rightarrow> kernel \<Rightarrow> kernel \<Rightarrow> bool" where
  "keeps_view p k k' \<longleftrightarrow> (\<forall>x M. procs k p = Some x \<and> p_mm x = Some M \<longrightarrow>
    (\<exists>y. procs k' p = Some y \<and> p_mm y = Some M) \<and>
    (\<forall>f \<in> set (frame_list M). \<forall>a \<in> page_addrs f. phy_read (Some (ram k')) a = phy_read (Some (ram k)) a))"

lemma keeps_view_refl [simp]: "keeps_view p k k"
  by (simp add: keeps_view_def)

lemma keeps_view_trans: "keeps_view p k k' \<Longrightarrow> keeps_view p k' k'' \<Longrightarrow> keeps_view p k k''"
  unfolding keeps_view_def by (metis (no_types, lifting))

lemma keeps_view_same: "procs k' p = procs k p \<Longrightarrow> ram k' = ram k \<Longrightarrow> keeps_view p k k'"
  by (simp add: keeps_view_def)

lemma keeps_view_kprint [simp]:
  "keeps_view p k (kprint f as k') = keeps_view p k k'" "keeps_view p (kprint f as k) k' = keeps_view p k k'"
  by (simp_all add: keeps_view_def kernel_simps)

text \<open>\<open>p\<close> stays alive and executes no instruction.\<close>

definition stays :: "nat \<Rightarrow> kernel \<Rightarrow> kernel \<Rightarrow> bool" where
  "stays p k k' \<longleftrightarrow> (\<forall>x. procs k p = Some x \<longrightarrow> (\<exists>y. procs k' p = Some y \<and> pc y = pc x))"

section \<open>Steps of the threads\<close>

lemma get_keeps_view: "sched_get k = Inr (r, k') \<Longrightarrow> keeps_view p k k'"
  by (auto simp: sched_get_def bindr_eq_Inr_iff intro: keeps_view_same)

lemma link_keeps_view: "link_queues q k = Inr k' \<Longrightarrow> keeps_view p k k'"
  by (auto simp: link_queues_def bindr_eq_Inr_iff pcb_at_def keeps_view_def kernel_simps split: option.splits)

lemma put_keeps_view: "sched_put q k = Inr k' \<Longrightarrow> keeps_view p k k'"
  using link_keeps_view by (fastforce simp: sched_put_def bindr_eq_Inr_iff keeps_view_def)

lemma add_keeps_view: "sched_add q k = Inr k' \<Longrightarrow> keeps_view p k k'"
  using link_keeps_view by (fastforce simp: sched_add_def bindr_eq_Inr_iff keeps_view_def)

lemma free_keeps_view:
  "free_pcb q (kprint f as k) = Inr k' \<Longrightarrow> stays p k k' \<Longrightarrow> keeps_view p k k'"
  by (auto simp: free_pcb_def bindr_eq_Inr_iff stays_def keeps_view_def kernel_simps split: if_splits)

lemma calm_keeps_view:
  assumes "calm q k k'" "q \<noteq> p"
  shows "keeps_view p k k'"
proof -
  have "set (frame_list M) \<subseteq> others_of k q" if "procs k p = Some x" "p_mm x = Some M" for x M
  proof -
    have "holds k p M" using that by (auto simp: holds_def)
    moreover have "p \<noteq> q" using assms(2) by simp
    ultimately have "set (frame_list M) \<in> {set (frame_list N) | q' N. q' \<noteq> q \<and> holds k q' N}" by blast
    then show ?thesis unfolding others_of_def by blast
  qed
  then show ?thesis using assms unfolding calm_def same_but_def keeps_view_def by fastforce
qed

lemma inc_not_same: "(w :: u32) + 1 \<noteq> w"
  by simp

lemma run_keeps_view:
  assumes pool: "pool k fr ps" and q: "q \<in># ps" and x: "procs k q = Some x" "p_mm x = Some M"
    and ins: "pc x < code_size x \<longrightarrow> ins_ok (caller_of x M k) (next_ins x)"
    and run: "run k q = Inr (r, k')" and stays: "stays p k k'"
  shows "keeps_view p k k'"
proof (cases "pc x < code_size x")
  case False
  then show ?thesis using x(1) run by (simp add: run_def not_less pcb_at_def)
next
  case True
  have "code_ok x" "kernel_ok k" using pool_block [OF pool q] x pool by (auto simp: pool_def)
  then have k': "calm q k k'" "\<exists>M'. procs k' q = Some (x\<lparr>pc := pc x + 1, p_mm := Some M'\<rparr>)"
    using run_calm [of k q x M] x True ins run by auto
  then have "q \<noteq> p" using x(1) stays by (auto simp: stays_def)
  then show ?thesis using calm_keeps_view [OF k'(1)] by simp
qed

lemma cpu_keeps_view:
  assumes pool: "pool k fr (own u + ps)" and u: "cpu_ok u" "cpu_supported k u" "cpc u \<notin> {C_slot, C_exit}"
    and step: "cpu_routine qu dn i k u = Inr (k', u')" and stays: "stays p k k'"
  shows "keeps_view p k k'"
proof (cases "cpc u")
  case C_top
  then show ?thesis
    using step get_keeps_view free_keeps_view [OF _ stays]
    by (auto simp: cpu_routine_def bindr_eq_Inr_iff split: option.splits if_splits)
next
  case C_put
  then show ?thesis using step put_keeps_view by (auto simp: cpu_routine_def bindr_eq_Inr_iff split: option.splits)
next
  case C_get
  then show ?thesis using step get_keeps_view by (auto simp: cpu_routine_def bindr_eq_Inr_iff)
next
  case C_check
  then show ?thesis
    using step by (auto simp: cpu_routine_def bindr_eq_Inr_iff split: option.splits if_splits)
next
  case C_run
  then obtain q where q: "cproc u = Some q" using u(1) by (auto simp: cpu_ok_def)
  then have pool1: "pool k fr (add_mset q ps)" using pool C_run by (simp add: own_def)
  have qin: "q \<in># add_mset q ps" by simp
  obtain x M where x: "procs k q = Some x" "p_mm x = Some M" using pool_block [OF pool1 qin] by metis
  have "pc x < code_size x \<longrightarrow> ins_ok (caller_of x M k) (next_ins x)"
    using u(2) C_run q x by (simp add: cpu_supported_def)
  moreover obtain r where "run k q = Inr (r, k')"
    using C_run q step by (auto simp: cpu_routine_def bindr_eq_Inr_iff)
  ultimately show ?thesis using run_keeps_view [OF pool1 qin x] stays by blast
qed (use u(3) in simp_all)

lemma ld_keeps_view:
  assumes pool: "pool k (pending u) (ld_own u + ps)" and u: "ld_ok c u" "lpc u \<notin> {L_wait, L_next, L_exit}"
    and step: "ld_routine e c tm k dn u = Inr (k', dn', u')"
  shows "keeps_view p k k'"
proof (cases "lpc u")
  case L_head
  have "procs k (next_block k) = None" using pool by (simp add: pool_def)
  then show ?thesis
    using L_head step
    by (auto simp: ld_routine_def ld_load_def Let_def bindr_eq_Inr_iff keeps_view_def kernel_simps split: if_splits)
next
  case L_time
  then obtain b where b: "lproc u = Some b" using u(1) by (auto simp: ld_ok_def)
  then have "block_loaded k b" using pool L_time by (simp add: pending_def pool_def)
  then show ?thesis
    using L_time step b
    by (auto simp: ld_routine_def ld_setup_def Let_def bindr_eq_Inr_iff block_loaded_def pcb_at_def keeps_view_def
        kernel_simps split: if_splits)
next
  case L_add
  then show ?thesis using step add_keeps_view by (auto simp: ld_routine_def bindr_eq_Inr_iff split: option.splits)
next
  case L_start
  then show ?thesis using step by (auto simp: ld_routine_def)
qed (use u(2) in simp_all)

section \<open>Runs\<close>

definition idle_step :: "env \<Rightarrow> config \<Rightarrow> nat \<Rightarrow> os \<Rightarrow> event option \<Rightarrow> os \<Rightarrow> bool" where
  "idle_step e c p s l s' \<longleftrightarrow> rstep e c s l s' \<and> stays p (kern s) (kern s')"

lemma step_keeps_view:
  assumes "ostep e c s l s'" "os_inv c n s" "supported s" "stays p (kern s) (kern s')"
  shows "keeps_view p (kern s) (kern s')"
  using assms
proof (induction rule: ostep.induct)
  case (cpu i s k u)
  from cpu_keeps_view [OF cpu_pool [OF cpu.prems(1,2) cpu.hyps(1)] cpu.hyps(3,4)]
  show ?case using cpu.prems(3) by (simp add: set_cpu_def)
next
  case (ld m s k b u)
  then have "pool (kern s) (pending (loader s)) (ld_own (loader s) + held (cpus s))" "ld_ok c (loader s)"
    by (simp_all add: os_inv_def)
  from ld_keeps_view [OF this ld.hyps(3,4)] show ?case by simp
qed (auto simp: set_cpu_def main_join_Some)

lemma idle_run:
  assumes "execs (idle_step e c p) s ls s'" "os_inv c n s" "clean_env e" "loadable e c"
  shows "os_inv c n s' \<and> keeps_view p (kern s) (kern s')"
proof (rule execs_inv [OF assms(1), of "\<lambda>t. os_inv c n t \<and> keeps_view p (kern s) (kern t)"])
  show "os_inv c n s \<and> keeps_view p (kern s) (kern s)" using assms(2) by simp
  fix t l t' assume t: "os_inv c n t \<and> keeps_view p (kern s) (kern t)" "idle_step e c p t l t'"
  then have st: "ostep e c t l t'" "supported t" "stays p (kern t) (kern t')" by (simp_all add: idle_step_def rstep_simps)
  show "os_inv c n t' \<and> keeps_view p (kern s) (kern t')"
    using os_inv_step [OF st(1) _ st(2) assms(3,4)] step_keeps_view [OF st(1) _ st(2,3)] t(1) keeps_view_trans by blast
qed

end
