(* ===== verification/Tame.thy ===== *)
theory Tame
  imports Overlap
begin

text \<open>
  Workloads whose programs only compute, free regions and make system calls other than \<open>memmap\<close> and
  \<open>killall\<close>: their instructions are supported in every state and use no device, so that the whole system
  never leaves the supported runs, and never comes to overlapping uses of a device.
\<close>

section \<open>Tame instructions\<close>

lemma private_same_inst: "same_inst i j \<Longrightarrow> private_ins j \<Longrightarrow> private_ins i"
  by (auto simp: private_ins_def same_inst_def op_args_def)

definition tame_code :: "pcb_t \<Rightarrow> bool" where
  "tame_code x \<longleftrightarrow> (\<forall>j < unat (code_size x). private_ins (acell (code_text x) j))"

definition tame_kernel :: "kernel \<Rightarrow> bool" where
  "tame_kernel k \<longleftrightarrow> (\<forall>p x. procs k p = Some x \<longrightarrow> tame_code x)"

lemma tame_private: "tame_kernel k \<Longrightarrow> private_next k p"
  by (auto simp: tame_kernel_def tame_code_def private_next_def next_ins_def word_less_nat_alt)

lemma tame_supported:
  assumes "tame_kernel (kern s)"
  shows "supported s" "apart s"
  using tame_private [OF assms] private_ins_ok
  by (auto simp: supported_def cpu_supported_def private_next_def apart_def uses_device_def)

section \<open>Steps keep the code and the devices\<close>

text \<open>The devices are the same, and every block of \<open>k'\<close> has the code it had in \<open>k\<close>.\<close>

definition same_code :: "kernel \<Rightarrow> kernel \<Rightarrow> bool" where
  "same_code k k' \<longleftrightarrow> ram k' = ram k \<and> swp k' = swp k \<and> (\<forall>p y. procs k' p = Some y \<longrightarrow>
    (\<exists>x. procs k p = Some x \<and> code_text y = code_text x \<and> code_size y = code_size x))"

lemma same_code_refl [simp]: "same_code k k"
  by (simp add: same_code_def)

lemma same_code_kprint [simp]: "same_code k (kprint f as k') = same_code k k'" "same_code (kprint f as k) k' = same_code k k'"
  by (simp_all add: same_code_def kernel_simps)

lemma same_code_procs: "procs k' = procs k \<Longrightarrow> ram k' = ram k \<Longrightarrow> swp k' = swp k \<Longrightarrow> same_code k k'"
  by (simp add: same_code_def)

lemma tame_same_code: "tame_kernel k \<Longrightarrow> same_code k k' \<Longrightarrow> tame_kernel k'"
  unfolding tame_kernel_def same_code_def tame_code_def by metis

lemma get_same_code: "sched_get k = Inr (r, k') \<Longrightarrow> same_code k k'"
  by (auto simp: sched_get_def bindr_eq_Inr_iff intro: same_code_procs)

lemma put_same_code: "sched_put p k = Inr k' \<Longrightarrow> same_code k k'"
  by (auto simp: sched_put_def link_queues_def pcb_at_def bindr_eq_Inr_iff same_code_def kernel_simps
      split: option.splits if_splits)

lemma add_same_code: "sched_add p k = Inr k' \<Longrightarrow> same_code k k'"
  by (auto simp: sched_add_def link_queues_def pcb_at_def bindr_eq_Inr_iff same_code_def kernel_simps
      split: option.splits if_splits)

lemma free_same_code: "free_pcb p (kprint f as k) = Inr k' \<Longrightarrow> same_code k k'"
  by (auto simp: free_pcb_def bindr_eq_Inr_iff same_code_def kernel_simps split: if_splits)

lemma run_same_code:
  assumes pool: "pool k fr ps" and p: "p \<in># ps" and x: "procs k p = Some x" "p_mm x = Some M"
    and ins: "private_next k p" and run: "run k p = Inr (r, k')"
  shows "same_code k k'"
proof (cases "pc x < code_size x")
  case False
  then show ?thesis using x(1) run by (simp add: run_def not_less pcb_at_def)
next
  case True
  have "code_ok x" "kernel_ok k" using pool_block [OF pool p] x pool by (auto simp: pool_def)
  then obtain M' where "calm p k k'" "procs k' p = Some (x\<lparr>pc := pc x + 1, p_mm := Some M'\<rparr>)"
    using run_calm [of k p x M] x True ins private_ins_ok run by (auto simp: private_next_def)
  then have "procs k' = (procs k)(p \<mapsto> x\<lparr>pc := pc x + 1, p_mm := Some M'\<rparr>)"
    by (auto simp: calm_def same_but_def fun_eq_iff)
  then show ?thesis using x(1) private_run_keeps [OF run ins] by (auto simp: same_code_def)
qed

lemma cpu_same_code:
  assumes pool: "pool k fr (own u + ps)" and u: "cpu_ok u" "\<And>p. private_next k p" "cpc u \<notin> {C_slot, C_exit}"
    and step: "cpu_routine q dn i k u = Inr (k', u')"
  shows "same_code k k'"
proof (cases "cpc u")
  case C_top
  then show ?thesis
    using step get_same_code free_same_code
    by (auto simp: cpu_routine_def bindr_eq_Inr_iff split: option.splits if_splits)
next
  case C_put
  then show ?thesis using step put_same_code by (auto simp: cpu_routine_def bindr_eq_Inr_iff split: option.splits)
next
  case C_get
  then show ?thesis using step get_same_code by (auto simp: cpu_routine_def bindr_eq_Inr_iff)
next
  case C_check
  then show ?thesis
    using step by (auto simp: cpu_routine_def bindr_eq_Inr_iff split: option.splits if_splits)
next
  case C_run
  then obtain p where p: "cproc u = Some p" using u(1) by (auto simp: cpu_ok_def)
  have pin: "p \<in># own u + ps" using C_run p by (simp add: own_def)
  obtain x M where x: "procs k p = Some x" "p_mm x = Some M" using pool_block [OF pool pin] by metis
  show ?thesis
    using run_same_code [OF pool pin x u(2)] C_run p step by (auto simp: cpu_routine_def bindr_eq_Inr_iff)
qed (use u(3) in simp_all)

section \<open>Tame workloads\<close>

text \<open>Every program file the configuration names is tame, and so is what \<open>load\<close> makes of it.\<close>

definition tame_files :: "env \<Rightarrow> (u64 \<times> string \<times> u64) list \<Rightarrow> bool" where
  "tame_files e ps \<longleftrightarrow> (\<forall>(t, w, pr) \<in> set ps. \<exists>lp insts. fs e (''input/proc/'' @ w) = Some (program_text lp insts) \<and>
    length insts < 2 ^ 32 \<and> (\<forall>i \<in> set insts. private_ins i))"

definition loads_tame :: "env \<Rightarrow> config \<Rightarrow> bool" where
  "loads_tame e c \<longleftrightarrow> (\<forall>i pth b n x m. 0 \<le> i \<and> i < num_processes c \<and> path_at c i = Inr pth \<and>
    load (fs e) (raw_pcb e b) (raw_text e b) pth n = Inr (x, m) \<longrightarrow> tame_code x)"

lemma tame_load:
  assumes "fl pth = Some (program_text lp insts)" "length insts < 2 ^ 32" "\<forall>i \<in> set insts. private_ins i"
    and "load fl raw cells pth n = Inr (x, m)"
  shows "tame_code x"
proof -
  have "unat (code_size x) = length insts" "\<forall>j < length insts. same_inst (acell (code_text x) j) (insts ! j)"
    using load_text [of fl pth lp insts raw cells n] assms by auto
  then show ?thesis using assms(3) private_same_inst by (auto simp: tame_code_def)
qed

lemma files_loads_tame:
  assumes "tame_files e ps" "config_says c ts nc mem swps ps"
  shows "loads_tame e c"
  unfolding loads_tame_def
proof (intro allI impI, elim conjE)
  fix i pth b n x m
  assume i: "0 \<le> i" "i < num_processes c" "path_at c i = Inr pth"
    and l: "load (fs e) (raw_pcb e b) (raw_text e b) pth n = Inr (x, m)"
  have j: "nat i < length ps" using i(1,2) assms(2) by (simp add: config_says_def nat_less_iff)
  obtain t w pr where e: "ps ! nat i = (t, w, pr)" by (cases "ps ! nat i")
  have "pth = ''input/proc/'' @ w"
    using i assms(2) j e by (auto simp: path_at_def config_says_def aget_def in_bounds_def bindr_eq_Inr_iff split: if_splits option.splits)
  moreover have "(t, w, pr) \<in> set ps" using j e by (metis nth_mem)
  ultimately obtain lp insts where "fs e pth = Some (program_text lp insts)" "length insts < 2 ^ 32" "\<forall>i \<in> set insts. private_ins i"
    using assms(1) unfolding tame_files_def by fast
  then show "tame_code x" using l by (rule tame_load)
qed

lemma ld_tame:
  assumes "ld_ok c u" "lpc u \<notin> {L_wait, L_next, L_exit}" "ld_routine e c tm k dn u = Inr (k', dn', u')"
    and "loads_tame e c" "tame_kernel k"
  shows "tame_kernel k' \<and> ram k' = ram k \<and> swp k' = swp k"
proof (cases "lpc u")
  case L_head
  show ?thesis
  proof (cases "li u < num_processes c")
    case True
    then obtain pth x n pr where "path_at c (li u) = Inr pth"
      "load (fs e) (raw_pcb e (next_block k)) (raw_text e (next_block k)) pth (avail_pid k) = Inr (x, n)"
      "k' = (set_pcb (next_block k) (x\<lparr>prio := u32_of_u64 pr\<rparr>) k)\<lparr>next_block := Suc (next_block k), avail_pid := n\<rparr>"
      using L_head assms(3) by (auto simp: ld_routine_def ld_load_def Let_def bindr_eq_Inr_iff)
    moreover have "0 \<le> li u" using assms(1) by (simp add: ld_ok_def)
    then have "tame_code x" using calculation(1,2) True assms(4) unfolding loads_tame_def by blast
    ultimately show ?thesis using assms(5) by (auto simp: tame_kernel_def tame_code_def kernel_simps)
  next
    case False
    then show ?thesis using L_head assms(3,5) by (simp add: ld_routine_def)
  qed
next
  case L_time
  then have "same_code k k'"
    using assms(3) by (auto simp: ld_routine_def ld_setup_def pcb_at_def Let_def bindr_eq_Inr_iff same_code_def kernel_simps
        split: if_splits option.splits)
  then show ?thesis using tame_same_code [OF assms(5)] by (simp add: same_code_def)
next
  case L_add
  then have "same_code k k'"
    using assms(3) add_same_code by (auto simp: ld_routine_def bindr_eq_Inr_iff split: option.splits)
  then show ?thesis using tame_same_code [OF assms(5)] by (simp add: same_code_def)
next
  case L_start
  then show ?thesis using assms(3,5) by (auto simp: ld_routine_def tame_kernel_def kernel_simps)
qed (use assms(2) in simp_all)

lemma tame_step:
  assumes "ostep e c s l s'" "os_inv c n s" "loads_tame e c" "tame_kernel (kern s)"
  shows "tame_kernel (kern s') \<and> ram (kern s') = ram (kern s) \<and> swp (kern s') = swp (kern s)"
  using assms
proof (induction rule: ostep.induct)
  case (cpu i s k u)
  note P = cpu_pool [OF cpu.prems(1) tame_supported(1) [OF cpu.prems(3)] cpu.hyps(1)]
  have "same_code (kern s) k"
    by (rule cpu_same_code [OF P(1,2) tame_private [OF cpu.prems(3)] cpu.hyps(3,4)])
  then show ?case using tame_same_code [OF cpu.prems(3)] by (simp add: set_cpu_def same_code_def)
next
  case (ld m s k b u)
  then have "ld_ok c (loader s)" by (simp add: os_inv_def)
  from ld_tame [OF this ld.hyps(3,4) ld.prems(2,3)] show ?case by simp
qed (auto simp: set_cpu_def main_join_Some)

text \<open>
  All runs of a tame workload are runs of supported instructions that leave the devices alone.
\<close>

lemma tame_run:
  assumes "execs (ostep e c) s ls s'" "os_inv c n s" "clean_env e" "loadable e c" "loads_tame e c" "tame_kernel (kern s)"
  shows "execs (rstep e c) s ls s' \<and> os_inv c n s' \<and> tame_kernel (kern s') \<and>
    ram (kern s') = ram (kern s) \<and> swp (kern s') = swp (kern s)"
proof -
  have step: "rstep e c t l u \<and> os_inv c n u \<and> tame_kernel (kern u) \<and> ram (kern u) = ram (kern t) \<and> swp (kern u) = swp (kern t)"
    if "ostep e c t l u" "os_inv c n t" "tame_kernel (kern t)" for t l u
    using that os_inv_step [OF that(1,2) _ assms(3,4)] tame_step [OF that(1,2) assms(5) that(3)]
      tame_supported [OF that(3)] by (simp add: rstep_simps)
  show ?thesis using assms(1,2,6)
  proof (induction rule: execs.induct)
    case (silent s ls s' s'')
    then show ?case using step [OF silent.hyps(2)] execs.silent by metis
  next
    case (event s ls s' ev s'')
    then show ?case using step [OF event.hyps(2)] execs.event by metis
  qed (auto intro: execs.start)
qed

lemma boot_tame:
  assumes "main_boot e args = Inr (c, s)"
  shows "tame_kernel (kern s)"
proof -
  have "procs (kern s) = (\<lambda>_. None)"
    using assms by (auto simp: main_boot_def Let_def bindr_eq_Inr_iff split: list.splits option.splits if_splits)
  then show ?thesis by (simp add: tame_kernel_def)
qed

end
