(* ===== verification/Slice.thy ===== *)
theory Slice
  imports Os
begin

text \<open>
  The time slice: what a CPU does with a process between dispatching it and putting it back. A
  turn is one passage of the loop of \<open>cpu_routine\<close> up to \<open>next_slot\<close> or the exit; it takes at most
  five steps. Other threads do not interfere here.
\<close>

section \<open>Turns\<close>

fun cpu_steps :: "int \<Rightarrow> int \<Rightarrow> nat \<Rightarrow> nat \<Rightarrow> kernel \<Rightarrow> cpu \<Rightarrow> (kernel \<times> cpu) res" where
  "cpu_steps q dn i 0 k u = Inr (k, u)"
| "cpu_steps q dn i (Suc n) k u =
     (if cpc u = C_slot \<or> cpc u = C_exit then Inr (k, u)
      else bindr (cpu_routine q dn i k u) (\<lambda>(k, u). cpu_steps q dn i n k u))"

text \<open>\<open>next_slot\<close> returns to the head of the loop.\<close>

fun cpu_turns :: "int \<Rightarrow> int \<Rightarrow> nat \<Rightarrow> nat \<Rightarrow> kernel \<Rightarrow> cpu \<Rightarrow> (kernel \<times> cpu) res" where
  "cpu_turns q dn i 0 k u = Inr (k, u)"
| "cpu_turns q dn i (Suc n) k u =
     bindr (cpu_steps q dn i 5 k u) (\<lambda>(k, u). cpu_turns q dn i n k (u\<lparr>cpc := C_top\<rparr>))"

text \<open>The instructions of a process, one after the other.\<close>

fun run_n :: "nat \<Rightarrow> kernel \<Rightarrow> nat \<Rightarrow> kernel res" where
  "run_n 0 k p = Inr k"
| "run_n (Suc n) k p = bindr (run k p) (\<lambda>(_, k). run_n n k p)"

definition unfinished :: "kernel \<Rightarrow> nat \<Rightarrow> bool" where
  "unfinished k p \<longleftrightarrow> (\<exists>x. procs k p = Some x \<and> pc x \<noteq> code_size x)"

lemma turn_running:
  assumes "cpc u = C_top" "cproc u = Some p" "unfinished k p" "0 < time_left u" "time_left u < 2 ^ 31"
  shows "cpu_steps q dn i 5 k u =
    bindr (run k p) (\<lambda>(_, k). Inr (k, u\<lparr>time_left := time_left u - 1, cpc := C_slot\<rparr>))"
proof -
  obtain x where x: "procs k p = Some x" "pc x \<noteq> code_size x" using assms(3) by (auto simp: unfinished_def)
  have i: "i32 (time_left u - 1) = time_left u - 1" using assms(4,5) by (intro i32_small) simp_all
  show ?thesis
    using assms x i
    by (cases "run k p") (simp_all add: eval_nat_numeral cpu_routine_def pcb_at_def split: prod.splits)
qed

lemma turns_running:
  assumes "cpc u = C_top" "cproc u = Some p" "int n \<le> time_left u" "time_left u < 2 ^ 31"
    and "\<forall>m < n. \<exists>k'. run_n m k p = Inr k' \<and> unfinished k' p" "run_n n k p = Inr kn"
  shows "cpu_turns q dn i n k u = Inr (kn, u\<lparr>time_left := time_left u - int n\<rparr>)"
  using assms
proof (induction n arbitrary: k u)
  case 0
  then show ?case by simp
next
  case (Suc n)
  have "unfinished k p" using Suc.prems(5) by force
  moreover have pos: "0 < time_left u" using Suc.prems(3) by simp
  ultimately have turn: "cpu_steps q dn i 5 k u =
      bindr (run k p) (\<lambda>(_, k). Inr (k, u\<lparr>time_left := time_left u - 1, cpc := C_slot\<rparr>))"
    using Suc.prems by (intro turn_running) simp_all
  obtain r k1 where k1: "run k p = Inr (r, k1)" "run_n n k1 p = Inr kn"
    using Suc.prems(6) by (auto simp: bindr_eq_Inr_iff)
  have "\<exists>k'. run_n m k1 p = Inr k' \<and> unfinished k' p" if "m < n" for m
    using Suc.prems(5) [rule_format, of "Suc m"] that k1(1) by simp
  then have "cpu_turns q dn i n k1 (u\<lparr>time_left := time_left u - 1, cpc := C_top\<rparr>) =
      Inr (kn, u\<lparr>time_left := time_left u - 1 - int n, cpc := C_top\<rparr>)"
    using Suc.IH [of "u\<lparr>time_left := time_left u - 1, cpc := C_top\<rparr>" k1] Suc.prems(2-4) k1(2) by simp
  moreover have "u\<lparr>time_left := time_left u - 1 - int n, cpc := C_top\<rparr> = u\<lparr>time_left := time_left u - int (Suc n)\<rparr>"
    using Suc.prems(1) by simp
  ultimately show ?case using turn k1(1) by simp
qed

section \<open>Properties\<close>

lemma calc_program:
  assumes "procs k p = Some x" "code_text x = array_of is" "code_size x = of_nat (length is)" "length is < 2 ^ 32"
    "\<forall>ins \<in> set is. opcode ins = CALC" "unat (pc x) < length is"
  shows "run k p = Inr (1, set_pcb p (x\<lparr>pc := pc x + 1\<rparr>) k)"
proof -
  have "unat (code_size x) = length is" using assms(3,4) by (simp add: unsigned_of_nat take_bit_nat_eq_self)
  then have "\<not> code_size x \<le> pc x" using assms(6) by (simp add: word_le_nat_alt)
  moreover have "uint (pc x) < int (length is)" using assms(6) by (metis of_nat_less_iff uint_int_unat)
  then have "aget (code_text x) (uint (pc x)) = Inr (is ! unat (pc x))"
    using assms(2,6) by (simp add: aget_def in_bounds_def array_of_def)
  moreover have "opcode (is ! unat (pc x)) = CALC" using assms(5,6) by simp
  ultimately show ?thesis using assms(1) by (simp add: run_def exec_ins_def pcb_at_def)
qed

text \<open>
  C13: the time slice. A CPU that dispatches a process whose next \<open>time_slot\<close> instructions succeed
  and do not finish it runs exactly these instructions, one per slot, and in the slot after them
  reports that it puts the process back and goes on to \<open>put_proc\<close>.
\<close>

theorem time_slice:
  assumes "cpc u = C_check" "cproc u = Some p" "time_left u = 0" "procs k p = Some x"
    and "0 < q" "q < 2 ^ 31"
    and "\<forall>m \<le> nat q. \<exists>k'. run_n m (kprint F_cpu_dispatched [AI (int i), AU (p_pid x)] k) p = Inr k' \<and> unfinished k' p"
  shows "\<exists>kq y. run_n (nat q) (kprint F_cpu_dispatched [AI (int i), AU (p_pid x)] k) p = Inr kq \<and>
    procs kq p = Some y \<and> cpu_turns q dn i (nat q) k u = Inr (kq, u\<lparr>cpc := C_top\<rparr>) \<and>
    cpu_routine q dn i kq (u\<lparr>cpc := C_top\<rparr>) =
      Inr (kprint F_cpu_put [AI (int i), AU (p_pid y)] kq, u\<lparr>cpc := C_put\<rparr>)"
proof -
  let ?k = "kprint F_cpu_dispatched [AI (int i), AU (p_pid x)] k"
  obtain n where n: "nat q = Suc n" using assms(5) by (cases "nat q") simp_all
  have qn: "q = 1 + int n" using n assms(5) by simp
  obtain kq y where kq: "run_n (Suc n) ?k p = Inr kq" "procs kq p = Some y" "pc y \<noteq> code_size y"
    using assms(7) n by (auto simp: unfinished_def)
  obtain r k1 where k1: "run ?k p = Inr (r, k1)" "run_n n k1 p = Inr kq"
    using kq(1) by (auto simp: bindr_eq_Inr_iff)
  have i32: "i32 (q - 1) = int n" using assms(6) qn by (simp add: i32_small)
  have first: "cpu_steps q dn i 5 k u = Inr (k1, u\<lparr>time_left := int n, cpc := C_slot\<rparr>)"
    using assms(1-5) k1(1) i32 by (simp add: eval_nat_numeral cpu_routine_def pcb_at_def)
  have rest: "\<exists>k'. run_n m k1 p = Inr k' \<and> unfinished k' p" if "m < n" for m
    using assms(7) [rule_format, of "Suc m"] that n k1(1) by simp
  have "cpu_turns q dn i n k1 (u\<lparr>time_left := int n, cpc := C_top\<rparr>) = Inr (kq, u\<lparr>time_left := 0, cpc := C_top\<rparr>)"
    using turns_running [of "u\<lparr>time_left := int n, cpc := C_top\<rparr>" p n k1 kq] rest k1(2) assms(2,6) qn by simp
  then have "cpu_turns q dn i (Suc n) k u = Inr (kq, u\<lparr>time_left := 0, cpc := C_top\<rparr>)" using first by simp
  moreover have "u\<lparr>time_left := 0, cpc := C_top\<rparr> = u\<lparr>cpc := C_top\<rparr>" using assms(3) by simp
  ultimately show ?thesis
    using kq assms(2,3) unfolding n by (simp add: cpu_routine_def pcb_at_def)
qed

definition calc3 :: "inst_t list" where
  "calc3 = replicate 3 (blank_inst\<lparr>opcode := CALC\<rparr>)"

theorem time_slice_witness:
  "\<exists>kq y. cpu_turns 2 0 0 2 (two_procs (\<lambda>_. 0) calc3) \<lparr>cproc = Some 0, time_left = 0, cpc = C_check\<rparr>
      = Inr (kq, \<lparr>cproc = Some 0, time_left = 0, cpc = C_top\<rparr>) \<and> procs kq 0 = Some y \<and> pc y = 2"
proof -
  let ?u = "\<lparr>cproc = Some 0, time_left = 0, cpc = C_check\<rparr>"
  let ?k = "two_procs (\<lambda>_. 0) calc3" and ?x = "pcb_page 0 calc3"
  let ?d = "kprint F_cpu_dispatched [AI 0, AU (p_pid ?x)] ?k"
  have x: "procs ?k 0 = Some ?x" by (simp add: two_procs_def)
  have code: "code_text ?x = array_of calc3" "code_size ?x = of_nat (length calc3)" "pc ?x = 0"
    by (simp_all add: pcb_page_def blank_pcb_def)
  have calc: "length calc3 = 3" "\<forall>ins \<in> set calc3. opcode ins = CALC" by (simp_all add: calc3_def)
  let ?x1 = "?x\<lparr>pc := 1\<rparr>" and ?x2 = "?x\<lparr>pc := 2\<rparr>"
  let ?k1 = "set_pcb 0 ?x1 ?d"
  have r1: "run ?d 0 = Inr (1, ?k1)"
    using calc_program [of ?d 0 ?x calc3] x code calc by (simp add: kernel_simps)
  have r2: "run ?k1 0 = Inr (1, set_pcb 0 ?x2 ?k1)"
    using calc_program [of ?k1 0 ?x1 calc3] x code calc by (simp add: kernel_simps)
  have runs: "\<exists>k'. run_n m ?d 0 = Inr k' \<and> unfinished k' 0" if "m \<le> nat 2" for m
  proof -
    from that consider "m = 0" | "m = Suc 0" | "m = Suc (Suc 0)" by force
    then show ?thesis using r1 r2 x code calc by cases (auto simp: unfinished_def kernel_simps)
  qed
  have "run_n (nat 2) ?d 0 = Inr (set_pcb 0 ?x2 ?k1)" using r1 r2 by (simp add: eval_nat_numeral)
  then show ?thesis
    using time_slice [of ?u 0 ?k ?x 2 0 0] x runs by (auto simp: kernel_simps)
qed

end
