(* ===== verification/LegacyMem.thy ===== *)
theory LegacyMem
  imports Loader
begin

text \<open>
  The segmented memory the paging replaced, \<open>src/mem.c\<close> with the constants of
  \<open>include/common.h\<close>, and the instructions of \<open>src/cpu.c\<close> that used it: code that is compiled but
  not called. Its bodies are stubs; the model is what they do.
\<close>

section \<open>State\<close>

definition ADDRESS_SIZE :: nat where "ADDRESS_SIZE = 20"
definition OFFSET_LEN :: nat where "OFFSET_LEN = 10"
definition SECOND_LV_LEN :: nat where "SECOND_LV_LEN = 5"
definition PAGE_LEN :: nat where "PAGE_LEN = SECOND_LV_LEN"
definition NUM_PAGES :: int where "NUM_PAGES = 2 ^ (ADDRESS_SIZE - OFFSET_LEN)"
definition PAGE_SIZE :: int where "PAGE_SIZE = 2 ^ OFFSET_LEN"
definition RAM_SIZE :: int where "RAM_SIZE = 2 ^ ADDRESS_SIZE"

lemmas legacy_consts = ADDRESS_SIZE_def OFFSET_LEN_def SECOND_LV_LEN_def PAGE_LEN_def NUM_PAGES_def
  PAGE_SIZE_def RAM_SIZE_def

record page_stat =
  st_proc :: u32
  st_index :: int
  st_next :: int

record legacy =
  ram_cells :: "BYTE carray"
  mem_stat :: "page_stat carray"

text \<open>The rows of the tables of the second and of the first layer; \<open>None\<close> is NULL.\<close>

record trans_row =
  v_index :: addr_t
  p_index :: addr_t

record trans_table_t =
  t_rows :: "trans_row carray"
  t_size :: int

record page_table_t =
  seg_rows :: "(addr_t \<times> trans_table_t option) carray"
  seg_size :: int

section \<open>Operations\<close>

definition init_mem :: "legacy \<Rightarrow> legacy" where
  "init_mem s = s\<lparr>mem_stat := CArray (nat NUM_PAGES) (\<lambda>_. \<lparr>st_proc = 0, st_index = 0, st_next = 0\<rparr>),
     ram_cells := CArray (nat RAM_SIZE) (\<lambda>_. 0)\<rparr>"

definition get_offset :: "addr_t \<Rightarrow> addr_t" where
  "get_offset addr = addr AND NOT (push_bit OFFSET_LEN (NOT 0))"

definition get_first_lv :: "addr_t \<Rightarrow> addr_t" where
  "get_first_lv addr = drop_bit (OFFSET_LEN + PAGE_LEN) addr"

definition get_second_lv :: "addr_t \<Rightarrow> addr_t" where
  "get_second_lv addr = drop_bit OFFSET_LEN addr - push_bit PAGE_LEN (get_first_lv addr)"

definition get_trans_table :: "addr_t \<Rightarrow> page_table_t option \<Rightarrow> trans_table_t option res" where
  "get_trans_table index page_table = (case page_table of
      None \<Rightarrow> Inl NullDeref
    | Some pt \<Rightarrow> bindr (for_loop 0 (seg_size pt) (\<lambda>i u. Inr u) ()) (\<lambda>_. Inr None))"

text \<open>The physical address is an output the code never sets.\<close>

definition translate :: "addr_t \<Rightarrow> page_table_t option \<Rightarrow> int res" where
  "translate virtual_addr pt =
    bindr (get_trans_table (get_first_lv virtual_addr) pt) (\<lambda>t.
    case t of
      None \<Rightarrow> Inr 0
    | Some tt \<Rightarrow>
        bindr (find_loop 0 (t_size tt) (\<lambda>i.
          bindr (aget (t_rows tt) i) (\<lambda>row. Inr (v_index row = get_second_lv virtual_addr)))) (\<lambda>found.
        Inr (case found of Some _ \<Rightarrow> 1 | None \<Rightarrow> 0)))"

definition alloc_mem :: "u32 \<Rightarrow> pcb_t \<Rightarrow> addr_t \<times> pcb_t" where
  "alloc_mem sz pcb =
    (let num_pages = (if sz mod u32_of_int PAGE_SIZE \<noteq> 0 then sz div u32_of_int PAGE_SIZE
                      else sz div u32_of_int PAGE_SIZE + 1);
         mem_avail = (0 :: int)
     in if mem_avail \<noteq> 0
        then (bp pcb, pcb\<lparr>bp := bp pcb + num_pages * u32_of_int PAGE_SIZE\<rparr>)
        else (0, pcb))"

definition free_mem :: "addr_t \<Rightarrow> pcb_t \<Rightarrow> int" where
  "free_mem address pcb = 0"

definition read_mem :: "addr_t \<Rightarrow> page_table_t option \<Rightarrow> (int \<times> BYTE option) res" where
  "read_mem address pt =
    bindr (translate address pt) (\<lambda>r. if r \<noteq> 0 then Inl UninitRead else Inr (1, None))"

definition write_mem :: "addr_t \<Rightarrow> page_table_t option \<Rightarrow> BYTE \<Rightarrow> legacy \<Rightarrow> (int \<times> legacy) res" where
  "write_mem address pt data s =
    bindr (translate address pt) (\<lambda>r. if r \<noteq> 0 then Inl UninitRead else Inr (1, s))"

text \<open>The inner loop of \<open>dump\<close> ends one byte before the end of the page.\<close>

definition dump :: "legacy \<Rightarrow> log \<Rightarrow> log res" where
  "dump s out = for_loop 0 NUM_PAGES (\<lambda>i out.
    bindr (aget (mem_stat s) i) (\<lambda>st.
    if st_proc st = 0 then Inr out
    else
      (let lo = i * PAGE_SIZE; hi = (i + 1) * PAGE_SIZE - 1 in
       for_loop lo hi (\<lambda>j out.
         bindr (aget (ram_cells s) j) (\<lambda>b.
         Inr (if b \<noteq> 0 then out @ [Line F_page_byte [AI j, AI (int_of_byte b)]] else out)))
         (out @ [Line F_page_index [AI i],
                 Line F_page_stat [AI lo, AI hi, AU (st_proc st), AI (st_index st), AI (st_next st)]])))) out"

section \<open>The instructions of the other configuration\<close>

definition alloc :: "pcb_t \<Rightarrow> u32 \<Rightarrow> u32 \<Rightarrow> (int \<times> pcb_t) res" where
  "alloc pcb sz reg_index =
    (case alloc_mem sz pcb of (addr, pcb) \<Rightarrow>
      if addr = 0 then Inr (1, pcb)
      else bindr (aset (regs pcb) (uint reg_index) addr) (\<lambda>rs. Inr (0, pcb\<lparr>regs := rs\<rparr>)))"

definition free_data :: "pcb_t \<Rightarrow> u32 \<Rightarrow> int res" where
  "free_data pcb reg_index = bindr (aget (regs pcb) (uint reg_index)) (\<lambda>a. Inr (free_mem a pcb))"

definition cpu_read :: "pcb_t \<Rightarrow> page_table_t option \<Rightarrow> u32 \<Rightarrow> u32 \<Rightarrow> u32 \<Rightarrow> (int \<times> pcb_t) res" where
  "cpu_read pcb pt source offset destination =
    bindr (aget (regs pcb) (uint source)) (\<lambda>a.
    bindr (read_mem (a + offset) pt) (\<lambda>(r, data).
    if r \<noteq> 0 then
      (case data of
         None \<Rightarrow> Inl UninitRead
       | Some b \<Rightarrow> bindr (aset (regs pcb) (uint destination) (u32_of_byte b)) (\<lambda>rs. Inr (0, pcb\<lparr>regs := rs\<rparr>)))
    else Inr (1, pcb)))"

definition cpu_write ::
    "pcb_t \<Rightarrow> page_table_t option \<Rightarrow> BYTE \<Rightarrow> u32 \<Rightarrow> u32 \<Rightarrow> legacy \<Rightarrow> (int \<times> legacy) res" where
  "cpu_write pcb pt data destination offset s =
    bindr (aget (regs pcb) (uint destination)) (\<lambda>a. write_mem (a + offset) pt data s)"

section \<open>Addresses\<close>

lemma for_loop_skip: "for_loop lo hi (\<lambda>i u. Inr u) s = Inr s"
proof (induction lo hi "\<lambda>i :: int. \<lambda>u :: 'a. Inr u :: 'a res" s rule: for_loop.induct)
  case (1 lo hi s)
  then show ?case by (cases "lo < hi") (simp_all add: for_loop_step)
qed

lemma translate_fails: "translate a (Some pt) = Inr 0"
  by (simp add: translate_def get_trans_table_def for_loop_skip)

text \<open>The test of \<open>read_mem\<close>'s code in \<open>read\<close> is inverted: a failed access is taken for success.\<close>

lemma cpu_read_uninit:
  assumes "in_bounds (regs pcb) (uint source)"
  shows "cpu_read pcb (Some pt) source offset destination = Inl UninitRead"
  using assms by (simp add: cpu_read_def aget_in read_mem_def translate_fails)

text \<open>
  The three parts of a segmented address are in range and give the address back: the offset
  has \<open>OFFSET_LEN\<close> bits, the index of the second layer \<open>SECOND_LV_LEN\<close> bits, and the difference
  in \<open>get_second_lv\<close> does not wrap.
\<close>

theorem legacy_address_split:
  "uint (get_offset a) < PAGE_SIZE \<and> uint (get_second_lv a) < 2 ^ SECOND_LV_LEN \<and>
   uint a = uint (get_first_lv a) * 2 ^ (OFFSET_LEN + PAGE_LEN) + uint (get_second_lv a) * 2 ^ OFFSET_LEN
     + uint (get_offset a)"
proof -
  let ?n = "uint a"
  have off: "uint (get_offset a) = ?n mod 1024"
  proof -
    have "get_offset a = take_bit 10 a"
      by (rule bit_word_eqI) (auto simp: get_offset_def OFFSET_LEN_def bit_simps)
    then have "uint (get_offset a) = take_bit 10 (uint a)" by (simp only: unsigned_take_bit_eq)
    then show ?thesis by (simp add: take_bit_eq_mod)
  qed
  have fst: "uint (get_first_lv a) = ?n div 32768"
  proof -
    have "get_first_lv a = drop_bit 15 a" by (simp add: get_first_lv_def legacy_consts)
    then show ?thesis by (simp add: drop_bit_eq_div uint_div_distrib)
  qed
  have "get_second_lv a = take_bit 5 (drop_bit 10 a)"
  proof -
    have "drop_bit 10 a = take_bit 5 (drop_bit 10 a) + push_bit 5 (drop_bit 15 a)"
      using bits_ident [of 5 "drop_bit 10 a"] by (simp add: add.commute)
    then have "drop_bit 10 a - push_bit 5 (drop_bit 15 a) = take_bit 5 (drop_bit 10 a)"
      by (metis add_diff_cancel_right')
    moreover have "get_second_lv a = drop_bit 10 a - push_bit 5 (drop_bit 15 a)"
      by (simp only: get_second_lv_def get_first_lv_def legacy_consts) simp
    ultimately show ?thesis by simp
  qed
  then have "uint (get_second_lv a) = take_bit 5 (uint (drop_bit 10 a))"
    by (simp only: unsigned_take_bit_eq)
  then have snd: "uint (get_second_lv a) = ?n div 1024 mod 32"
    by (simp add: take_bit_eq_mod drop_bit_eq_div uint_div_distrib)
  have "?n = ?n div 1024 * 1024 + ?n mod 1024"
    "?n div 1024 = ?n div 1024 div 32 * 32 + ?n div 1024 mod 32" by simp_all
  moreover have "?n div 1024 div 32 = ?n div 32768" by simp
  ultimately have "?n = ?n div 32768 * 32768 + ?n div 1024 mod 32 * 1024 + ?n mod 1024" by linarith
  moreover have "?n mod 1024 < 1024" "?n div 1024 mod 32 < 32" by simp_all
  moreover have "PAGE_SIZE = 1024" "(2 :: int) ^ SECOND_LV_LEN = 32" "(2 :: int) ^ OFFSET_LEN = 1024"
    "(2 :: int) ^ (OFFSET_LEN + PAGE_LEN) = 32768" by (simp_all add: legacy_consts)
  ultimately show ?thesis unfolding off fst snd by metis
qed

end
