(* ===== verification/Paging.thy ===== *)
theory Paging
  imports Cpu LegacyMem
begin

text \<open>
  The old driver \<open>src/paging.c\<close>: it loads one program twice, runs the two processes in turn and
  dumps the segmented memory. The Makefile does not build it. Block 0 is \<open>ld\<close>, block 1 is \<open>proc\<close>;
  what \<open>malloc\<close> holds is a parameter, as in the main program.
\<close>

definition paging_load ::
    "(string \<Rightarrow> string option) \<Rightarrow> (nat \<Rightarrow> pcb_t) \<Rightarrow> (nat \<Rightarrow> nat \<Rightarrow> inst_t) \<Rightarrow> nat \<Rightarrow> kernel \<Rightarrow> kernel res" where
  "paging_load fs raw raw_text b k =
    bindr (load fs (raw b) (raw_text b) ''input/p0'' (avail_pid k)) (\<lambda>(x, n).
    Inr ((set_pcb b x k)\<lparr>avail_pid := n\<rparr>))"

text \<open>No instruction changes \<open>proc->code->size\<close>, the bound of the loop.\<close>

definition paging_main ::
    "(string \<Rightarrow> string option) \<Rightarrow> (nat \<Rightarrow> pcb_t) \<Rightarrow> (nat \<Rightarrow> nat \<Rightarrow> inst_t) \<Rightarrow> kernel \<Rightarrow> legacy \<Rightarrow> (int \<times> log \<times> kernel) res" where
  "paging_main fs raw raw_text k mem =
    bindr (paging_load fs raw raw_text 0 k) (\<lambda>k.
    bindr (paging_load fs raw raw_text 1 k) (\<lambda>k.
    bindr (pcb_at k 1) (\<lambda>x.
    bindr (for_loop 0 (uint (code_size x)) (\<lambda>i k.
      bindr (run k 1) (\<lambda>(_, k).
      bindr (run k 0) (\<lambda>(_, k). Inr k))) k) (\<lambda>k.
    bindr (dump mem (kout k)) (\<lambda>out. Inr (0, out, k))))))"

lemma paging_no_file: "fs ''input/p0'' = None \<Longrightarrow> paging_main fs raw raw_text k mem = Inl (ProcExit 1)"
  by (simp add: paging_main_def paging_load_def load_def Let_def)

text \<open>
  The driver gives its processes no memory descriptor: an instruction that needs one uses the
  pointer \<open>malloc\<close> left in the block.
\<close>

lemma paging_wild:
  assumes "procs k p = Some x" "p_mm x = None" "code_ok x" "pc x < code_size x"
    and "opcode (next_ins x) \<in> {ALLOC, FREE, READ, WRITE}"
  shows "run k p = Inl WildDeref"
  using assms(1,2,5) run_fetch [OF assms(1,3,4)]
  by (auto simp: run_def exec_ins_def as_caller_def pcb_at_def kernel_simps)

end
