(* ===== verification/Debug.thy ===== *)
theory Debug
  imports Vmspace
begin

text \<open>
  The functions of \<open>src/mm.c\<close> that print the linked lists of the memory manager. They follow the
  list to its NULL; on an empty list they return -1.
\<close>

fun print_fps :: "int chain \<Rightarrow> log \<Rightarrow> log res" where
  "print_fps Null out = Inr out"
| "print_fps Wild out = Inl WildDeref"
| "print_fps (Node fpn fp_next) out = print_fps fp_next (out @ [Line F_fp_item [AI fpn]])"

definition print_list_fp :: "int chain \<Rightarrow> log \<Rightarrow> (int \<times> log) res" where
  "print_list_fp ifp out =
    (let out = out @ [Line F_list_fp []] in
     if ifp = Null then Inr (-1, out @ [Line F_null_list []])
     else bindr (print_fps ifp (out @ [Line F_newline []])) (\<lambda>out. Inr (0, out @ [Line F_newline []])))"

fun print_rgs :: "vm_rg_struct chain \<Rightarrow> log \<Rightarrow> log res" where
  "print_rgs Null out = Inr out"
| "print_rgs Wild out = Inl WildDeref"
| "print_rgs (Node r rg_next) out =
     print_rgs rg_next (out @ [Line F_rg_item [AL (rg_start r), AL (rg_end r)]])"

definition print_list_rg :: "vm_rg_struct chain \<Rightarrow> log \<Rightarrow> (int \<times> log) res" where
  "print_list_rg irg out =
    (let out = out @ [Line F_list_rg []] in
     if irg = Null then Inr (-1, out @ [Line F_null_list []])
     else bindr (print_rgs irg (out @ [Line F_newline []])) (\<lambda>out. Inr (0, out @ [Line F_newline []])))"

fun print_vmas :: "vm_area_struct chain \<Rightarrow> log \<Rightarrow> log res" where
  "print_vmas Null out = Inr out"
| "print_vmas Wild out = Inl WildDeref"
| "print_vmas (Node v vm_next) out =
     print_vmas vm_next (out @ [Line F_va_item [AL (vm_start v), AL (vm_end v)]])"

definition print_list_vma :: "vm_area_struct chain \<Rightarrow> log \<Rightarrow> (int \<times> log) res" where
  "print_list_vma ivma out =
    (let out = out @ [Line F_list_vma []] in
     if ivma = Null then Inr (-1, out @ [Line F_null_list []])
     else bindr (print_vmas ivma (out @ [Line F_newline []])) (\<lambda>out. Inr (0, out @ [Line F_newline []])))"

text \<open>The last \<open>printf\<close> of \<open>print_list_pgn\<close> prints the letter n; the others print a newline.\<close>

fun print_pgns :: "int chain \<Rightarrow> log \<Rightarrow> log res" where
  "print_pgns Null out = Inr out"
| "print_pgns Wild out = Inl WildDeref"
| "print_pgns (Node pgn pg_next) out = print_pgns pg_next (out @ [Line F_pgn_item [AI pgn]])"

definition print_list_pgn :: "int chain \<Rightarrow> log \<Rightarrow> (int \<times> log) res" where
  "print_list_pgn ip out =
    (let out = out @ [Line F_list_pgn []] in
     if ip = Null then Inr (-1, out @ [Line F_null_list []])
     else bindr (print_pgns ip (out @ [Line F_newline []])) (\<lambda>out. Inr (0, out @ [Line F_letter_n []])))"

lemma print_fps_chain: "print_fps (chain_of xs) out = Inr (out @ map (\<lambda>f. Line F_fp_item [AI f]) xs)"
  by (induction xs arbitrary: out) simp_all

lemma print_rgs_chain:
  "print_rgs (chain_of xs) out = Inr (out @ map (\<lambda>r. Line F_rg_item [AL (rg_start r), AL (rg_end r)]) xs)"
  by (induction xs arbitrary: out) simp_all

lemma print_pgns_chain: "print_pgns (chain_of xs) out = Inr (out @ map (\<lambda>p. Line F_pgn_item [AI p]) xs)"
  by (induction xs arbitrary: out) simp_all

text \<open>On the device's own free list \<open>print_list_fp\<close> shows exactly the free frames in order.\<close>

lemma print_list_fp_frames:
  assumes "frames_ok (Some m)" "frames (Some m) \<noteq> []"
  shows "print_list_fp (free_fp_list m) out = Inr (0, out @ Line F_list_fp [] # Line F_newline [] #
    map (\<lambda>f. Line F_fp_item [AI f]) (frames (Some m)) @ [Line F_newline []])"
proof -
  have "free_fp_list m = chain_of (frames (Some m))"
    using assms(1) by (simp add: frames_def frames_ok_def chain_of_nodes)
  moreover have "chain_of (frames (Some m)) \<noteq> Null" using assms(2) by (cases "frames (Some m)") simp_all
  ultimately show ?thesis using print_fps_chain [of "frames (Some m)"] by (simp add: print_list_fp_def)
qed

end
