(* ===== verification/Spec2Isabelle.thy ===== *)
theory Spec2Isabelle
  imports Killall Memmap SingleQueue Completion Arrival Isolation Tame Slice Paging Debug
begin

text \<open>
  A verification of the operating system simulator under \<open>src/\<close> (C, configured by
  \<open>include/os-cfg.h\<close>: \<open>MLQ_SCHED\<close>, \<open>MM_PAGING\<close>, \<open>IODUMP\<close>, \<open>PAGETBL_DUMP\<close>).

  The program. \<open>main\<close> (\<open>src/os.c\<close>) reads a configuration, creates RAM and four swap devices, and
  starts one thread per simulated CPU, a loader thread and a timer thread. The loader
  (\<open>ld_routine\<close>) reads program files (\<open>src/loader.c\<close>) and puts each process on the ready queue of
  its priority (\<open>src/sched.c\<close>, \<open>src/queue.c\<close>) when its start time has come. A CPU
  (\<open>cpu_routine\<close>) takes a process, runs one instruction per time slot (\<open>src/cpu.c\<close>) and puts the
  process back after its time slice; the timer (\<open>src/timer.c\<close>) makes all threads advance slot by
  slot. Instructions allocate, free, read and write bytes through the memory library
  (\<open>src/libmem.c\<close>) or make a system call (\<open>src/libstd.c\<close>, \<open>src/syscall.c\<close>, \<open>src/sys_*.c\<close>). The
  library keeps free regions and symbols of a process, asks through a system call for more
  address space (\<open>src/mm-vm.c\<close>), whose pages are mapped to frames (\<open>src/mm.c\<close>) of a physical
  device (\<open>src/mm-memphy.c\<close>).

  Theories, in the order of the dependences.
  \<^item> \<open>Prelude\<close>: machine integers, faults, bounds-checked arrays, linked chains, loops. \<open>Console\<close>:
    the log of \<open>printf\<close> calls. \<open>Simulation\<close>: labelled steps and refinement, as a locale.
  \<^item> \<open>Bitops\<close>, \<open>Pte\<close>: \<open>include/bitops.h\<close> and the macros of \<open>include/mm.h\<close>, and the setters of page
    table entries; round trips, ranges, agreement of \<open>init_pte\<close> with the setters.
  \<^item> \<open>Memphy\<close>: the devices; read over write, the frame pool. \<open>Race\<close>: two CPUs inside
    \<open>MEMPHY_get_freefp\<close> at once, statement by statement. \<open>Fifo\<close>: queue interface as a locale.
  \<^item> \<open>Vmspace\<close>: memory descriptors, page mapping, page copy, choice of the victim; \<open>mm_ok\<close> is the
    well-formedness of a descriptor. \<open>Debug\<close>: the list printers of \<open>src/mm.c\<close>.
  \<^item> \<open>Sysmem\<close>, \<open>Libmem\<close>: the memory system call and the memory library. \<open>Heap\<close>: \<open>heap_inv\<close>, the
    regions of a process are disjoint and lie below the break, kept by \<open>__alloc\<close> and \<open>__free\<close>.
    \<open>Vmem\<close>: virtual bytes, read over write through the page table, isolation. \<open>Libcalls\<close>: the
    library calls as steps that keep all of this.
  \<^item> \<open>Queue\<close>, \<open>Sched\<close>: queues as an instance of the queue interface; the multi-level scheduler with
    its slot budgets. \<open>Fairness\<close>: a bound on how long a ready process waits. \<open>SingleQueue\<close>: the
    scheduler of the configuration without \<open>MLQ_SCHED\<close>.
  \<^item> \<open>Scan\<close>, \<open>Loader\<close>, \<open>Config\<close>: formatted input, the program files and the configuration file,
    each with a round trip against the file format.
  \<^item> \<open>Kernel\<close>: the process blocks, devices and scheduler together; \<open>kernel_ok\<close>, the memories of all
    processes are well formed and own disjoint frames. \<open>Syscalls\<close>, \<open>Cpu\<close>: dispatch, handlers and
    \<open>run\<close>; an instruction keeps \<open>kernel_ok\<close> and what other processes read. \<open>Killall\<close>: what the
    \<open>killall\<close> call does to the queues and to the memory of the processes. \<open>Memmap\<close>: what a direct
    \<open>memmap\<close> call can do to other processes.
  \<^item> \<open>Timer\<close>: the timer and the devices interleaved; it implements a barrier, does not deadlock
    and ends when all devices have left.
  \<^item> \<open>Os\<close>: \<open>main\<close> and the threads, interleaved with the timer. \<open>Slice\<close>: the time slice. \<open>Pool\<close>,
    \<open>System\<close>: the invariant of the whole system. \<open>Progress\<close>: it never deadlocks, every time slot
    ends, and \<open>main\<close> returns when the threads have left. \<open>Arrival\<close>: when the loader adds which
    process. \<open>Steps\<close>: what the step of a thread leaves alone. \<open>Overlap\<close>: which instructions use
    no device, and runs in which no two CPUs use the devices at once. \<open>Waiting\<close>: how long a process waits for
    a CPU in the running system. \<open>Room\<close>, \<open>Completion\<close>: no process is lost, and how long it takes until
    it is done. \<open>Isolation\<close>: a process finds its memory as it left it. \<open>Tame\<close>: workloads all of
    whose runs are supported. This theory: the properties of the whole system.
  \<^item> \<open>LegacyMem\<close>, \<open>Paging\<close>: the segmented memory of \<open>src/mem.c\<close> and its driver \<open>src/paging.c\<close>,
    which the program does not use.

  Faults. What C leaves undefined (NULL, wild or freed pointers, accesses out of bounds, reads of
  unset variables) and \<open>exit\<close> are results of the type \<open>fault\<close>; error codes are ordinary results. The
  theorems that something returns are stated as such (\<open>Inr\<close>).

  Loops are structural or have a measure; no fuel is used. The bounds of \<open>no_starvation\<close>,
  \<open>os_no_starvation\<close>, \<open>os_completion\<close>, \<open>os_finishes\<close>, \<open>slot_bounded\<close> and \<open>main_returns\<close> are those of
  quantities that every call, tick or step decreases (\<open>wait_rank\<close>, \<open>wait_time\<close>, \<open>hold_time\<close>,
  \<open>os_rank\<close>, \<open>end_rank\<close>). The search for the end of the name in \<open>killall\<close> stops at its array of
  100 bytes at the latest.

  Interleaving. A step of a thread is what it does between two accesses to shared state, so the
  scheduler calls (under \<open>queue_lock\<close>) and the critical sections of the timer are single steps.
  \<open>put_proc\<close> and \<open>add_proc\<close> are single steps too; between their two critical sections nothing but the
  legacy queues could differ. \<open>run\<close> is one step although the code takes no lock there: the devices are
  shared by all CPUs, \<open>mmvm_lock\<close> is never used, and \<open>frame_race\<close> shows that two overlapping calls of
  \<open>MEMPHY_get_freefp\<close> can hand out one frame twice. One step is what the code does when no two CPUs are
  inside \<open>run\<close> with instructions that use the devices (\<open>apart\<close>, in every state of the run; a CPU is at
  \<open>C_run\<close> as long as its call lasts). With one CPU this is always so (\<open>single_rstep\<close>), and so it is when
  all instructions are private (\<open>private_run\<close>: they neither read nor write a device). The theorems about
  the memories and faults of the whole system, \<open>os_no_fault\<close>, \<open>os_exclusive\<close>, \<open>os_isolation\<close>,
  \<open>os_no_deadlock\<close>, \<open>os_completion\<close> and \<open>os_finishes\<close>, therefore speak of such runs (\<open>rstep\<close>);
  \<open>tame_workload\<close> shows that the runs of private instructions are of this kind. \<open>os_no_starvation\<close>, which
  is about the scheduler, takes instructions as single steps.

  Supported instructions. The same theorems speak of runs whose instructions the memory library can carry
  out (\<open>ins_ok\<close>): addresses below the break, no allocation hit by the off-by-one test or out of frames, no
  \<open>killall\<close>, and no direct \<open>memmap\<close> that writes, grows or swaps. The rest is covered by the theorems about
  what goes wrong there.

  Parameters: the files, and what \<open>malloc\<close> and the stack hold. \<open>clean_env\<close> says that the blocks \<open>malloc\<close>
  returns for a new process are zero where the code relies on it, as they are on a heap that was never used
  before. C does not promise it, \<open>init_mm_ok_iff\<close> shows that the code needs it, and the theorems that need
  it have it among their assumptions.

  Not modelled: the branches without \<open>MM_PAGING\<close> and with \<open>MM_FIXED_MEMSZ\<close>, which \<open>os-cfg.h\<close>
  switches off (but for the functions of \<open>src/cpu.c\<close> that are compiled all the same), three macros of
  \<open>bitops.h\<close> that no code uses, failing \<open>malloc\<close>, the prototypes of the headers, the plotting
  script, build files, inputs and expected outputs. The scheduler without \<open>MLQ_SCHED\<close>, in \<open>SingleQueue\<close>,
  is code of \<open>sched.c\<close> that no configuration builds: \<open>sched.h\<close> defines \<open>MLQ_SCHED\<close> where \<open>os-cfg.h\<close> does
  not, and \<open>queue.c\<close> and \<open>os.c\<close> read fields that exist only with it.
\<close>

section \<open>The whole system\<close>

text \<open>A CPU holds process \<open>p\<close>: it runs it or is about to run it or to put it back.\<close>

definition holds_proc :: "os \<Rightarrow> nat \<Rightarrow> nat \<Rightarrow> bool" where
  "holds_proc s i p \<longleftrightarrow> i < length (cpus s) \<and> p \<in># own (cpus s ! i)"

lemma held_member: "holds_proc s i p \<Longrightarrow> p \<in># held (cpus s)"
  by (simp add: holds_proc_def held_split [of i])

lemma os_start:
  assumes "inputs e arg ts nc mem swps ps" "main_boot e [prog, arg] = Inr (c, s0)"
  shows "loadable e c" "os_inv c nc s0" "length (cpus s0) = nc"
  using main_boots [OF assms(1), of prog] assms by (auto simp: os_inv_def)

lemma rstep_inv:
  assumes "execs (rstep e c) s ls s'" "os_inv c n s" "clean_env e" "loadable e c"
  shows "os_inv c n s'"
  by (rule os_inv_run [OF rstep_execs [OF assms(1)] assms(2-4)])

text \<open>In a supported state every CPU and the loader can take its next step.\<close>

lemma next_steps_ok:
  assumes "os_inv c n s" "supported s" "clean_env e" "loadable e c"
  shows "\<forall>i < n. cpc (cpus s ! i) \<notin> {C_slot, C_exit} \<longrightarrow>
      ok (cpu_routine (time_slot c) (done_flag s) i (kern s) (cpus s ! i))"
    and "lpc (loader s) \<notin> {L_wait, L_next, L_exit} \<longrightarrow>
      ok (ld_routine e c (current_time (tim s)) (kern s) (done_flag s) (loader s))"
proof -
  have p: "pool (kern s) (pending (loader s)) (ld_own (loader s) + held (cpus s))" "ld_ok c (loader s)" "length (cpus s) = n"
    using assms(1) by (simp_all add: os_inv_def)
  have "ok (cpu_routine (time_slot c) (done_flag s) i (kern s) (cpus s ! i))"
    if "i < n" "cpc (cpus s ! i) \<notin> {C_slot, C_exit}" for i
    using cpu_step [OF cpu_pool [OF assms(1,2)] that(2), of "time_slot c" "done_flag s" i] that(1) p(3) by auto
  then show "\<forall>i < n. cpc (cpus s ! i) \<notin> {C_slot, C_exit} \<longrightarrow>
      ok (cpu_routine (time_slot c) (done_flag s) i (kern s) (cpus s ! i))" by blast
  show "lpc (loader s) \<notin> {L_wait, L_next, L_exit} \<longrightarrow>
      ok (ld_routine e c (current_time (tim s)) (kern s) (done_flag s) (loader s))"
    using ld_step [OF p(1,2) _ assms(3,4), of "current_time (tim s)" "done_flag s"] by auto
qed

text \<open>A configuration with one CPU and one process of one instruction, and one without a process.\<close>

definition demo_procs :: "(u64 \<times> string \<times> u64) list" where
  "demo_procs = [(0, ''p0'', 7)]"

definition demo_env :: "nat \<Rightarrow> (u64 \<times> string \<times> u64) list \<Rightarrow> env" where
  "demo_env nc ps = \<lparr>fs = (\<lambda>p. if p = ''input/os'' then Some (config_text 2 nc 1024 [512, 0, 0, 0] ps)
       else Some (program_text 1 [blank_inst\<lparr>opcode := CALC\<rparr>])),
     raw_time = (\<lambda>_. 0), raw_prio = (\<lambda>_. 0), raw_dev = (\<lambda>_. dev1k), raw_cells = (\<lambda>_ _. 0),
     raw_pcb = (\<lambda>_. blank_pcb), raw_text = (\<lambda>_ _. blank_inst),
     raw_mm = (\<lambda>_. \<lparr>pgd = CArray 0 (\<lambda>_. 0), mmap = Null, symrgtbl = CArray 30 (\<lambda>_. \<lparr>rg_start = 0, rg_end = 0\<rparr>),
       fifo_pgn = Null\<rparr>),
     raw_pgd = (\<lambda>_ _. 0), raw_freerg = (\<lambda>_. Null)\<rparr>"

lemma demo_inputs:
  assumes "ps = [] \<or> ps = demo_procs" "nc \<le> 1"
  shows "inputs (demo_env nc ps) ''os'' 2 nc 1024 [512, 0, 0, 0] ps"
proof -
  have "config_fits 2 nc 1024 [512, 0, 0, 0] ps"
    using assms by (auto simp: config_fits_def demo_procs_def good_name_def is_space_def)
  moreover have "fs (demo_env nc ps) (''input/proc/'' @ w) = Some (program_text 1 [blank_inst\<lparr>opcode := CALC\<rparr>])" for w
    by (simp add: demo_env_def)
  moreover have "length [blank_inst\<lparr>opcode := CALC\<rparr>] < 2 ^ 32" by simp
  moreover have "\<forall>(t, w, pr) \<in> set ps. pr < 140" using assms by (auto simp: demo_procs_def)
  moreover have "fs (demo_env nc ps) (''input/'' @ ''os'') = Some (config_text 2 nc 1024 [512, 0, 0, 0] ps)"
    by (simp add: demo_env_def)
  ultimately show ?thesis unfolding inputs_def by (fastforce simp del: append_Cons)
qed

lemma demo_clean: "clean_env (demo_env nc ps)"
  by (simp add: clean_env_def demo_env_def blank_pcb_def)

text \<open>The configuration with one process leads to a state in which it waits.\<close>

lemma demo_boots:
  obtains c s0 where "main_boot (demo_env 1 demo_procs) [''os'', ''os''] = Inr (c, s0)" "loadable (demo_env 1 demo_procs) c"
    "os_inv c 1 s0" "cpus s0 = replicate 1 cpu_start" "dpc (tim s0) = (\<lambda>_. D_run)"
    "loader s0 = \<lparr>li = 0, lproc = None, lpc = L_start\<rparr>" "now (tim s0) = 0"
    "0 < num_processes c" "starts c [0]" "[0 :: u64] ! 0 = 0" "\<forall>l. 0 \<le> l \<and> l < 140 \<longrightarrow> 0 < slots (ksched (kern s0)) l"
proof -
  have inp: "inputs (demo_env 1 demo_procs) ''os'' 2 1 1024 [512, 0, 0, 0] demo_procs" by (rule demo_inputs) simp_all
  obtain c s0 where b: "main_boot (demo_env 1 demo_procs) [''os'', ''os''] = Inr (c, s0)" "config_says c 2 1 1024 [512, 0, 0, 0] demo_procs"
    "loadable (demo_env 1 demo_procs) c" "os_inv c 1 s0" "cpus s0 = replicate 1 cpu_start"
    "loader s0 = \<lparr>li = 0, lproc = None, lpc = L_start\<rparr>" "dpc (tim s0) = (\<lambda>_. D_run)" "now (tim s0) = 0"
    "\<forall>l. 0 \<le> l \<and> l < 140 \<longrightarrow> 0 < slots (ksched (kern s0)) l"
    using main_boots [OF inp] by blast
  have "0 < num_processes c" "starts c [0]" "[0 :: u64] ! 0 = 0"
    using b(2) by (auto simp: config_says_def starts_def demo_procs_def aget_def in_bounds_def)
  with b that show thesis by blast
qed

lemma demo_waits:
  "\<exists>c s0 s l. main_boot (demo_env 1 demo_procs) [''os'', ''os''] = Inr (c, s0) \<and>
    execs (sstep (demo_env 1 demo_procs) c) s0 [] s \<and> execs (rstep (demo_env 1 demo_procs) c) s0 [] s \<and>
    0 \<le> l \<and> l < 140 \<and> level (ksched (kern s)) l \<noteq> [] \<and> os_inv c 1 s"
proof -
  obtain c s0 where b: "main_boot (demo_env 1 demo_procs) [''os'', ''os''] = Inr (c, s0)" "loadable (demo_env 1 demo_procs) c"
    "os_inv c 1 s0" "cpus s0 = replicate 1 cpu_start" "dpc (tim s0) = (\<lambda>_. D_run)"
    "loader s0 = \<lparr>li = 0, lproc = None, lpc = L_start\<rparr>" "now (tim s0) = 0"
    "0 < num_processes c" "starts c [0]" "[0 :: u64] ! 0 = 0" by (rule demo_boots) blast
  obtain s l where s: "execs (sstep (demo_env 1 demo_procs) c) s0 [] s" "0 \<le> l" "l < 140" "level (ksched (kern s)) l \<noteq> []" "os_inv c 1 s"
    using first_waits [OF b(3) demo_clean b(2,4-10)] by blast
  have "length (cpus s0) \<le> 1" using b(4) by simp
  then have "execs (rstep (demo_env 1 demo_procs) c) s0 [] s" using single_rstep [OF s(1)] by blast
  then show ?thesis using b(1) s by blast
qed

lemma demo_in_system:
  "\<exists>c s0 s p x. main_boot (demo_env 1 demo_procs) [''os'', ''os''] = Inr (c, s0) \<and>
    execs (rstep (demo_env 1 demo_procs) c) s0 [] s \<and> in_system s p \<and> procs (kern s) p = Some x"
proof -
  obtain c s0 s l where b: "main_boot (demo_env 1 demo_procs) [''os'', ''os''] = Inr (c, s0)"
    "execs (rstep (demo_env 1 demo_procs) c) s0 [] s" "0 \<le> l" "l < 140" "level (ksched (kern s)) l \<noteq> []" "os_inv c 1 s"
    using demo_waits by blast
  have "waiting (kern s) (hd (level (ksched (kern s)) l))" using b(3-5) unfolding waiting_def by force
  then have sys: "in_system s (hd (level (ksched (kern s)) l))" by (simp add: in_system_def)
  obtain x where "procs (kern s) (hd (level (ksched (kern s)) l)) = Some x"
    using in_system_facts(1) [OF b(6) sys] by (auto simp: proc_ready_def)
  then show ?thesis using b(1,2) sys by blast
qed

text \<open>One step later its CPU has it.\<close>

lemma demo_held:
  "\<exists>c s0 s p. main_boot (demo_env 1 demo_procs) [''os'', ''os''] = Inr (c, s0) \<and>
    execs (rstep (demo_env 1 demo_procs) c) s0 [] s \<and> holds_proc s 0 p"
proof -
  obtain c s0 where b: "main_boot (demo_env 1 demo_procs) [''os'', ''os''] = Inr (c, s0)" "loadable (demo_env 1 demo_procs) c"
    "os_inv c 1 s0" "cpus s0 = replicate 1 cpu_start" "dpc (tim s0) = (\<lambda>_. D_run)"
    "loader s0 = \<lparr>li = 0, lproc = None, lpc = L_start\<rparr>" "now (tim s0) = 0"
    "0 < num_processes c" "starts c [0]" "[0 :: u64] ! 0 = 0" "\<forall>l. 0 \<le> l \<and> l < 140 \<longrightarrow> 0 < slots (ksched (kern s0)) l"
    by (rule demo_boots) blast
  obtain s p where s: "execs (sstep (demo_env 1 demo_procs) c) s0 [] s" "length (cpus s) = 1" "p \<in># own (cpus s ! 0)"
    using first_held [OF b(3) demo_clean b(2,4-10) zero_less_one b(11)] by blast
  have "length (cpus s0) \<le> 1" using b(4) by simp
  then have "execs (rstep (demo_env 1 demo_procs) c) s0 [] s" using single_rstep [OF s(1)] by blast
  moreover have "holds_proc s 0 p" using s(2,3) by (simp add: holds_proc_def)
  ultimately show ?thesis using b(1) by blast
qed

text \<open>
  C1: the program starts and does not fault. On readable input files, and if the blocks \<open>malloc\<close> returns
  for a new process are zero (\<open>clean_env\<close>, which C does not promise), \<open>main\<close> gets through its
  initialisation. Take any interleaving of the threads in which only supported instructions are run and
  no two CPUs are inside \<open>run\<close> with instructions that use the shared devices (always so with one CPU;
  the code does not ensure it with more). Then the memories of all processes stay in order and the next
  step of every CPU and of the loader succeeds: no NULL or dangling pointer, no access out of bounds,
  no freed process.
\<close>

theorem os_no_fault:
  assumes "inputs e arg ts nc mem swps ps" "clean_env e"
  shows "\<exists>c s0. main_boot e [prog, arg] = Inr (c, s0) \<and>
    (\<forall>ls s. execs (rstep e c) s0 ls s \<longrightarrow> kernel_ok (kern s) \<and>
       (supported s \<and> apart s \<longrightarrow>
         (\<forall>i < nc. cpc (cpus s ! i) \<notin> {C_slot, C_exit} \<longrightarrow>
            ok (cpu_routine (time_slot c) (done_flag s) i (kern s) (cpus s ! i))) \<and>
         (lpc (loader s) \<notin> {L_wait, L_next, L_exit} \<longrightarrow>
            ok (ld_routine e c (current_time (tim s)) (kern s) (done_flag s) (loader s)))))"
proof -
  obtain c s0 where boot: "main_boot e [prog, arg] = Inr (c, s0)" using main_boots [OF assms(1)] by blast
  note st = os_start [OF assms(1) boot]
  have all: "kernel_ok (kern s) \<and> (supported s \<and> apart s \<longrightarrow>
      (\<forall>i < nc. cpc (cpus s ! i) \<notin> {C_slot, C_exit} \<longrightarrow>
         ok (cpu_routine (time_slot c) (done_flag s) i (kern s) (cpus s ! i))) \<and>
      (lpc (loader s) \<notin> {L_wait, L_next, L_exit} \<longrightarrow>
         ok (ld_routine e c (current_time (tim s)) (kern s) (done_flag s) (loader s))))"
    if run: "execs (rstep e c) s0 ls s" for ls s
  proof -
    have inv: "os_inv c nc s" by (rule rstep_inv [OF run st(2) assms(2) st(1)])
    then have "kernel_ok (kern s)" by (simp add: os_inv_def pool_def)
    then show ?thesis using next_steps_ok [OF inv _ assms(2) st(1)] by blast
  qed
  show ?thesis
    by (rule exI [of _ c], rule exI [of _ s0], rule conjI [OF boot]) (intro allI impI, erule all)
qed

theorem os_no_fault_witness:
  "\<exists>c s0. main_boot (demo_env 1 demo_procs) [''os'', ''os''] = Inr (c, s0) \<and>
    (\<forall>ls s. execs (sstep (demo_env 1 demo_procs) c) s0 ls s \<longrightarrow> kernel_ok (kern s))"
proof -
  have inp: "inputs (demo_env 1 demo_procs) ''os'' 2 1 1024 [512, 0, 0, 0] demo_procs" by (rule demo_inputs) simp_all
  from os_no_fault [OF inp demo_clean, of "''os''"] obtain c s0 where
    b: "main_boot (demo_env 1 demo_procs) [''os'', ''os''] = Inr (c, s0)"
    "\<forall>ls s. execs (rstep (demo_env 1 demo_procs) c) s0 ls s \<longrightarrow> kernel_ok (kern s)" by metis
  have "length (cpus s0) \<le> 1" using os_start(3) [OF inp b(1)] by simp
  then show ?thesis using b single_rstep by blast
qed

text \<open>
  C2: tame workloads are safe on any number of CPUs. Let the programs only compute, free regions and make
  system calls other than \<open>memmap\<close> and \<open>killall\<close>, and let the blocks \<open>malloc\<close> returns for a new process
  be zero (\<open>clean_env\<close>; \<open>__free\<close> reads symbols and free lists nothing has initialised). Then every run of
  the system, in every interleaving, is a run of supported instructions in which no two CPUs use the
  devices at once (so that the theorems on such runs apply), RAM and swap stay as they were at the start,
  the memories of all processes stay in order, and no step of a CPU or of the loader faults.
\<close>

theorem tame_workload:
  assumes "inputs e arg ts nc mem swps ps" "clean_env e" "main_boot e [prog, arg] = Inr (c, s0)" "tame_files e ps"
    and "execs (ostep e c) s0 ls s"
  shows "execs (rstep e c) s0 ls s \<and> supported s \<and> apart s \<and> kernel_ok (kern s) \<and>
    ram (kern s) = ram (kern s0) \<and> swp (kern s) = swp (kern s0) \<and>
    (\<forall>i < nc. cpc (cpus s ! i) \<notin> {C_slot, C_exit} \<longrightarrow>
       ok (cpu_routine (time_slot c) (done_flag s) i (kern s) (cpus s ! i))) \<and>
    (lpc (loader s) \<notin> {L_wait, L_next, L_exit} \<longrightarrow>
       ok (ld_routine e c (current_time (tim s)) (kern s) (done_flag s) (loader s)))"
proof -
  note st = os_start [OF assms(1,3)]
  obtain c' t where "main_boot e [prog, arg] = Inr (c', t)" "config_says c' ts nc mem swps ps"
    using main_boots [OF assms(1), of prog] by blast
  then have "loads_tame e c" using assms(3) files_loads_tame [OF assms(4)] by simp
  moreover have "tame_kernel (kern s0)" by (rule boot_tame [OF assms(3)])
  ultimately have r: "execs (rstep e c) s0 ls s" "os_inv c nc s" "tame_kernel (kern s)"
    "ram (kern s) = ram (kern s0)" "swp (kern s) = swp (kern s0)"
    using tame_run [OF assms(5) st(2) assms(2) st(1)] by blast+
  have sup: "supported s" "apart s" by (rule tame_supported [OF r(3)])+
  moreover have "kernel_ok (kern s)" using r(2) by (simp add: os_inv_def pool_def)
  ultimately show ?thesis using r(1,4,5) next_steps_ok [OF r(2) sup(1) assms(2) st(1)] by blast
qed

lemma demo_tame: "tame_files (demo_env nc ps) ps"
proof -
  have "fs (demo_env nc ps) (''input/proc/'' @ w) = Some (program_text 1 [blank_inst\<lparr>opcode := CALC\<rparr>])" for w
    by (simp add: demo_env_def)
  moreover have "private_ins (blank_inst\<lparr>opcode := CALC\<rparr>)" by (simp add: private_ins_def)
  ultimately show ?thesis by (fastforce simp: tame_files_def simp del: append_Cons)
qed

theorem tame_workload_witness:
  "\<exists>c s0. main_boot (demo_env 1 demo_procs) [''os'', ''os''] = Inr (c, s0) \<and>
    (\<forall>ls s. execs (ostep (demo_env 1 demo_procs) c) s0 ls s \<longrightarrow> kernel_ok (kern s) \<and>
       (cpc (cpus s ! 0) \<notin> {C_slot, C_exit} \<longrightarrow>
          ok (cpu_routine (time_slot c) (done_flag s) 0 (kern s) (cpus s ! 0))))"
proof -
  have inp: "inputs (demo_env 1 demo_procs) ''os'' 2 1 1024 [512, 0, 0, 0] demo_procs" by (rule demo_inputs) simp_all
  obtain c s0 where boot: "main_boot (demo_env 1 demo_procs) [''os'', ''os''] = Inr (c, s0)"
    using main_boots [OF inp] by blast
  then show ?thesis using tame_workload [OF inp demo_clean boot demo_tame] by fastforce
qed

text \<open>
  C3: no process is ever in two places. In every interleaving of supported instructions (run apart, as in
  \<open>os_no_fault\<close>, with \<open>clean_env\<close>), two CPUs never hold the same process, a held process is on no ready level, no
  process is on two levels or twice on one, and every process that waits or is held has a live process
  block.
\<close>

theorem os_exclusive:
  assumes "inputs e arg ts nc mem swps ps" "clean_env e" "main_boot e [prog, arg] = Inr (c, s0)"
    and "execs (rstep e c) s0 ls s"
  shows "(\<forall>i j p. holds_proc s i p \<and> holds_proc s j p \<longrightarrow> i = j) \<and>
    (\<forall>i p. holds_proc s i p \<longrightarrow> \<not> waiting (kern s) p \<and> procs (kern s) p \<noteq> None) \<and>
    (\<forall>p. waiting (kern s) p \<longrightarrow> procs (kern s) p \<noteq> None) \<and>
    (\<forall>l l' p. 0 \<le> l \<and> l < 140 \<and> 0 \<le> l' \<and> l' < 140 \<and> p \<in> set (level (ksched (kern s)) l) \<and>
       p \<in> set (level (ksched (kern s)) l') \<longrightarrow> l = l') \<and>
    (\<forall>l. 0 \<le> l \<and> l < 140 \<longrightarrow> distinct (level (ksched (kern s)) l))"
proof -
  note st = os_start [OF assms(1,3)]
  have inv: "os_inv c nc s" by (rule rstep_inv [OF assms(4) st(2) assms(2) st(1)])
  then have p: "pool (kern s) (pending (loader s)) (ld_own (loader s) + held (cpus s))" by (simp add: os_inv_def)
  have one: "i = j" if "holds_proc s i q" "holds_proc s j q" for i j q
    using that only_holder [OF inv] unfolding holds_proc_def by blast
  have live: "procs (kern s) q \<noteq> None" if "waiting (kern s) q \<or> q \<in># held (cpus s)" for q
  proof -
    have "proc_ready (kern s) q" using that p by (auto simp: pool_def)
    then show ?thesis by (auto simp: proc_ready_def)
  qed
  have idle: "\<not> waiting (kern s) q" if "q \<in># held (cpus s)" for q
    using p that by (auto simp: pool_def)
  have level: "l = l'" if "0 \<le> l" "l < 140" "0 \<le> l'" "l' < 140" "q \<in> set (level (ksched (kern s)) l)"
    "q \<in> set (level (ksched (kern s)) l')" for l l' q
  proof -
    have "sched_ok (prio_at (kern s)) (ksched (kern s))" using p by (simp add: pool_def)
    from on_one_level [OF this that(5,6,1-4)] show ?thesis .
  qed
  have "\<forall>l. 0 \<le> l \<and> l < 140 \<longrightarrow> distinct (level (ksched (kern s)) l)" using p by (simp add: pool_def)
  then show ?thesis using one live idle held_member by (intro conjI allI impI) (blast intro: level)+
qed

theorem os_exclusive_witness:
  "\<exists>c s0 s p. main_boot (demo_env 1 demo_procs) [''os'', ''os''] = Inr (c, s0) \<and>
    execs (rstep (demo_env 1 demo_procs) c) s0 [] s \<and> holds_proc s 0 p \<and> \<not> waiting (kern s) p \<and> procs (kern s) p \<noteq> None"
proof -
  have inp: "inputs (demo_env 1 demo_procs) ''os'' 2 1 1024 [512, 0, 0, 0] demo_procs" by (rule demo_inputs) simp_all
  obtain c s0 s p where b: "main_boot (demo_env 1 demo_procs) [''os'', ''os''] = Inr (c, s0)"
    "execs (rstep (demo_env 1 demo_procs) c) s0 [] s" "holds_proc s 0 p" using demo_held by blast
  have "holds_proc s 0 p \<longrightarrow> \<not> waiting (kern s) p \<and> procs (kern s) p \<noteq> None"
    by (rule os_exclusive [OF inp demo_clean b(1,2), THEN conjunct2, THEN conjunct1, THEN spec, THEN spec])
  then show ?thesis using b by blast
qed

text \<open>
  C6: isolation of the running processes. In every run of supported instructions in which no two CPUs use
  the devices at once (with \<open>clean_env\<close>): as long as a process executes no instruction itself, whatever the
  CPUs do with other processes, the loader loads and the scheduler moves, it keeps its memory descriptor,
  and \<open>libread\<close> finds every byte of its heap as it was.
\<close>

theorem os_isolation:
  assumes "inputs e arg ts nc mem swps ps" "clean_env e" "main_boot e [prog, arg] = Inr (c, s0)"
    and "execs (rstep e c) s0 ls0 s" "procs (kern s) p = Some x" "p_mm x = Some M"
    and "execs (idle_step e c p) s ls s'" "procs (kern s') p = Some y"
  shows "p_mm y = Some M \<and> (\<forall>r off. in_heap (caller_of x M (kern s)) r off \<longrightarrow>
    (\<exists>w c1 c2. libread (caller_of x M (kern s)) r off = Inr (0, Some w, c1) \<and>
      libread (caller_of y M (kern s')) r off = Inr (0, Some w, c2)))"
proof -
  note st = os_start [OF assms(1,3)]
  have inv: "os_inv c nc s" by (rule rstep_inv [OF assms(4) st(2) assms(2) st(1)])
  have s': "os_inv c nc s'" "keeps_view p (kern s) (kern s')" using idle_run [OF assms(7) inv assms(2) st(1)] by blast+
  have ok: "kernel_ok (kern s)" "kernel_ok (kern s')" using inv s'(1) by (simp_all add: os_inv_def pool_def)
  have y: "p_mm y = Some M" and same: "\<forall>f \<in> set (frame_list M). \<forall>a \<in> page_addrs f.
      phy_read (Some (ram (kern s'))) a = phy_read (Some (ram (kern s))) a"
    using s'(2) assms(5,6,8) by (auto simp: keeps_view_def)
  show ?thesis using y same_reads [OF ok assms(5,6,8) y _ same] by blast
qed

theorem os_isolation_witness:
  "\<exists>c s0 s p x M. main_boot (demo_env 1 demo_procs) [''os'', ''os''] = Inr (c, s0) \<and>
    execs (rstep (demo_env 1 demo_procs) c) s0 [] s \<and> procs (kern s) p = Some x \<and> p_mm x = Some M \<and>
    (\<forall>ls s' y. execs (idle_step (demo_env 1 demo_procs) c p) s ls s' \<and> procs (kern s') p = Some y \<longrightarrow> p_mm y = Some M)"
proof -
  obtain c s0 s l where b: "main_boot (demo_env 1 demo_procs) [''os'', ''os''] = Inr (c, s0)"
    "execs (rstep (demo_env 1 demo_procs) c) s0 [] s" "0 \<le> l" "l < 140" "level (ksched (kern s)) l \<noteq> []" "os_inv c 1 s"
    using demo_waits by blast
  then have "waiting (kern s) (hd (level (ksched (kern s)) l))" unfolding waiting_def by force
  then have "proc_ready (kern s) (hd (level (ksched (kern s)) l))" using b(6) by (simp add: os_inv_def pool_def)
  then obtain x M where x: "procs (kern s) (hd (level (ksched (kern s)) l)) = Some x" "p_mm x = Some M"
    by (auto simp: proc_ready_def)
  have inp: "inputs (demo_env 1 demo_procs) ''os'' 2 1 1024 [512, 0, 0, 0] demo_procs" by (rule demo_inputs) simp_all
  from os_isolation [OF inp demo_clean b(1,2) x] b(1,2) x show ?thesis by blast
qed

text \<open>Without CPUs and processes the loader leaves at once.\<close>

lemma loader_leaves:
  assumes "os_inv c 0 s" "clean_env e" "loadable e c" "dpc (tim s) = (\<lambda>_. D_run)"
    and "loader s = \<lparr>li = 0, lproc = None, lpc = L_start\<rparr>" "num_processes c = 0"
  shows "\<exists>s1 s2. execs (ostep e c) s [Leave 0] s1 \<and> main_join s1 = Some s2"
proof -
  have cpus: "cpus s = []" and inv: "timer_inv (tim s)" "set (dev_list (tim s)) = {0}"
    using assms(1) by (auto simp: os_inv_def timer_with_def)
  then have stop: "timer_stop (tim s) = 0" using assms(4) by (auto simp: timer_inv_def)
  have sup: "supported t" if "cpus t = []" for t using that by (simp add: supported_def)
  obtain k b u where s1: "ld_routine e c (current_time (tim s)) (kern s) (done_flag s) (loader s) = Inr (k, b, u)"
    "ostep e c s None (s\<lparr>kern := k, done_flag := b, loader := u\<rparr>)" "os_inv c 0 (s\<lparr>kern := k, done_flag := b, loader := u\<rparr>)"
    using ld_goes [OF assms(1-3) sup [OF cpus]] assms(4,5) by auto
  then have u: "lpc u = L_head" "li u = 0" using assms(5) by (auto simp: ld_routine_def)
  let ?s1 = "s\<lparr>kern := k, done_flag := b, loader := u\<rparr>"
  obtain k2 b2 u2 where s2: "ld_routine e c (current_time (tim ?s1)) (kern ?s1) (done_flag ?s1) (loader ?s1) = Inr (k2, b2, u2)"
    "ostep e c ?s1 None (?s1\<lparr>kern := k2, done_flag := b2, loader := u2\<rparr>)"
    using ld_goes [OF s1(3) assms(2,3) sup] cpus assms(4) u by auto
  then have u2: "lpc u2 = L_exit" using u assms(6) by (auto simp: ld_routine_def)
  let ?s2 = "?s1\<lparr>kern := k2, done_flag := b2, loader := u2\<rparr>"
  let ?s3 = "?s2\<lparr>tim := detach_event 0 (tim ?s2)\<rparr>"
  have "ostep e c ?s2 (Some (Leave 0)) ?s3" using cpus assms(4) u2 by (intro ostep.ld_exit) simp_all
  from execs.event [OF execs.silent [OF execs_silent1 [of "ostep e c", OF s1(2)] s2(2)] this]
  have "execs (ostep e c) s [Leave 0] ?s3" by simp
  moreover have "main_join ?s3 = Some (?s3\<lparr>tim := stop_timer_flag (tim ?s3)\<rparr>)"
    using cpus stop by (simp add: main_join_Some detach_event_def set_dev_def)
  ultimately show ?thesis by blast
qed

text \<open>
  C8: the system as a whole implements the barrier: whatever the interleaving of the CPUs, the
  loader, the timer thread and \<open>main\<close>, the calls of \<open>next_slot\<close>, the detachments and the clock
  ticks of the run are a run of the barrier of all CPUs and the loader.
\<close>

theorem os_refines_barrier:
  assumes "inputs e arg ts nc mem swps ps" "main_boot e [prog, arg] = Inr (c, s0)"
    and "execs (ostep e c) s0 ls s"
  shows "traces (bstep {0..<Suc nc}) (barrier_of (tim s0)) ls (barrier_of (tim s))"
proof -
  have "os_timer nc s0" using os_start(2) [OF assms(1,2)] by (simp add: os_inv_def os_timer_def)
  from os_sim.refines [OF assms(3) this] show ?thesis .
qed

theorem os_refines_barrier_witness:
  "\<exists>c s0 s. main_boot (demo_env 0 []) [''os'', ''os''] = Inr (c, s0) \<and> execs (ostep (demo_env 0 []) c) s0 [Leave 0] s \<and>
    traces (bstep {0..<Suc 0}) (barrier_of (tim s0)) [Leave 0] (barrier_of (tim s))"
proof -
  have inp: "inputs (demo_env 0 []) ''os'' 2 0 1024 [512, 0, 0, 0] []" by (rule demo_inputs) simp_all
  obtain c s0 where b: "main_boot (demo_env 0 []) [''os'', ''os''] = Inr (c, s0)" "config_says c 2 0 1024 [512, 0, 0, 0] []"
    "loadable (demo_env 0 []) c" "os_inv c 0 s0" "loader s0 = \<lparr>li = 0, lproc = None, lpc = L_start\<rparr>" "dpc (tim s0) = (\<lambda>_. D_run)"
    using main_boots [OF inp] by blast
  have "num_processes c = 0" using b(2) by (simp add: config_says_def)
  from loader_leaves [OF b(4) demo_clean b(3,6,5) this] obtain s where
    s: "execs (ostep (demo_env 0 []) c) s0 [Leave 0] s" by blast
  from os_refines_barrier [OF inp b(1) s] b(1) s show ?thesis by blast
qed

text \<open>
  C9: no deadlock. In every run of supported instructions in which no two CPUs use the devices at once
  (with \<open>clean_env\<close>), as long as one CPU or the loader has not left and the instructions about to run are
  again supported and apart, some thread or the timer can take its next step without a fault: no thread
  waits for a slot that never comes, and the timer never waits for a thread that has left.
\<close>

theorem os_no_deadlock:
  assumes "inputs e arg ts nc mem swps ps" "clean_env e" "main_boot e [prog, arg] = Inr (c, s0)"
    and "execs (rstep e c) s0 ls s" "supported s" "apart s" "d \<le> nc" "dpc (tim s) d \<noteq> D_gone"
  shows "\<exists>l s'. rstep e c s l s'"
proof -
  note st = os_start [OF assms(1,3)]
  have "os_inv c nc s" by (rule rstep_inv [OF assms(4) st(2) assms(2) st(1)])
  from os_goes [OF this assms(5,2) st(1) assms(7,8)] show ?thesis using assms(5,6) by (auto simp: rstep_simps)
qed

theorem os_no_deadlock_witness:
  "\<exists>c s0 l s'. main_boot (demo_env 1 demo_procs) [''os'', ''os''] = Inr (c, s0) \<and> rstep (demo_env 1 demo_procs) c s0 l s'"
proof -
  have inp: "inputs (demo_env 1 demo_procs) ''os'' 2 1 1024 [512, 0, 0, 0] demo_procs" by (rule demo_inputs) simp_all
  obtain c s0 where boot: "main_boot (demo_env 1 demo_procs) [''os'', ''os''] = Inr (c, s0)"
    "cpus s0 = replicate 1 cpu_start" "dpc (tim s0) = (\<lambda>_. D_run)" by (rule demo_boots) blast
  have "supported s0" using boot(2) by (simp add: supported_def cpu_supported_def cpu_start_def)
  moreover have "apart s0" using boot(2) by (intro apart_single) simp
  moreover have "dpc (tim s0) 0 \<noteq> D_gone" using boot(3) by simp
  ultimately have "\<exists>l s'. rstep (demo_env 1 demo_procs) c s0 l s'"
    using os_no_deadlock [OF inp demo_clean boot(1) execs.start, of 0] by simp
  then show ?thesis using boot(1) by blast
qed

text \<open>
  C11: a time slot ends. From any reachable state, whatever the instructions do, at most
  \<open>16 * nc + 20\<close> steps of the \<open>nc\<close> CPUs, the loader, the timer thread and \<open>main\<close> together can be
  taken without a tick of the clock.
\<close>

theorem slot_bounded:
  assumes "inputs e arg ts nc mem swps ps" "main_boot e [prog, arg] = Inr (c, s0)"
    and "execs (ostep e c) s0 ls s" "tickless e c s m s'"
  shows "m \<le> 16 * nc + 20"
proof -
  have "os_timer nc s0" using os_start(2) [OF assms(1,2)] by (simp add: os_inv_def os_timer_def)
  then have s: "os_timer nc s" by (rule os_sim.execs_invar [OF assms(3)])
  from tickless_rank [OF assms(4) s] os_rank_le [OF s] show ?thesis by linarith
qed

theorem slot_bounded_witness:
  "\<exists>c s0. main_boot (demo_env 1 demo_procs) [''os'', ''os''] = Inr (c, s0) \<and>
    (\<forall>m s'. tickless (demo_env 1 demo_procs) c s0 m s' \<longrightarrow> m \<le> 36)"
proof -
  have inp: "inputs (demo_env 1 demo_procs) ''os'' 2 1 1024 [512, 0, 0, 0] demo_procs" by (rule demo_inputs) simp_all
  obtain c s0 where boot: "main_boot (demo_env 1 demo_procs) [''os'', ''os''] = Inr (c, s0)"
    using main_boots [OF inp] by blast
  show ?thesis using slot_bounded [OF inp boot execs.start] boot by fastforce
qed

text \<open>
  C27: the program returns. When all CPUs and the loader have left and \<open>main\<close> has set the stop flag of
  the timer, every run ends after at most \<open>2 * nc + 5\<close> further steps, and in a state with no
  further step the timer thread has exited, so that \<open>stop_timer\<close> passes its join, frees the list of
  devices, and \<open>main\<close> returns 0.
\<close>

theorem main_returns:
  assumes "inputs e arg ts nc mem swps ps" "main_boot e [prog, arg] = Inr (c, s0)"
    and "execs (ostep e c) s0 ls s" "main_join s = Some s1"
    and "((\<lambda>s s'. \<exists>l. ostep e c s l s') ^^ m) s1 s2"
  shows "m \<le> 2 * nc + 5 \<and> ((\<exists>l s3. ostep e c s2 l s3) \<or> (\<exists>u. main_end s2 = Some (0, u) \<and> dev_list (tim u) = []))"
proof -
  have "os_timer nc s0" using os_start(2) [OF assms(1,2)] by (simp add: os_inv_def os_timer_def)
  then have s: "os_timer nc s" by (rule os_sim.execs_invar [OF assms(3)])
  have s1: "os_timer nc s1" by (rule os_sim.invar_step [OF s ostep.stop [OF assms(4)]])
  then have "stopping nc s1" using assms(4) s by (auto simp: stopping_def main_join_Some stop_timer_flag_def os_timer_def)
  then have "stopping nc s2" "m \<le> 2 * nc + 5" using end_run [OF assms(5)] end_rank_le [OF s1] by fastforce+
  then show ?thesis using end_reached [of nc s2 e c] by blast
qed

theorem main_returns_witness:
  "\<exists>c s0 s s1. main_boot (demo_env 0 []) [''os'', ''os''] = Inr (c, s0) \<and> execs (ostep (demo_env 0 []) c) s0 [Leave 0] s \<and>
    main_join s = Some s1 \<and> (\<forall>m s2. ((\<lambda>s s'. \<exists>l. ostep (demo_env 0 []) c s l s') ^^ m) s1 s2 \<longrightarrow> m \<le> 5)"
proof -
  have inp: "inputs (demo_env 0 []) ''os'' 2 0 1024 [512, 0, 0, 0] []" by (rule demo_inputs) simp_all
  obtain c s0 where b: "main_boot (demo_env 0 []) [''os'', ''os''] = Inr (c, s0)" "config_says c 2 0 1024 [512, 0, 0, 0] []"
    "loadable (demo_env 0 []) c" "os_inv c 0 s0" "loader s0 = \<lparr>li = 0, lproc = None, lpc = L_start\<rparr>" "dpc (tim s0) = (\<lambda>_. D_run)"
    using main_boots [OF inp] by blast
  have "num_processes c = 0" using b(2) by (simp add: config_says_def)
  from loader_leaves [OF b(4) demo_clean b(3,6,5) this] obtain s s1 where
    s: "execs (ostep (demo_env 0 []) c) s0 [Leave 0] s" "main_join s = Some s1" by blast
  have "m \<le> 5" if "((\<lambda>s s'. \<exists>l. ostep (demo_env 0 []) c s l s') ^^ m) s1 s2" for m s2
    using main_returns [OF inp b(1) s that] by simp
  then show ?thesis using b(1) s by blast
qed

text \<open>
  C12: when the processes arrive. In every run, the loader adds the processes in the order of the
  configuration file, and the number of ticks at which it adds the i-th one is \<open>arrival\<close> of the
  start times: its start time, or the slot after the arrival of its predecessor if that is later.
\<close>

theorem process_arrival:
  assumes "inputs e arg ts nc mem swps ps" "main_boot e [prog, arg] = Inr (c, s0)"
    and "execs (ostep e c) s0 ls s" "count_list ls Tick < 2 ^ 64" "lpc (loader s) = L_add"
  shows "0 \<le> li (loader s) \<and> li (loader s) < int (length ps) \<and>
    count_list ls Tick = arrival (map fst ps) (nat (li (loader s)))"
proof -
  obtain c' s' where b: "main_boot e [prog, arg] = Inr (c', s')" "config_says c' ts nc mem swps ps" "os_inv c' nc s'"
    "loader s' = \<lparr>li = 0, lproc = None, lpc = L_start\<rparr>" "dpc (tim s') = (\<lambda>_. D_run)" "now (tim s') = 0"
    using main_boots [OF assms(1), of prog] by blast
  then have eq: "c' = c" "s' = s0" using assms(2) by simp_all
  have n: "num_processes c = int (length ps)" using b(2) by (simp add: config_says_def eq)
  have "starts c (map fst ps)"
    using b(2) by (auto simp: starts_def config_says_def eq aget_def in_bounds_def)
  then have "arrivals_inv c (map fst ps) nc (count_list ls Tick) s"
    using arrivals_boot [OF b(3-6)] by (intro arrivals_run [OF assms(3) _ assms(4)]) (simp_all add: eq)
  then show ?thesis using assms(5) n by (simp add: arrivals_inv_def ld_timed_def ld_at_def ld_ok_def)
qed

theorem process_arrival_witness:
  "\<exists>c s0 s. main_boot (demo_env 1 demo_procs) [''os'', ''os''] = Inr (c, s0) \<and>
    execs (ostep (demo_env 1 demo_procs) c) s0 [] s \<and> lpc (loader s) = L_add \<and> arrival (map fst demo_procs) 0 = 0"
proof -
  have inp: "inputs (demo_env 1 demo_procs) ''os'' 2 1 1024 [512, 0, 0, 0] demo_procs" by (rule demo_inputs) simp_all
  obtain c s0 where b: "main_boot (demo_env 1 demo_procs) [''os'', ''os''] = Inr (c, s0)" "loadable (demo_env 1 demo_procs) c"
    "os_inv c 1 s0" "cpus s0 = replicate 1 cpu_start" "dpc (tim s0) = (\<lambda>_. D_run)"
    "loader s0 = \<lparr>li = 0, lproc = None, lpc = L_start\<rparr>" "now (tim s0) = 0"
    "0 < num_processes c" "starts c [0]" "[0 :: u64] ! 0 = 0" by (rule demo_boots) blast
  obtain s where s: "execs (ostep (demo_env 1 demo_procs) c) s0 [] s" "lpc (loader s) = L_add" "li (loader s) = 0"
    using first_added [OF b(3) demo_clean b(2,4-10)] sstep_execs by blast
  have "count_list [] Tick = arrival (map fst demo_procs) (nat (li (loader s)))"
    using process_arrival [OF inp b(1) s(1) _ s(2)] by simp
  then show ?thesis using b(1) s by auto
qed

text \<open>
  C10: no ready process starves in the running system. Take any reachable state in which a process is
  at position \<open>j\<close> of a level of the scheduler, and any continuation in which it stays on the level. As
  long as one CPU is left, the clock ticks at most \<open>(j + 2) * 9871 * (ts + 1)\<close> times, where \<open>ts\<close> is the time
  slice: then a CPU has taken the process, however many others of higher priority arrive or come
  back.
\<close>

theorem os_no_starvation:
  assumes "inputs e arg ts nc mem swps ps" "clean_env e" "main_boot e [prog, arg] = Inr (c, s0)" "0 < ts"
    and "execs (sstep e c) s0 ls0 s" "0 \<le> p" "p < 140" "j < length (level (ksched (kern s)) p)"
    and "execs (waits_step e c (level (ksched (kern s)) p ! j)) s ls s'" "i < nc" "dpc (tim s') i \<noteq> D_gone"
  shows "count_list ls Tick \<le> (j + 2) * 9871 * (ts + 1)"
proof -
  obtain c' t where b: "main_boot e [prog, arg] = Inr (c', t)" "config_says c' ts nc mem swps ps"
    "cpus t = replicate nc cpu_start" using main_boots [OF assms(1), of prog] by blast
  note st = os_start [OF assms(1,3)]
  have q: "time_slot c = int ts" "0 < time_slot c" "time_slot c < 2 ^ 31"
    using assms(1,3,4) b by (simp_all add: config_says_def inputs_def config_fits_def)
  have "slices_ok c s0" using assms(3) b(1,3) q(2) by (auto simp: slices_ok_def slice_ok_def cpu_start_def)
  then have sl: "slices_ok c s" using slices_run [OF assms(5) st(2) _ assms(2) st(1) q(2,3)] by blast
  have inv: "os_inv c nc s" by (rule os_inv_run [OF assms(5) st(2) assms(2) st(1)])
  have "waits_at (ksched (kern s)) (level (ksched (kern s)) p ! j) p j" using assms(6-8) by (simp add: waits_at_def)
  from wait_run [OF assms(9) inv sl assms(2) st(1) q(2,3) this assms(10,11)] obtain j' where
    w: "os_inv c nc s'" "slices_ok c s'" "wait_time c s' p j' i + int (count_list ls Tick) \<le> wait_time c s p j i" by blast
  then have "int (count_list ls Tick) \<le> wait_time c s p j i"
    using wait_time_bounds(1) [OF w(1,2) assms(10) q(2), of p j'] by linarith
  also have "\<dots> \<le> (int j + 2) * 9871 * (time_slot c + 1)" using wait_time_bounds(2) [OF inv sl assms(10) q(2)] .
  also have "\<dots> = int ((j + 2) * 9871 * (ts + 1))" by (simp add: q(1) algebra_simps)
  finally show ?thesis by (simp only: of_nat_le_iff)
qed

theorem os_no_starvation_witness:
  "\<exists>c s0 s p. main_boot (demo_env 1 demo_procs) [''os'', ''os''] = Inr (c, s0) \<and>
    execs (sstep (demo_env 1 demo_procs) c) s0 [] s \<and> 0 < length (level (ksched (kern s)) p) \<and>
    (\<forall>ls s'. execs (waits_step (demo_env 1 demo_procs) c (level (ksched (kern s)) p ! 0)) s ls s' \<and> dpc (tim s') 0 \<noteq> D_gone \<longrightarrow>
       count_list ls Tick \<le> 59226)"
proof -
  have inp: "inputs (demo_env 1 demo_procs) ''os'' 2 1 1024 [512, 0, 0, 0] demo_procs" by (rule demo_inputs) simp_all
  obtain c s0 s p where b: "main_boot (demo_env 1 demo_procs) [''os'', ''os''] = Inr (c, s0)"
    and s: "execs (sstep (demo_env 1 demo_procs) c) s0 [] s" "0 \<le> p" "p < 140" "level (ksched (kern s)) p \<noteq> []"
    using demo_waits by blast
  then have l: "0 < length (level (ksched (kern s)) p)" by simp
  have "count_list ls Tick \<le> 59226"
    if "execs (waits_step (demo_env 1 demo_procs) c (level (ksched (kern s)) p ! 0)) s ls s'" "dpc (tim s') 0 \<noteq> D_gone" for ls s'
    using os_no_starvation [OF inp demo_clean b _ s(1-3) l that(1), of 0] that(2) by simp
  then show ?thesis using b s(1) l by blast
qed

text \<open>The ticks a process needs with \<open>m\<close> instructions left and the time slice \<open>ts\<close>.\<close>

definition done_in :: "nat \<Rightarrow> nat \<Rightarrow> nat" where
  "done_in ts m = (m + 1) * (11 * 9871 * (ts + 1) + 1) + 1"

lemma system_due:
  assumes "inputs e arg ts nc mem swps ps" "clean_env e" "main_boot e [prog, arg] = Inr (c, s0)" "0 < ts" "length ps \<le> 10"
    and "execs (rstep e c) s0 ls0 s" "in_system s p" "procs (kern s) p = Some x"
  shows "fair c nc s" "loadable e c" "num_processes c \<le> 10" "0 < time_slot c" "time_slot c < 2 ^ 31"
    "i < nc \<Longrightarrow> \<exists>t. due c i s p t \<and> t \<le> int (done_in ts (unat (code_size x) - unat (pc x)))"
proof -
  obtain c' t where b: "main_boot e [prog, arg] = Inr (c', t)" "config_says c' ts nc mem swps ps"
    "cpus t = replicate nc cpu_start" "dpc (tim t) = (\<lambda>_. D_run)" using main_boots [OF assms(1), of prog] by blast
  show st: "loadable e c" by (rule os_start(1) [OF assms(1,3)])
  have q: "time_slot c = int ts" "0 \<le> num_processes c"
    using assms(3) b(1,2) by (simp_all add: config_says_def)
  show q': "num_processes c \<le> 10" "0 < time_slot c" "time_slot c < 2 ^ 31"
    using assms(1,3-5) b by (simp_all add: config_says_def inputs_def config_fits_def)
  have "fair c nc s0" using boot_fair [OF assms(3) os_start(2) [OF assms(1,3)] _ _ q(2) q'(2)] assms(3) b by simp
  then show f: "fair c nc s" using fair_run [OF rstep_execs [OF assms(6)] _ assms(2) st q'(2,3)] by blast
  have "left_of (kern s) p = int (unat (code_size x) - unat (pc x))"
    using in_system_facts(1) [OF _ assms(7)] f assms(8) by (auto simp: fair_def left_of_def proc_ready_def word_le_nat_alt of_nat_diff)
  moreover have "(int m + 1) * (full_wait c + 1) + 1 = int (done_in ts m)" for m
    by (simp add: full_wait_def done_in_def q(1) algebra_simps)
  ultimately show "\<exists>t. due c i s p t \<and> t \<le> int (done_in ts (unat (code_size x) - unat (pc x)))" if "i < nc"
    using due_bounds(2) [OF f assms(7) q'(1,2) that] by metis
qed

text \<open>
  C4: no process is lost, and the time it takes is bounded, as long as a CPU is left. Take at most ten
  processes (with \<open>clean_env\<close>), a state reached by supported instructions run apart (as in \<open>os_no_fault\<close>)
  in which process \<open>p\<close> is ready or on a CPU, and any continuation of that kind in which its block has not
  been freed and some CPU has not detached. Then \<open>p\<close> is still on a level of the scheduler or with a CPU,
  and the clock has ticked at most \<open>done_in ts m\<close> times, where \<open>m\<close> is the number of its instructions
  that were to run and \<open>ts\<close> the time slice. That all CPUs detach before is possible (\<open>cpu_stops_early\<close>).
\<close>

theorem os_completion:
  assumes "inputs e arg ts nc mem swps ps" "clean_env e" "main_boot e [prog, arg] = Inr (c, s0)" "0 < ts" "length ps \<le> 10"
    and "execs (rstep e c) s0 ls0 s" "in_system s p" "procs (kern s) p = Some x"
    and "execs (alive_step e c p) s ls s'" "i < nc" "dpc (tim s') i \<noteq> D_gone"
  shows "in_system s' p \<and> count_list ls Tick \<le> done_in ts (unat (code_size x) - unat (pc x))"
proof -
  note q = system_due [OF assms(1-8)]
  obtain t where t: "due c i s p t" "t \<le> int (done_in ts (unat (code_size x) - unat (pc x)))" using q(6) [OF assms(10)] by blast
  obtain t' where t': "fair c nc s'" "due c i s' p t'" "t' + int (count_list ls Tick) \<le> t"
    using due_run [OF assms(9) q(1) assms(2) q(2-5) assms(10,11) t(1)] by blast
  have sys: "in_system s' p" by (rule due_in_system [OF t'(2)])
  have "0 \<le> t'" by (rule due_bounds(1) [OF t'(1) sys q(3,4) assms(10) t'(2)])
  then have "int (count_list ls Tick) \<le> int (done_in ts (unat (code_size x) - unat (pc x)))" using t'(3) t(2) by linarith
  then show ?thesis using sys by (simp only: of_nat_le_iff)
qed

theorem os_completion_witness:
  "\<exists>c s0 s p x. main_boot (demo_env 1 demo_procs) [''os'', ''os''] = Inr (c, s0) \<and>
    execs (rstep (demo_env 1 demo_procs) c) s0 [] s \<and> procs (kern s) p = Some x \<and> in_system s p \<and>
    (\<forall>ls s'. execs (alive_step (demo_env 1 demo_procs) c p) s ls s' \<and> dpc (tim s') 0 \<noteq> D_gone \<longrightarrow>
       in_system s' p \<and> count_list ls Tick \<le> done_in 2 (unat (code_size x) - unat (pc x)))"
proof -
  obtain c s0 s p x where b: "main_boot (demo_env 1 demo_procs) [''os'', ''os''] = Inr (c, s0)"
    "execs (rstep (demo_env 1 demo_procs) c) s0 [] s" "in_system s p" "procs (kern s) p = Some x"
    using demo_in_system by blast
  have inp: "inputs (demo_env 1 demo_procs) ''os'' 2 1 1024 [512, 0, 0, 0] demo_procs" by (rule demo_inputs) simp_all
  have "in_system s' p \<and> count_list ls Tick \<le> done_in 2 (unat (code_size x) - unat (pc x))"
    if "execs (alive_step (demo_env 1 demo_procs) c p) s ls s'" "dpc (tim s') 0 \<noteq> D_gone" for ls s'
    using os_completion [OF inp demo_clean b(1) _ _ b(2-4) that(1) _ that(2)] by (simp add: demo_procs_def)
  then show ?thesis using b by blast
qed

text \<open>A run as a sequence of states. The block of \<open>p\<close> is freed by the step from \<open>t\<close>, after its last instruction.\<close>

definition finishes :: "nat \<Rightarrow> os \<Rightarrow> os \<Rightarrow> bool" where
  "finishes p t t' \<longleftrightarrow> (\<exists>y. procs (kern t) p = Some y \<and> pc y = code_size y \<and> procs (kern t') p = None)"

lemma not_finished_alive:
  assumes "\<forall>n < m. \<exists>l. rstep e c (\<sigma> n) l (\<sigma> (Suc n))" "\<forall>n < m. \<not> finishes p (\<sigma> n) (\<sigma> (Suc n))"
    and "os_inv c nc (\<sigma> 0)" "clean_env e" "loadable e c" "procs (kern (\<sigma> 0)) p \<noteq> None" "n \<le> m"
  shows "os_inv c nc (\<sigma> n) \<and> procs (kern (\<sigma> n)) p \<noteq> None"
  using assms(7)
proof (induction n)
  case (Suc n)
  then have IH: "os_inv c nc (\<sigma> n)" "procs (kern (\<sigma> n)) p \<noteq> None" by simp_all
  obtain l where st: "ostep e c (\<sigma> n) l (\<sigma> (Suc n))" "supported (\<sigma> n)"
    using assms(1) Suc.prems unfolding rstep_simps by (metis Suc_le_lessD)
  have "\<not> finishes p (\<sigma> n) (\<sigma> (Suc n))" using assms(2) Suc.prems by simp
  then have "procs (kern (\<sigma> (Suc n))) p \<noteq> None"
    using freed_when_done [OF st(1) IH(1) st(2)] IH(2) by (auto simp: finishes_def)
  then show ?case using os_inv_step [OF st(1) IH(1) st(2) assms(4,5)] by simp
qed (use assms(3,6) in simp)

text \<open>
  C5: a maximal run finishes the process or loses all its CPUs. Take a state as in \<open>os_completion\<close> in which \<open>p\<close> has
  \<open>r\<close> instructions left, and a run \<open>\<sigma>\<close> from it, of supported instructions run apart, that has made
  \<open>(done_in ts r + 1) * (16 * nc + 21) + 1\<close> steps of all threads or has stopped before because no thread
  can go on (in a state with supported instructions, apart). Then \<open>cpu_routine\<close> has freed the block of
  \<open>p\<close> after its last instruction in the run, or all CPUs have detached by its end; \<open>cpu_stops_early\<close> shows
  how they can while \<open>p\<close> still waits.
\<close>

theorem os_finishes:
  assumes "inputs e arg ts nc mem swps ps" "clean_env e" "main_boot e [prog, arg] = Inr (c, s0)" "0 < ts" "length ps \<le> 10"
    and "execs (rstep e c) s0 ls0 (\<sigma> 0)" "in_system (\<sigma> 0) p" "procs (kern (\<sigma> 0)) p = Some x"
    and "\<forall>n < m. \<exists>l. rstep e c (\<sigma> n) l (\<sigma> (Suc n))"
    and "m = (done_in ts (unat (code_size x) - unat (pc x)) + 1) * (16 * nc + 21) + 1 \<or>
      supported (\<sigma> m) \<and> apart (\<sigma> m) \<and> (\<nexists>l t. ostep e c (\<sigma> m) l t)"
  shows "(\<exists>n < m. finishes p (\<sigma> n) (\<sigma> (Suc n))) \<or> (\<forall>i < nc. dpc (tim (\<sigma> m)) i = D_gone)"
proof (rule ccontr)
  assume "\<not> ?thesis"
  then obtain i where i: "i < nc" "dpc (tim (\<sigma> m)) i \<noteq> D_gone" and nf: "\<forall>n < m. \<not> finishes p (\<sigma> n) (\<sigma> (Suc n))" by blast
  let ?B = "done_in ts (unat (code_size x) - unat (pc x))" and ?R = "16 * int nc + 21"
  note q = system_due [OF assms(1-8)]
  have inv0: "os_inv c nc (\<sigma> 0)" using q(1) by (simp add: fair_def)
  have alive: "os_inv c nc (\<sigma> n)" "procs (kern (\<sigma> n)) p \<noteq> None" if "n \<le> m" for n
    using not_finished_alive [OF assms(9) nf inv0 assms(2) q(2) _ that] assms(8) by simp_all
  have "\<exists>l. alive_step e c p (\<sigma> n) l (\<sigma> (Suc n))" if "n < m" for n
    using assms(9) that alive(2) [of "Suc n"] by (auto simp: alive_step_def)
  then have run: "((\<lambda>s s'. \<exists>l. alive_step e c p s l s') ^^ m) (\<sigma> 0) (\<sigma> m)"
    unfolding relpowp_fun_conv by blast
  obtain t where t: "due c i (\<sigma> 0) p t" "t \<le> int ?B" using q(6) [OF i(1)] by blast
  obtain t' where t': "fair c nc (\<sigma> m)" "due c i (\<sigma> m) p t'"
    "t' * ?R + int (os_rank nc (\<sigma> m)) + int m \<le> t * ?R + int (os_rank nc (\<sigma> 0))"
    using due_steps [OF run q(1) assms(2) q(2-5) i t(1)] by blast
  have "0 \<le> t' * ?R" using due_bounds(1) [OF t'(1) due_in_system [OF t'(2)] q(3,4) i(1) t'(2)] by simp
  moreover have "t * ?R \<le> int ?B * ?R" using t(2) by (intro mult_right_mono) simp_all
  moreover have "os_rank nc (\<sigma> 0) \<le> 16 * nc + 20" using inv0 by (intro os_rank_le) (simp add: os_inv_def os_timer_def)
  then have "int (os_rank nc (\<sigma> 0)) \<le> ?R" by simp
  ultimately have "int m \<le> int ?B * ?R + ?R" using t'(3) by linarith
  also have "\<dots> = int ((?B + 1) * (16 * nc + 21))" by (simp add: distrib_right)
  finally have "m \<le> (?B + 1) * (16 * nc + 21)" by (simp only: of_nat_le_iff)
  then have "supported (\<sigma> m)" "\<nexists>l t. ostep e c (\<sigma> m) l t" using assms(10) by simp_all
  then show False using os_goes [OF alive(1) _ assms(2) q(2) _ i(2)] i(1) by simp
qed

theorem os_finishes_witness:
  "\<exists>c s0 s p x. main_boot (demo_env 1 demo_procs) [''os'', ''os''] = Inr (c, s0) \<and> procs (kern s) p = Some x \<and> in_system s p \<and>
    (\<forall>\<sigma>. \<sigma> 0 = s \<and> (\<forall>n. \<exists>l. rstep (demo_env 1 demo_procs) c (\<sigma> n) l (\<sigma> (Suc n))) \<longrightarrow>
       (\<exists>n. finishes p (\<sigma> n) (\<sigma> (Suc n))) \<or> (\<exists>n. dpc (tim (\<sigma> n)) 0 = D_gone))"
proof -
  obtain c s0 s p x where b: "main_boot (demo_env 1 demo_procs) [''os'', ''os''] = Inr (c, s0)"
    "execs (rstep (demo_env 1 demo_procs) c) s0 [] s" "in_system s p" "procs (kern s) p = Some x"
    using demo_in_system by blast
  have inp: "inputs (demo_env 1 demo_procs) ''os'' 2 1 1024 [512, 0, 0, 0] demo_procs" by (rule demo_inputs) simp_all
  let ?m = "(done_in 2 (unat (code_size x) - unat (pc x)) + 1) * (16 * 1 + 21) + 1"
  have "(\<exists>n < ?m. finishes p (\<sigma> n) (\<sigma> (Suc n))) \<or> (\<forall>i < 1. dpc (tim (\<sigma> ?m)) i = D_gone)"
    if "\<sigma> 0 = s" "\<forall>n. \<exists>l. rstep (demo_env 1 demo_procs) c (\<sigma> n) l (\<sigma> (Suc n))" for \<sigma>
    using os_finishes [OF inp demo_clean b(1), of _ \<sigma> p x ?m] b(2-4) that by (simp add: demo_procs_def)
  then show ?thesis using b by (meson less_one)
qed

text \<open>
  C14: an idle CPU never stops. Once no process waits, no CPU holds one and the loader has none
  left, a CPU that has not detached yet looks for a process in every slot and never comes to the
  test of \<open>done\<close>: it never detaches, the timer thread never ends, and \<open>stop_timer\<close> cannot
  return. The simulation does not terminate.
\<close>

theorem idle_cpu_never_stops:
  assumes "os_timer n s" "quiet c s" "i < n" "dpc (tim s) i \<noteq> D_gone"
    and "execs (ostep e c) s ls s'"
  shows "dpc (tim s') i \<noteq> D_gone \<and> tpc (tim s') \<noteq> T_exit \<and> stop_timer_free (tim s') = None"
proof -
  have len: "length (cpus s) = n" using assms(1) by (simp add: os_timer_def)
  have gone: "dpc (tim s') i \<noteq> D_gone" using quiet_run [OF assms(5,2)] assms(3,4) len by blast
  have "os_timer n s'" using os_sim.execs_invar [OF assms(5,1)] .
  then have "timer_inv (tim s')" "i \<in> set (dev_list (tim s'))" using assms(3) by (simp_all add: os_timer_def timer_with_def)
  then have "tpc (tim s') \<noteq> T_exit" using gone by (auto simp: timer_inv_def)
  then show ?thesis using gone by (simp add: stop_timer_free_def)
qed

theorem idle_cpu_never_stops_witness:
  "\<exists>c s. main_boot (demo_env 1 []) [''os'', ''os''] = Inr (c, s) \<and>
    (\<forall>ls s'. execs (ostep (demo_env 1 []) c) s ls s' \<longrightarrow> stop_timer_free (tim s') = None)"
proof -
  have "inputs (demo_env 1 []) ''os'' 2 1 1024 [512, 0, 0, 0] []" by (rule demo_inputs) simp_all
  from main_boots [OF this, of "''os''"] obtain c s where b:
    "main_boot (demo_env 1 []) [''os'', ''os''] = Inr (c, s)" "config_says c 2 1 1024 [512, 0, 0, 0] []"
    "os_inv c 1 s" "cpus s = replicate 1 cpu_start" "loader s = \<lparr>li = 0, lproc = None, lpc = L_start\<rparr>"
    "\<forall>l. 0 \<le> l \<and> l < 140 \<longrightarrow> level (ksched (kern s)) l = []" "dpc (tim s) = (\<lambda>_. D_run)"
    by blast
  have "quiet c s"
    using b(2-6) by (simp add: quiet_def os_inv_def pool_def config_says_def ld_finished_def cpu_start_def)
  moreover have "os_timer 1 s" using b(3) by (simp add: os_inv_def os_timer_def)
  moreover have "dpc (tim s) 0 \<noteq> D_gone" using b(7) by simp
  ultimately have "\<forall>ls s'. execs (ostep (demo_env 1 []) c) s ls s' \<longrightarrow> stop_timer_free (tim s') = None"
    using idle_cpu_never_stops [OF _ _ zero_less_one, of s c] by metis
  then show ?thesis using b(1) by blast
qed

text \<open>
  C15: a CPU can stop while processes are ready. When \<open>done\<close> is set and a CPU has just put its
  process back and every waiting level has used up its slots, \<open>get_proc\<close> returns NULL to refill
  the slots, and the CPU takes this for the end of the work: it prints that it stopped and leaves,
  with the process still waiting.
\<close>

theorem cpu_stops_early:
  assumes "sched_ok (prio_at k) (ksched k)" "0 \<le> l" "l < 140" "level (ksched k) l \<noteq> []"
    and "\<forall>j. \<not> serves (ksched k) j" "cpc u = C_get" "dn \<noteq> 0"
  shows "\<exists>k1 u1 u2. cpu_routine quantum dn i k u = Inr (k1, u1) \<and>
    cpu_routine quantum dn i k1 u1 = Inr (kprint F_cpu_stopped [AI (int i)] k1, u2) \<and>
    cpc u2 = C_exit \<and> level (ksched k1) l = level (ksched k) l"
  using assms(1)
proof (cases rule: get_proc_cases)
  case idle
  then show ?thesis using assms(2-4) by blast
next
  case (serve p x s')
  then show ?thesis using assms(5) by blast
next
  case (reset q s')
  then have "sched_get k = Inr (None, k\<lparr>ksched := s'\<rparr>)" by (simp add: sched_get_def)
  moreover have "level s' l = level (ksched k) l" using reset(7) assms(2,3) by (simp add: slots_reset_def)
  ultimately show ?thesis using assms(6,7) by (simp add: cpu_routine_def)
qed

text \<open>Process 0 waits at priority 0, whose slots are used up.\<close>

definition exhausted :: kernel where
  "exhausted = (two_procs (\<lambda>_. 0) [blank_inst])
    \<lparr>ksched := (boot_sched [0] [])\<lparr>slot := CArray 140 (\<lambda>_. 0)\<rparr>\<rparr>"

lemma exhausted_level: "0 \<le> l \<Longrightarrow> level (ksched exhausted) l = (if l = 0 then [0] else [])"
  using queue_of_ok [of "[0 :: nat]"] queue_of_ok [of "[] :: nat list"]
  by (auto simp: exhausted_def level_def boot_sched_def nat_eq_iff)

lemma exhausted_ok: "sched_ok (prio_at exhausted) (ksched exhausted)"
proof -
  have "prio_at exhausted 0 = Inr 0"
    by (simp add: prio_at_def pcb_at_def exhausted_def two_procs_def pcb_page_def blank_pcb_def)
  moreover have "u32_of_int p < 140" if "0 \<le> p" "p < 140" for p
    using that by (simp add: word_less_def uint_u32_of_int)
  moreover have "u32_of_int 0 = 0" by (simp add: u32_of_int_def)
  ultimately show ?thesis
    using queue_of_ok [of "[0 :: nat]"] queue_of_ok [of "[] :: nat list"]
    by (auto simp: sched_ok_def level_ok_def slots_def exhausted_def boot_sched_def nat_eq_iff)
qed

theorem cpu_stops_early_witness:
  "\<exists>k1 u1 u2. cpu_routine 2 1 0 exhausted \<lparr>cproc = Some 0, time_left = 0, cpc = C_get\<rparr> = Inr (k1, u1) \<and>
    cpu_routine 2 1 0 k1 u1 = Inr (kprint F_cpu_stopped [AI 0] k1, u2) \<and> cpc u2 = C_exit \<and>
    level (ksched k1) 0 = [0]"
proof -
  have "\<forall>j. \<not> serves (ksched exhausted) j" by (simp add: serves_def slots_def exhausted_def)
  from cpu_stops_early [OF exhausted_ok _ _ _ this, of 0 "\<lparr>cproc = Some 0, time_left = 0, cpc = C_get\<rparr>" 1 2 0]
  show ?thesis using exhausted_level [of 0] by simp
qed

end
